(* ===== verification/Prelude.thy ===== *)
theory Prelude
  imports Main "HOL-Library.Word"
begin

unbundle bit_operations_syntax

text \<open>
  What the component theories share: the machine integer types of the C code, executions of a
  concurrent component as runs of an executable step function, and the locale that lifts a
  one-step invariant to all reachable states.

  Every concurrent component is one function \<open>act :: 'c \<Rightarrow> 's \<Rightarrow> 's option\<close>. An action
  \<open>c\<close> names the thread that moves and resolves whatever the code leaves open (a spurious
  failure of a weak compare-exchange, the sleeper a wake-up picks); \<open>None\<close> says that this
  action is not possible in this state. Interleavings are sequentially consistent: one action is
  one access to shared memory together with the thread-local computation that follows it.
\<close>

section \<open>Types\<close>

type_synonym u32 = "32 word"
type_synonym u64 = "64 word"
type_synonym tid = nat

named_theorems bit_field \<open>facts on the bit fields packed into one word\<close>

section \<open>Executions\<close>

text \<open>The states an execution from \<open>init\<close> can reach.\<close>

inductive reachable :: "('c \<Rightarrow> 's \<Rightarrow> 's option) \<Rightarrow> ('s \<Rightarrow> bool) \<Rightarrow> 's \<Rightarrow> bool"
  for act :: "'c \<Rightarrow> 's \<Rightarrow> 's option" and init :: "'s \<Rightarrow> bool" where
  reachable_init: "init s \<Longrightarrow> reachable act init s"
| reachable_act: "reachable act init s \<Longrightarrow> act c s = Some s' \<Longrightarrow> reachable act init s'"

text \<open>One execution, given by its schedule: the list of actions in the order they happen.\<close>

primrec run_sched :: "('c \<Rightarrow> 's \<Rightarrow> 's option) \<Rightarrow> 'c list \<Rightarrow> 's \<Rightarrow> 's option" where
  "run_sched act [] s = Some s"
| "run_sched act (c # cs) s =
     (case act c s of None \<Rightarrow> None | Some s' \<Rightarrow> run_sched act cs s')"

lemma run_sched_append:
  "run_sched act (cs @ ds) s =
     (case run_sched act cs s of None \<Rightarrow> None | Some s' \<Rightarrow> run_sched act ds s')"
  by (induction cs arbitrary: s) (auto split: option.splits)

lemma run_sched_reachable:
  assumes "reachable act init s" and "run_sched act cs s = Some s'"
  shows "reachable act init s'"
  using assms
proof (induction cs arbitrary: s)
  case Nil
  then show ?case by simp
next
  case (Cons c cs)
  then show ?case
    by (auto split: option.splits intro: reachable_act)
qed

lemma run_sched_from_init:
  "init s \<Longrightarrow> run_sched act cs s = Some s' \<Longrightarrow> reachable act init s'"
  by (rule run_sched_reachable [OF reachable_init])

text \<open>The other way round: what steps of the action function as a relation reach is reachable.\<close>

lemma rtranclp_reachable:
  "(\<lambda>v v'. \<exists>c. act c v = Some v')\<^sup>*\<^sup>* v v' \<Longrightarrow> reachable act init v \<Longrightarrow> reachable act init v'"
  by (induction rule: rtranclp_induct) (auto intro: reachable_act)

section \<open>Invariants\<close>

text \<open>
  The contract of a component with an invariant. Each component interprets it on its own step
  function; its safety properties then follow from the interpretation's \<open>reachable_inv\<close>.
\<close>

locale safe_system =
  fixes act :: "'c \<Rightarrow> 's \<Rightarrow> 's option"
    and init :: "'s \<Rightarrow> bool"
    and inv :: "'s \<Rightarrow> bool"
  assumes init_inv: "init s \<Longrightarrow> inv s"
    and act_inv: "inv s \<Longrightarrow> act c s = Some s' \<Longrightarrow> inv s'"
begin

lemma reachable_inv: "reachable act init s \<Longrightarrow> inv s"
  by (induction rule: reachable.induct) (auto intro: init_inv act_inv)

lemma run_inv: "inv s \<Longrightarrow> run_sched act cs s = Some s' \<Longrightarrow> inv s'"
  by (induction cs arbitrary: s) (auto split: option.splits intro: act_inv)

end

text \<open>
  The contract of a program that ends: short of the end somebody can move, and every move lowers a
  bound. Then from every state an execution reaches the end, and none is longer than the bound.
\<close>

locale ending_system = safe_system +
  fixes at_end :: "'s \<Rightarrow> bool"
    and left :: "'s \<Rightarrow> nat"
  assumes progress: "inv s \<Longrightarrow> \<not> at_end s \<Longrightarrow> \<exists>c s'. act c s = Some s'"
    and decrease: "inv s \<Longrightarrow> act c s = Some s' \<Longrightarrow> left s' < left s"
begin

lemma run_bound: "inv s \<Longrightarrow> run_sched act cs s = Some s' \<Longrightarrow> length cs + left s' \<le> left s"
proof (induction cs arbitrary: s)
  case (Cons c cs)
  then obtain v where v: "act c s = Some v" "run_sched act cs v = Some s'"
    by (auto split: option.splits)
  from Cons.IH [OF act_inv [OF Cons.prems(1) v(1)] v(2)] decrease [OF Cons.prems(1) v(1)]
  show ?case by simp
qed simp

lemma runs_to_end: "inv s \<Longrightarrow> \<exists>cs s'. run_sched act cs s = Some s' \<and> at_end s'"
proof (induction "left s" arbitrary: s rule: less_induct)
  case less
  show ?case
  proof (cases "at_end s")
    case True
    then show ?thesis by (intro exI [of _ "[]"] exI [of _ s]) simp
  next
    case False
    with less.prems obtain c v where v: "act c s = Some v" using progress by blast
    from less.hyps [OF decrease [OF less.prems v] act_inv [OF less.prems v]] obtain cs s' where
      "run_sched act cs v = Some s'" "at_end s'" by blast
    with v show ?thesis by (intro exI [of _ "c # cs"] exI [of _ s']) simp
  qed
qed

end

text \<open>
  The contract of a simulation: every concrete action is matched by a step of the abstract
  relation or changes nothing the abstraction sees. Reachable concrete states are then related
  to states the abstract relation reaches.
\<close>

locale simulated_system = safe_system +
  fixes astep :: "'a \<Rightarrow> 'a \<Rightarrow> bool"
    and ainit :: "'a \<Rightarrow> bool"
    and rel :: "'s \<Rightarrow> 'a \<Rightarrow> bool"
  assumes init_rel: "init s \<Longrightarrow> \<exists>a. ainit a \<and> rel s a"
    and act_rel: "inv s \<Longrightarrow> act c s = Some s' \<Longrightarrow> rel s a \<Longrightarrow>
      \<exists>a'. rel s' a' \<and> astep\<^sup>=\<^sup>= a a'"
begin

lemma reachable_rel:
  "reachable act init s \<Longrightarrow> \<exists>a0 a. ainit a0 \<and> astep\<^sup>*\<^sup>* a0 a \<and> rel s a"
proof (induction rule: reachable.induct)
  case (reachable_init s)
  then show ?case by (blast dest: init_rel intro: rtranclp.rtrancl_refl)
next
  case (reachable_act s c s')
  then obtain a0 a where a: "ainit a0" "astep\<^sup>*\<^sup>* a0 a" "rel s a" by blast
  from reachable_act have "inv s" by (blast intro: reachable_inv)
  with reachable_act a obtain a' where "rel s' a'" "astep\<^sup>=\<^sup>= a a'"
    by (blast dest: act_rel)
  with a show ?case by (auto intro: rtranclp.rtrancl_into_rtrancl)
qed

end

text \<open>
  The contract of a refinement of histories: actions are observed as events, and every action is matched
  by some actions of a specification with the same events. Then every execution has the history of
  one of the specification.
\<close>

primrec history :: "('c \<Rightarrow> 's \<Rightarrow> 's option) \<Rightarrow> ('s \<Rightarrow> 'c \<Rightarrow> 'e list) \<Rightarrow> 'c list \<Rightarrow> 's \<Rightarrow> 'e list" where
  "history act ev [] s = []"
| "history act ev (c # cs) s =
     ev s c @ (case act c s of None \<Rightarrow> [] | Some s' \<Rightarrow> history act ev cs s')"

locale history_refinement = safe_system +
  fixes ev :: "'s \<Rightarrow> 'c \<Rightarrow> 'e list"
    and aact :: "'d \<Rightarrow> 'a \<Rightarrow> 'a option"
    and aev :: "'d \<Rightarrow> 'e list"
    and rel :: "'s \<Rightarrow> 'a \<Rightarrow> bool"
  assumes act_matched: "inv s \<Longrightarrow> act c s = Some s' \<Longrightarrow> rel s a \<Longrightarrow>
    \<exists>ds a'. run_sched aact ds a = Some a' \<and> concat (map aev ds) = ev s c \<and> rel s' a'"
begin

lemma run_matched:
  "inv s \<Longrightarrow> rel s a \<Longrightarrow> run_sched act cs s = Some s' \<Longrightarrow>
    \<exists>ds a'. run_sched aact ds a = Some a' \<and> concat (map aev ds) = history act ev cs s \<and> rel s' a'"
proof (induction cs arbitrary: s a)
  case Nil
  then show ?case by (intro exI [of _ "[]"] exI [of _ a]) simp
next
  case (Cons c cs)
  then obtain v where v: "act c s = Some v" "run_sched act cs v = Some s'"
    by (auto split: option.splits)
  from act_matched [OF Cons.prems(1) v(1) Cons.prems(2)] obtain ds b where
    b: "run_sched aact ds a = Some b" "concat (map aev ds) = ev s c" "rel v b" by blast
  from Cons.IH [OF act_inv [OF Cons.prems(1) v(1)] b(3) v(2)] obtain es a' where
    "run_sched aact es b = Some a'" "concat (map aev es) = history act ev cs v" "rel s' a'" by blast
  with b v show ?case
    by (intro exI [of _ "ds @ es"] exI [of _ a']) (simp add: run_sched_append)
qed

end

end
