(* ===== verification/Atomics.thy ===== *)
theory Atomics
  imports Prelude
begin

text \<open>
  \<^verbatim>\<open>nptl/atomic.h\<close> and the \<^verbatim>\<open>k_*\<close> macros of \<^verbatim>\<open>kernel/k_sched.h\<close>: the read-modify-write
  operations both files define over the compiler's \<^verbatim>\<open>__atomic_*\<close> builtins. A cell is the value
  it holds; an operation returns the value the C expression has and the cell afterwards. The
  memory orders are not modelled: executions are sequentially consistent.
\<close>

definition atomic_load :: "'w::len word \<Rightarrow> 'w word" where
  "atomic_load p = p"

definition atomic_store :: "'w::len word \<Rightarrow> 'w word \<Rightarrow> 'w word" where
  "atomic_store p val = val"

text \<open>The fetch operations return the old value.\<close>

definition atomic_fetch_add :: "'w::len word \<Rightarrow> 'w word \<Rightarrow> 'w word \<times> 'w word" where
  "atomic_fetch_add p val = (p, p + val)"

definition atomic_fetch_sub :: "'w::len word \<Rightarrow> 'w word \<Rightarrow> 'w word \<times> 'w word" where
  "atomic_fetch_sub p val = (p, p - val)"

definition atomic_fetch_and :: "'w::len word \<Rightarrow> 'w word \<Rightarrow> 'w word \<times> 'w word" where
  "atomic_fetch_and p val = (p, p AND val)"

definition atomic_fetch_or :: "'w::len word \<Rightarrow> 'w word \<Rightarrow> 'w word \<times> 'w word" where
  "atomic_fetch_or p val = (p, p OR val)"

definition atomic_fetch_xor :: "'w::len word \<Rightarrow> 'w word \<Rightarrow> 'w word \<times> 'w word" where
  "atomic_fetch_xor p val = (p, p XOR val)"

text \<open>
  Compare-exchange returns whether it succeeded, the new value of \<open>expected\<close> (updated in place
  on failure) and the cell. The weak form may fail although the cell holds \<open>expected\<close>: that is
  the argument \<open>spurious\<close>.
\<close>

definition atomic_compare_exchange_strong ::
  "'w::len word \<Rightarrow> 'w word \<Rightarrow> 'w word \<Rightarrow> bool \<times> 'w word \<times> 'w word" where
  "atomic_compare_exchange_strong p expected desired =
     (if p = expected then (True, expected, desired) else (False, p, p))"

definition atomic_compare_exchange_weak ::
  "bool \<Rightarrow> 'w::len word \<Rightarrow> 'w word \<Rightarrow> 'w word \<Rightarrow> bool \<times> 'w word \<times> 'w word" where
  "atomic_compare_exchange_weak spurious p expected desired =
     (if p = expected \<and> \<not> spurious then (True, expected, desired) else (False, p, p))"

lemmas atomic_defs =
  atomic_load_def atomic_store_def atomic_fetch_add_def atomic_fetch_sub_def
  atomic_fetch_and_def atomic_fetch_or_def atomic_fetch_xor_def
  atomic_compare_exchange_strong_def atomic_compare_exchange_weak_def

lemma atomic_compare_exchange_weak_split:
  "P (atomic_compare_exchange_weak sp p e d) \<longleftrightarrow>
     (p = e \<and> \<not> sp \<longrightarrow> P (True, e, d)) \<and> (p \<noteq> e \<or> sp \<longrightarrow> P (False, p, p))"
  by (auto simp: atomic_compare_exchange_weak_def)

end
