(* ===== verification/Tri_Lock.thy ===== *)
theory Tri_Lock
  imports Atomics
begin

text \<open>
  \<^verbatim>\<open>nptl/three_states_lock_t.h\<close>: a lock in the two low bits of a 32-bit word whose upper bits
  belong to the user of the lock.
\<close>

section \<open>The word\<close>

definition three_states_unlocked :: u32 where "three_states_unlocked = 0"
definition three_states_locked_no_waiter :: u32 where "three_states_locked_no_waiter = 1"
definition three_states_locked_waiters :: u32 where "three_states_locked_waiters = 2"
definition three_states_mask :: u32 where "three_states_mask = 3"

definition State :: "u32 \<Rightarrow> u32" where
  "State v = v AND three_states_mask"

definition ClearState :: "u32 \<Rightarrow> u32" where
  "ClearState v = v AND NOT three_states_mask"

lemmas three_states_defs = three_states_unlocked_def three_states_locked_no_waiter_def
  three_states_locked_waiters_def three_states_mask_def

text \<open>The upper bits, which the lock operations leave to their user.\<close>

definition payload :: "u32 \<Rightarrow> u32" where
  "payload v = drop_bit 2 v"

lemma bit_three_states_mask [bit_field]: "bit three_states_mask n \<longleftrightarrow> n < 2"
proof -
  have mask: "three_states_mask = mask 2"
    by (simp add: three_states_mask_def mask_eq_exp_minus_1)
  show ?thesis unfolding mask by (subst bit_mask_iff) auto
qed

lemma bit_locked_no_waiter [bit_field]: "bit three_states_locked_no_waiter n \<longleftrightarrow> n = 0"
  by (auto simp: three_states_locked_no_waiter_def bit_1_iff)

lemma bit_locked_waiters [bit_field]: "bit three_states_locked_waiters n \<longleftrightarrow> n = 1"
proof -
  have two: "three_states_locked_waiters = 2 ^ 1"
    by (simp add: three_states_locked_waiters_def)
  show ?thesis unfolding two by (subst bit_exp_iff) (auto simp: possible_bit_def)
qed

lemma bit_unlocked [bit_field]: "\<not> bit three_states_unlocked n"
  by (simp add: three_states_unlocked_def)

lemma bit_State [bit_field]: "bit (State v) n \<longleftrightarrow> bit v n \<and> n < 2"
  by (simp add: State_def bit_simps bit_three_states_mask)

lemma bit_ClearState [bit_field]: "bit (ClearState v) n \<longleftrightarrow> bit v n \<and> 2 \<le> n"
  by (auto simp: ClearState_def bit_simps bit_three_states_mask dest: bit_imp_le_length)

lemma bit_payload [bit_field]: "bit (payload v) n \<longleftrightarrow> bit v (2 + n)"
  by (simp add: payload_def bit_simps)

text \<open>The two fields determine the word, and the word operations of the code act on one of them.\<close>

lemma State_unlocked_iff: "State v = three_states_unlocked \<longleftrightarrow> \<not> bit v 0 \<and> \<not> bit v 1"
proof
  assume eq: "State v = three_states_unlocked"
  have "bit (State v) n \<longleftrightarrow> bit three_states_unlocked n" for n using eq by simp
  from this [of 0] this [of 1] show "\<not> bit v 0 \<and> \<not> bit v 1" by (simp add: bit_field)
next
  assume clear: "\<not> bit v 0 \<and> \<not> bit v 1"
  show "State v = three_states_unlocked"
  proof (rule bit_word_eqI)
    fix n
    from clear show "bit (State v) n \<longleftrightarrow> bit three_states_unlocked n"
      by (cases "n = 0"; cases "n = 1") (auto simp: bit_field)
  qed
qed

lemma State_acquire_fast [simp]:
  assumes "State v = three_states_unlocked"
  shows "State (v OR three_states_locked_no_waiter) = three_states_locked_no_waiter"
  using assms unfolding State_unlocked_iff
  by (intro bit_word_eqI) (auto simp: bit_simps bit_field less_2_cases_iff)

lemma State_acquire_slow [simp]:
  "State (ClearState v OR three_states_locked_waiters) = three_states_locked_waiters"
  by (intro bit_word_eqI) (auto simp: bit_simps bit_field)

lemma State_ClearState [simp]: "State (ClearState v) = three_states_unlocked"
  by (intro bit_word_eqI) (auto simp: bit_simps bit_field)

lemma payload_acquire_fast [simp]: "payload (v OR three_states_locked_no_waiter) = payload v"
  by (intro bit_word_eqI) (auto simp: bit_simps bit_field)

lemma payload_acquire_slow [simp]:
  "payload (ClearState v OR three_states_locked_waiters) = payload v"
  by (intro bit_word_eqI) (auto simp: bit_simps bit_field)

lemma payload_ClearState [simp]: "payload (ClearState v) = payload v"
  by (intro bit_word_eqI) (auto simp: bit_field)

lemma word_fields_eq_iff: "v = w \<longleftrightarrow> State v = State w \<and> payload v = payload w"
proof
  assume eq: "State v = State w \<and> payload v = payload w"
  show "v = w"
  proof (rule bit_word_eqI)
    fix n assume "n < LENGTH(32)"
    from eq have "bit (State v) n = bit (State w) n"
      and "bit (payload v) (n - 2) = bit (payload w) (n - 2)" by simp_all
    then show "bit v n \<longleftrightarrow> bit w n"
      by (cases "n < 2") (simp_all only: bit_field le_add_diff_inverse linorder_not_less, simp_all)
  qed
qed simp

lemma State_distinct [simp]:
  "three_states_unlocked \<noteq> three_states_locked_no_waiter"
  "three_states_locked_no_waiter \<noteq> three_states_unlocked"
  "three_states_unlocked \<noteq> three_states_locked_waiters"
  "three_states_locked_waiters \<noteq> three_states_unlocked"
  "three_states_locked_no_waiter \<noteq> three_states_locked_waiters"
  "three_states_locked_waiters \<noteq> three_states_locked_no_waiter"
  by (simp_all add: three_states_defs)

text \<open>What the user of the lock does to the upper bits while it holds the lock.\<close>

definition set_payload :: "u32 \<Rightarrow> u32 \<Rightarrow> u32" where
  "set_payload p v = push_bit 2 p OR State v"

lemma State_set_payload [simp]: "State (set_payload p v) = State v"
  by (intro bit_word_eqI) (auto simp: set_payload_def bit_simps bit_field)

section \<open>Threads that run lock and unlock on one word\<close>

text \<open>
  Where a thread is. The argument is the C local \<^verbatim>\<open>expected\<close>. \<open>L_fast\<close> and \<open>L_slow\<close> are
  the two compare-exchanges, \<open>L_wait\<close> the point before the \<^verbatim>\<open>FUTEX_WAIT\<close> call, \<open>L_blocked\<close>
  asleep in the kernel, \<open>L_reload\<close> the load after it, \<open>U_wake\<close> the point before the
  \<^verbatim>\<open>FUTEX_WAKE\<close> call of unlock.
\<close>

datatype lock_pc =
    Outside
  | L_load
  | L_fast u32
  | L_slow u32
  | L_wait u32
  | L_blocked
  | L_reload
  | Holding
  | U_wake

text \<open>\<open>sleepers\<close> is the kernel's wait queue of the word.\<close>

record lock_sys =
  lock_word :: u32
  lock_pcs :: "tid \<Rightarrow> lock_pc"
  sleepers :: "tid list"

definition goto :: "tid \<Rightarrow> lock_pc \<Rightarrow> lock_sys \<Rightarrow> lock_sys" where
  "goto t p s = s\<lparr>lock_pcs := (lock_pcs s)(t := p)\<rparr>"

text \<open>The head of the slow path: try to announce a waiter, or go to sleep at once.\<close>

definition slow_head :: "u32 \<Rightarrow> lock_pc" where
  "slow_head expected =
     (if State expected \<noteq> three_states_locked_waiters then L_slow expected
      else L_wait expected)"

text \<open>The head of the fast path.\<close>

definition fast_head :: "u32 \<Rightarrow> lock_pc" where
  "fast_head expected =
     (if State expected = three_states_unlocked then L_fast expected else slow_head expected)"

text \<open>
  One step of \<^verbatim>\<open>three_states_lock\<close>. \<open>spurious\<close> lets a weak compare-exchange fail.
  A failed exchange of the slow path goes round the loop only when the lock was seen free, and
  otherwise falls through to the wait with the value it has just read.
\<close>

definition three_states_lock :: "tid \<Rightarrow> bool \<Rightarrow> lock_sys \<Rightarrow> lock_sys option" where
  "three_states_lock t spurious s =
     (case lock_pcs s t of
        L_load \<Rightarrow> Some (goto t (fast_head (atomic_load (lock_word s))) s)
      | L_fast expected \<Rightarrow>
          (case atomic_compare_exchange_weak spurious (lock_word s) expected
                  (expected OR three_states_locked_no_waiter) of
             (True, _, w) \<Rightarrow> Some (goto t Holding (s\<lparr>lock_word := w\<rparr>))
           | (False, expected', _) \<Rightarrow> Some (goto t (fast_head expected') s))
      | L_slow expected \<Rightarrow>
          (let desired = ClearState expected OR three_states_locked_waiters;
               old_state = State expected
           in case atomic_compare_exchange_weak spurious (lock_word s) expected desired of
                (True, _, w) \<Rightarrow>
                  (if old_state = three_states_unlocked
                   then Some (goto t Holding (s\<lparr>lock_word := w\<rparr>))
                   else Some (goto t (L_wait desired) (s\<lparr>lock_word := w\<rparr>)))
              | (False, expected', _) \<Rightarrow>
                  (if State expected' = three_states_unlocked
                   then Some (goto t (slow_head expected') s)
                   else Some (goto t (L_wait expected') s)))
      | L_wait expected \<Rightarrow>
          (if lock_word s = expected
           then Some (goto t L_blocked (s\<lparr>sleepers := sleepers s @ [t]\<rparr>))
           else Some (goto t L_reload s))
      | L_reload \<Rightarrow> Some (goto t (slow_head (atomic_load (lock_word s))) s)
      | _ \<Rightarrow> None)"

text \<open>
  \<^verbatim>\<open>three_states_unlock\<close>: the word is released first; the wake-up is a separate step, which
  picks the sleeper \<open>u\<close>, or nobody when there is none.
\<close>

definition three_states_unlock :: "tid \<Rightarrow> lock_sys \<Rightarrow> lock_sys option" where
  "three_states_unlock t s =
     (if lock_pcs s t = Holding
      then let (old, w) = atomic_fetch_and (lock_word s) (NOT three_states_mask)
           in Some (goto t (if State old = three_states_locked_waiters then U_wake else Outside)
                     (s\<lparr>lock_word := w\<rparr>))
      else None)"

definition unlock_wake :: "tid \<Rightarrow> tid \<Rightarrow> lock_sys \<Rightarrow> lock_sys option" where
  "unlock_wake t u s =
     (if lock_pcs s t = U_wake
      then if sleepers s = [] then Some (goto t Outside s)
           else if u \<in> set (sleepers s)
           then Some (goto t Outside (goto u L_reload
                  (s\<lparr>sleepers := remove1 u (sleepers s)\<rparr>)))
           else None
      else None)"

text \<open>
  The actions: a thread calls lock, makes a step inside it, changes the upper bits while it holds
  the lock, unlocks, delivers the wake-up; and the kernel may end a wait for no reason.
\<close>

datatype lock_action =
    Call tid
  | Step tid bool
  | Set_payload tid u32
  | Unlock tid
  | Wake tid tid
  | Spurious_return tid

fun lock_act :: "lock_action \<Rightarrow> lock_sys \<Rightarrow> lock_sys option" where
  "lock_act (Call t) s = (if lock_pcs s t = Outside then Some (goto t L_load s) else None)"
| "lock_act (Step t spurious) s = three_states_lock t spurious s"
| "lock_act (Set_payload t p) s =
     (if lock_pcs s t = Holding
      then Some (s\<lparr>lock_word := set_payload p (lock_word s)\<rparr>) else None)"
| "lock_act (Unlock t) s = three_states_unlock t s"
| "lock_act (Wake t u) s = unlock_wake t u s"
| "lock_act (Spurious_return t) s =
     (if lock_pcs s t = L_blocked
      then Some (goto t L_reload (s\<lparr>sleepers := remove1 t (sleepers s)\<rparr>)) else None)"

definition lock_init :: "u32 \<Rightarrow> lock_sys" where
  "lock_init p = \<lparr>lock_word = push_bit 2 p, lock_pcs = (\<lambda>_. Outside), sleepers = []\<rparr>"

definition lock_start :: "lock_sys \<Rightarrow> bool" where
  "lock_start s \<longleftrightarrow> State (lock_word s) = three_states_unlocked \<and>
     lock_pcs s = (\<lambda>_. Outside) \<and> sleepers s = []"

section \<open>The invariant\<close>

text \<open>What the value a thread holds in \<open>expected\<close> can be at each point.\<close>

fun local_ok :: "lock_pc \<Rightarrow> bool" where
  "local_ok (L_fast e) \<longleftrightarrow> State e = three_states_unlocked"
| "local_ok (L_slow e) \<longleftrightarrow>
     State e = three_states_unlocked \<or> State e = three_states_locked_no_waiter"
| "local_ok (L_wait e) \<longleftrightarrow>
     State e = three_states_locked_no_waiter \<or> State e = three_states_locked_waiters"
| "local_ok _ \<longleftrightarrow> True"

definition is_lock_state :: "u32 \<Rightarrow> bool" where
  "is_lock_state v \<longleftrightarrow> State v \<in> {three_states_unlocked, three_states_locked_no_waiter,
     three_states_locked_waiters}"

definition lock_inv :: "lock_sys \<Rightarrow> bool" where
  "lock_inv s \<longleftrightarrow>
     is_lock_state (lock_word s) \<and>
     (\<forall>t u. lock_pcs s t = Holding \<and> lock_pcs s u = Holding \<longrightarrow> t = u) \<and>
     (State (lock_word s) = three_states_unlocked \<longleftrightarrow> (\<forall>t. lock_pcs s t \<noteq> Holding)) \<and>
     (\<forall>t. local_ok (lock_pcs s t)) \<and>
     distinct (sleepers s) \<and> set (sleepers s) = {t. lock_pcs s t = L_blocked}"

lemmas lock_act_defs = three_states_lock_def three_states_unlock_def unlock_wake_def

lemma goto_simps [simp]:
  "lock_pcs (goto t p s) u = (if u = t then p else lock_pcs s u)"
  "lock_word (goto t p s) = lock_word s"
  "sleepers (goto t p s) = sleepers s"
  by (simp_all add: goto_def)

lemma State_fetch_and [simp]:
  "State (v AND NOT three_states_mask) = three_states_unlocked"
  using State_ClearState [of v] by (simp add: ClearState_def)

lemma local_ok_head [simp]:
  "is_lock_state e \<Longrightarrow> local_ok (slow_head e)"
  "is_lock_state e \<Longrightarrow> local_ok (fast_head e)"
  by (auto simp: slow_head_def fast_head_def is_lock_state_def)

lemma head_not_in [simp]:
  "slow_head e \<noteq> Holding" "slow_head e \<noteq> L_blocked"
  "fast_head e \<noteq> Holding" "fast_head e \<noteq> L_blocked"
  by (auto simp: slow_head_def fast_head_def)

lemma lock_start_inv: "lock_start s \<Longrightarrow> lock_inv s"
  by (simp add: lock_start_def lock_inv_def is_lock_state_def)

text \<open>The four kinds of change an action makes.\<close>

lemma lock_inv_goto:
  assumes "lock_inv s" and "lock_pcs s t \<notin> {Holding, L_blocked}"
    and "p \<notin> {Holding, L_blocked}" and "local_ok p"
  shows "lock_inv (goto t p s)"
proof -
  have "lock_pcs (goto t p s) u = Holding \<longleftrightarrow> lock_pcs s u = Holding"
    and "lock_pcs (goto t p s) u = L_blocked \<longleftrightarrow> lock_pcs s u = L_blocked" for u
    using assms by auto
  with assms show ?thesis unfolding lock_inv_def by simp
qed

lemma lock_inv_acquire:
  assumes "lock_inv s" and "State (lock_word s) = three_states_unlocked"
    and "lock_pcs s t \<noteq> L_blocked"
    and "is_lock_state w" and "State w \<noteq> three_states_unlocked"
  shows "lock_inv (goto t Holding (s\<lparr>lock_word := w\<rparr>))"
  using assms unfolding lock_inv_def by auto

lemma lock_inv_word:
  assumes "lock_inv s" and "is_lock_state w"
    and "State w = three_states_unlocked \<longleftrightarrow> State (lock_word s) = three_states_unlocked"
  shows "lock_inv (s\<lparr>lock_word := w\<rparr>)"
  using assms unfolding lock_inv_def by simp

lemma lock_inv_release:
  assumes "lock_inv s" and "lock_pcs s t = Holding" and "p = U_wake \<or> p = Outside"
    and "State w = three_states_unlocked"
  shows "lock_inv (goto t p (s\<lparr>lock_word := w\<rparr>))"
  using assms unfolding lock_inv_def is_lock_state_def by auto

lemma lock_inv_sleep:
  assumes "lock_inv s" and "lock_pcs s t = L_wait e"
  shows "lock_inv (goto t L_blocked (s\<lparr>sleepers := sleepers s @ [t]\<rparr>))" (is "lock_inv ?s'")
proof -
  have "lock_pcs ?s' u = Holding \<longleftrightarrow> lock_pcs s u = Holding" for u using assms by auto
  with assms show ?thesis unfolding lock_inv_def by auto
qed

lemma lock_inv_awake:
  assumes "lock_inv s" and "lock_pcs s t = L_blocked"
  shows "lock_inv (goto t L_reload (s\<lparr>sleepers := remove1 t (sleepers s)\<rparr>))" (is "lock_inv ?s'")
proof -
  have "lock_pcs ?s' u = Holding \<longleftrightarrow> lock_pcs s u = Holding" for u using assms by auto
  with assms show ?thesis unfolding lock_inv_def by auto
qed

lemma lock_inv_facts:
  assumes "lock_inv s"
  shows lock_inv_word_state: "is_lock_state (lock_word s)"
    and lock_inv_local: "local_ok (lock_pcs s t)"
    and lock_inv_sleepers: "t \<in> set (sleepers s) \<longleftrightarrow> lock_pcs s t = L_blocked"
  using assms by (auto simp: lock_inv_def)

lemma three_states_lock_inv:
  assumes inv: "lock_inv s" and act: "three_states_lock t sp s = Some s'"
  shows "lock_inv s'"
proof (cases "lock_pcs s t")
  case L_load
  with act have "s' = goto t (fast_head (lock_word s)) s"
    by (simp add: lock_act_defs atomic_defs)
  with inv L_load show ?thesis by (simp add: lock_inv_goto lock_inv_word_state)
next
  case (L_fast e)
  with inv have e: "State e = three_states_unlocked" using lock_inv_local [of s t] by simp
  from L_fast act consider
      "lock_word s = e" "s' = goto t Holding (s\<lparr>lock_word := e OR three_states_locked_no_waiter\<rparr>)"
    | "s' = goto t (fast_head (lock_word s)) s"
    by (auto simp: lock_act_defs atomic_defs split: if_splits)
  then show ?thesis
  proof cases
    case 1
    with inv e L_fast show ?thesis by (simp add: lock_inv_acquire is_lock_state_def)
  next
    case 2
    with inv L_fast show ?thesis by (simp add: lock_inv_goto lock_inv_word_state)
  qed
next
  case (L_slow e)
  let ?d = "ClearState e OR three_states_locked_waiters"
  from L_slow act consider
      "lock_word s = e" "State e = three_states_unlocked" "s' = goto t Holding (s\<lparr>lock_word := ?d\<rparr>)"
    | "lock_word s = e" "State e \<noteq> three_states_unlocked"
      "s' = goto t (L_wait ?d) (s\<lparr>lock_word := ?d\<rparr>)"
    | "s' = goto t (slow_head (lock_word s)) s"
    | "State (lock_word s) \<noteq> three_states_unlocked" "s' = goto t (L_wait (lock_word s)) s"
    by (auto simp: lock_act_defs atomic_defs Let_def split: if_splits)
  then show ?thesis
  proof cases
    case 1
    with inv L_slow show ?thesis by (simp add: lock_inv_acquire is_lock_state_def)
  next
    case 2
    with inv L_slow show ?thesis
      by (simp add: lock_inv_goto lock_inv_word is_lock_state_def)
  next
    case 3
    with inv L_slow show ?thesis by (simp add: lock_inv_goto lock_inv_word_state)
  next
    case 4
    with inv have "local_ok (L_wait (lock_word s))"
      using lock_inv_word_state by (auto simp: is_lock_state_def)
    with inv 4 L_slow show ?thesis by (simp add: lock_inv_goto)
  qed
next
  case (L_wait e)
  with act consider "s' = goto t L_blocked (s\<lparr>sleepers := sleepers s @ [t]\<rparr>)"
    | "s' = goto t L_reload s"
    by (auto simp: lock_act_defs split: if_splits)
  then show ?thesis
    by cases (use inv L_wait in \<open>simp_all add: lock_inv_sleep lock_inv_goto\<close>)
next
  case L_reload
  with act have "s' = goto t (slow_head (lock_word s)) s"
    by (simp add: lock_act_defs atomic_defs)
  with inv L_reload show ?thesis by (simp add: lock_inv_goto lock_inv_word_state)
qed (use act in \<open>simp_all add: lock_act_defs\<close>)

lemma unlock_wake_inv:
  assumes inv: "lock_inv s" and act: "unlock_wake t u s = Some s'"
  shows "lock_inv s'"
proof -
  from act have t: "lock_pcs s t = U_wake" by (auto simp: unlock_wake_def split: if_splits)
  from act consider "s' = goto t Outside s"
    | "lock_pcs s u = L_blocked" 
      "s' = goto t Outside (goto u L_reload (s\<lparr>sleepers := remove1 u (sleepers s)\<rparr>))"
    using lock_inv_sleepers [OF inv] by (auto simp: unlock_wake_def split: if_splits)
  then show ?thesis
  proof cases
    case 2
    from inv 2(1) have "lock_inv (goto u L_reload (s\<lparr>sleepers := remove1 u (sleepers s)\<rparr>))"
      by (rule lock_inv_awake)
    then show ?thesis unfolding 2(2) by (rule lock_inv_goto) (use t 2 in auto)
  qed (use inv t in \<open>simp add: lock_inv_goto\<close>)
qed

lemma lock_act_inv: "lock_inv s \<Longrightarrow> lock_act c s = Some s' \<Longrightarrow> lock_inv s'"
proof (induction c s rule: lock_act.induct)
  case (3 t p s)
  then show ?case
    by (auto intro!: lock_inv_word simp: is_lock_state_def lock_inv_def split: if_splits)
next
  case (4 t s)
  then show ?case
    by (auto intro!: lock_inv_release simp: lock_act_defs atomic_defs split: if_splits)
qed (auto intro: three_states_lock_inv unlock_wake_inv lock_inv_goto lock_inv_awake
       split: if_splits)

interpretation tri: safe_system lock_act lock_start lock_inv
  by unfold_locales (auto intro: lock_start_inv lock_act_inv)

section \<open>The abstract lock\<close>

text \<open>
  A lock that protects a payload: an owner, and a value only the owner writes. Its actions are what the
  users of a lock see: lock returns, unlock lets go, the holder writes the upper bits.
\<close>

record alock =
  owner :: "tid option"
  guarded :: u32

datatype lock_event = Acquired tid | Released tid | Written tid u32

fun alock_act :: "lock_event \<Rightarrow> alock \<Rightarrow> alock option" where
  "alock_act (Acquired t) a = (if owner a = None then Some (a\<lparr>owner := Some t\<rparr>) else None)"
| "alock_act (Released t) a = (if owner a = Some t then Some (a\<lparr>owner := None\<rparr>) else None)"
| "alock_act (Written t p) a = (if owner a = Some t then Some (a\<lparr>guarded := p\<rparr>) else None)"

text \<open>What of an action is seen: a step of lock only when it is the one that gets the lock.\<close>

definition lock_events :: "lock_sys \<Rightarrow> lock_action \<Rightarrow> lock_event list" where
  "lock_events s c =
     (case c of
        Step t spurious \<Rightarrow>
          (case three_states_lock t spurious s of
             Some s' \<Rightarrow> if lock_pcs s' t = Holding then [Acquired t] else []
           | None \<Rightarrow> [])
      | Set_payload t p \<Rightarrow> [Written t (payload (push_bit 2 p))]
      | Unlock t \<Rightarrow> [Released t]
      | _ \<Rightarrow> [])"

definition lock_rel :: "lock_sys \<Rightarrow> alock \<Rightarrow> bool" where
  "lock_rel s a \<longleftrightarrow>
     (\<forall>t. lock_pcs s t = Holding \<longleftrightarrow> owner a = Some t) \<and> guarded a = payload (lock_word s)"

text \<open>The state after a concrete action is related to the one the abstract lock has after its events.\<close>

definition lock_sim :: "lock_event list \<Rightarrow> alock \<Rightarrow> lock_sys \<Rightarrow> bool" where
  "lock_sim es a s' \<longleftrightarrow> (\<exists>a'. run_sched alock_act es a = Some a' \<and> lock_rel s' a')"

lemma lock_sim_stutter: "lock_rel s' a \<Longrightarrow> lock_sim [] a s'"
  by (simp add: lock_sim_def)

lemma lock_sim_step: "alock_act e a = Some a' \<Longrightarrow> lock_rel s' a' \<Longrightarrow> lock_sim [e] a s'"
  by (simp add: lock_sim_def)

lemma lock_rel_free:
  "lock_rel s a \<Longrightarrow> lock_inv s \<Longrightarrow> State (lock_word s) = three_states_unlocked \<Longrightarrow> owner a = None"
  by (cases "owner a") (auto simp: lock_rel_def lock_inv_def)

lemma lock_rel_goto:
  "lock_rel s a \<Longrightarrow> lock_pcs s t \<noteq> Holding \<Longrightarrow> p \<noteq> Holding \<Longrightarrow> lock_rel (goto t p s) a"
  by (auto simp: lock_rel_def)

lemma lock_rel_sleepers [simp]: "lock_rel (s\<lparr>sleepers := q\<rparr>) a \<longleftrightarrow> lock_rel s a"
  by (simp add: lock_rel_def)

lemma lock_rel_word:
  "lock_rel s a \<Longrightarrow> payload w = payload (lock_word s) \<Longrightarrow> lock_rel (s\<lparr>lock_word := w\<rparr>) a"
  by (simp add: lock_rel_def)

lemma lock_sim_goto:
  "lock_rel s a \<Longrightarrow> lock_pcs s t \<noteq> Holding \<Longrightarrow> p \<noteq> Holding \<Longrightarrow> lock_sim [] a (goto t p s)"
  by (intro lock_sim_stutter lock_rel_goto)

lemma lock_sim_acquire:
  assumes "lock_rel s a" and "lock_inv s" and "State (lock_word s) = three_states_unlocked"
    and "payload w = payload (lock_word s)"
  shows "lock_sim [Acquired t] a (goto t Holding (s\<lparr>lock_word := w\<rparr>))"
proof (rule lock_sim_step)
  from assms have free: "owner a = None" by (auto intro: lock_rel_free)
  then show "alock_act (Acquired t) a = Some (a\<lparr>owner := Some t\<rparr>)" by simp
  from assms free show "lock_rel (goto t Holding (s\<lparr>lock_word := w\<rparr>)) (a\<lparr>owner := Some t\<rparr>)"
    by (auto simp: lock_rel_def)
qed

lemma lock_sim_release:
  assumes "lock_rel s a" and "lock_pcs s t = Holding" and "p \<noteq> Holding"
    and "payload w = payload (lock_word s)"
  shows "lock_sim [Released t] a (goto t p (s\<lparr>lock_word := w\<rparr>))"
  by (rule lock_sim_step [of _ _ "a\<lparr>owner := None\<rparr>"]) (use assms in \<open>auto simp: lock_rel_def\<close>)

lemma payload_set_payload: "payload (set_payload p v) = payload (push_bit 2 p)"
  by (rule bit_word_eqI) (auto simp: set_payload_def bit_field bit_simps)

lemma lock_sim_update:
  assumes "lock_rel s a" and "lock_pcs s t = Holding"
  shows "lock_sim [Written t (payload (push_bit 2 p))] a (s\<lparr>lock_word := set_payload p (lock_word s)\<rparr>)"
  by (rule lock_sim_step [of _ _ "a\<lparr>guarded := payload (push_bit 2 p)\<rparr>"])
     (use assms in \<open>auto simp: lock_rel_def payload_set_payload\<close>)

lemma three_states_lock_sim:
  assumes inv: "lock_inv s" and act: "three_states_lock t sp s = Some s'" and rel: "lock_rel s a"
  shows "lock_sim (if lock_pcs s' t = Holding then [Acquired t] else []) a s'"
proof -
  have "local_ok (lock_pcs s t)" using inv by (rule lock_inv_local)
  with act inv rel show ?thesis
    by (cases "lock_pcs s t")
       (auto simp: lock_act_defs atomic_defs Let_def lock_sim_goto lock_sim_acquire lock_rel_word
             split: if_splits)
qed

lemma lock_act_sim:
  assumes "lock_inv s" and "lock_act c s = Some s'" and "lock_rel s a"
  shows "lock_sim (lock_events s c) a s'"
  using assms
proof (induction c s rule: lock_act.induct)
  case (2 t sp s)
  then have "lock_sim (if lock_pcs s' t = Holding then [Acquired t] else []) a s'"
    by (intro three_states_lock_sim) auto
  with 2 show ?case by (simp add: lock_events_def)
next
  case (3 t p s)
  then show ?case by (auto simp: lock_events_def intro: lock_sim_update split: if_splits)
next
  case (4 t s)
  have "payload (lock_word s AND NOT three_states_mask) = payload (lock_word s)"
    using payload_ClearState by (simp add: ClearState_def)
  with 4 show ?case
    by (auto simp: lock_act_defs atomic_defs lock_events_def intro!: lock_sim_release split: if_splits)
next
  case (5 t u s)
  then show ?case
    by (auto simp: lock_act_defs lock_events_def lock_inv_sleepers lock_sim_goto lock_rel_goto split: if_splits)
qed (auto simp: lock_sim_goto lock_events_def split: if_splits)

interpretation tri_history: history_refinement lock_act lock_start lock_inv lock_events alock_act
  "\<lambda>e. [e]" lock_rel
proof unfold_locales
  fix s c s' a
  assume "lock_inv s" "lock_act c s = Some s'" "lock_rel s a"
  then show "\<exists>ds a'. run_sched alock_act ds a = Some a' \<and> concat (map (\<lambda>e. [e]) ds) = lock_events s c \<and>
      lock_rel s' a'"
    using lock_act_sim unfolding lock_sim_def by (auto simp: concat_map_singleton)
qed

text \<open>Only the holder writes the upper bits.\<close>

lemma lock_act_payload:
  assumes inv: "lock_inv s" and act: "lock_act c s = Some s'"
  shows "payload (lock_word s') = payload (lock_word s) \<or> (\<exists>t p. c = Set_payload t p \<and> lock_pcs s t = Holding)"
proof (cases "\<exists>t p. c = Set_payload t p")
  case True
  with act show ?thesis by (auto split: if_splits)
next
  case False
  note sim = lock_act_sim [OF inv act]
  show ?thesis
  proof (cases c)
    case (Step t sp)
    with act have "three_states_lock t sp s = Some s'" by simp
    then show ?thesis
      by (cases "lock_pcs s t") (auto simp: lock_act_defs atomic_defs Let_def split: if_splits)
  next
    case (Unlock t)
    have "payload (lock_word s AND NOT three_states_mask) = payload (lock_word s)"
      using payload_ClearState by (simp add: ClearState_def)
    with act Unlock show ?thesis by (auto simp: lock_act_defs atomic_defs split: if_splits)
  qed (use act False in \<open>auto simp: lock_act_defs split: if_splits\<close>)
qed

section \<open>Progress\<close>

text \<open>A thread inside lock that is not asleep.\<close>

fun trying :: "lock_pc \<Rightarrow> bool" where
  "trying L_load = True"
| "trying (L_fast e) = True"
| "trying (L_slow e) = True"
| "trying (L_wait e) = True"
| "trying L_reload = True"
| "trying _ = False"

text \<open>Running alone with no spurious failure, \<open>t\<close> has the lock within \<open>n\<close> steps.\<close>

definition solo_acquires :: "nat \<Rightarrow> tid \<Rightarrow> lock_sys \<Rightarrow> bool" where
  "solo_acquires n t s \<longleftrightarrow>
     (\<exists>k\<le>n. \<exists>s'. run_sched lock_act (replicate k (Step t False)) s = Some s' \<and>
        lock_pcs s' t = Holding)"

lemma solo_acquires_step:
  assumes "three_states_lock t False s = Some s'"
    and "lock_pcs s' t = Holding \<or> 0 < n \<and> solo_acquires (n - 1) t s'" and "0 < n"
  shows "solo_acquires n t s"
  using assms(2)
proof
  assume "lock_pcs s' t = Holding"
  with assms(1,3) show ?thesis unfolding solo_acquires_def
    by (intro exI [of _ 1]) simp
next
  assume "0 < n \<and> solo_acquires (n - 1) t s'"
  then obtain k s'' where "k \<le> n - 1"
    "run_sched lock_act (replicate k (Step t False)) s' = Some s''" "lock_pcs s'' t = Holding"
    by (auto simp: solo_acquires_def)
  with assms(1,3) show ?thesis unfolding solo_acquires_def
    by (intro exI [of _ "Suc k"]) auto
qed

lemma solo_acquires_mono: "solo_acquires m t s \<Longrightarrow> m \<le> n \<Longrightarrow> solo_acquires n t s"
  unfolding solo_acquires_def by (meson le_trans)

lemma head_free [simp]:
  assumes "State e = three_states_unlocked"
  shows "fast_head e = L_fast e" and "slow_head e = L_slow e"
  using assms by (simp_all add: fast_head_def slow_head_def)

lemma solo_cas:
  assumes "State (lock_word s) = three_states_unlocked"
    and "lock_pcs s t = L_fast (lock_word s) \<or> lock_pcs s t = L_slow (lock_word s)"
  shows "solo_acquires 1 t s"
  using assms(2)
  by (elim disjE; intro solo_acquires_step)
     (use assms(1) in \<open>auto simp: lock_act_defs atomic_defs Let_def\<close>)

lemma solo_loaded:
  assumes free: "State (lock_word s) = three_states_unlocked"
    and "lock_pcs s t \<in> {L_load, L_reload} \<or> (\<exists>e. lock_pcs s t = L_fast e \<or>
           lock_pcs s t = L_slow e)"
  shows "solo_acquires 2 t s"
proof -
  have "\<exists>s'. three_states_lock t False s = Some s' \<and>
      (lock_pcs s' t = Holding \<or> lock_word s' = lock_word s \<and>
       (lock_pcs s' t = L_fast (lock_word s) \<or> lock_pcs s' t = L_slow (lock_word s)))"
    using assms by (cases "lock_pcs s t") (auto simp: lock_act_defs atomic_defs Let_def)
  then obtain s' where "three_states_lock t False s = Some s'"
    and "lock_pcs s' t = Holding \<or> lock_word s' = lock_word s \<and>
       (lock_pcs s' t = L_fast (lock_word s) \<or> lock_pcs s' t = L_slow (lock_word s))"
    by blast
  then show ?thesis using free solo_cas [of s' t] by (intro solo_acquires_step) auto
qed

lemma solo_trying:
  assumes inv: "lock_inv s" and free: "State (lock_word s) = three_states_unlocked"
    and "trying (lock_pcs s t)"
  shows "solo_acquires 3 t s"
proof (cases "lock_pcs s t")
  case (L_wait e)
  with inv have "local_ok (L_wait e)" using lock_inv_local [of s t] by simp
  with L_wait free have "three_states_lock t False s = Some (goto t L_reload s)"
    by (auto simp: lock_act_defs)
  then show ?thesis by (rule solo_acquires_step) (use free in \<open>auto intro!: solo_loaded\<close>)
qed (use assms in \<open>auto intro!: solo_acquires_mono [OF solo_loaded]\<close>)


section \<open>Wake-ups\<close>

text \<open>
  The one branch of the slow path that goes to sleep without having announced a waiter: the
  exchange failed and the value read by the failure is a lock held with no waiter announced.
\<close>

fun falls_through :: "lock_action \<Rightarrow> lock_sys \<Rightarrow> bool" where
  "falls_through (Step t spurious) s =
     (case lock_pcs s t of
        L_slow expected \<Rightarrow>
          (case atomic_compare_exchange_weak spurious (lock_word s) expected expected of
             (success, expected', _) \<Rightarrow>
               \<not> success \<and> State expected' = three_states_locked_no_waiter)
      | _ \<Rightarrow> False)"
| "falls_through _ s = False"

definition careful_act :: "lock_action \<Rightarrow> lock_sys \<Rightarrow> lock_sys option" where
  "careful_act c s = (if falls_through c s then None else lock_act c s)"

text \<open>A thread that will take the lock in the state that makes its unlock wake somebody.\<close>

fun contender :: "lock_pc \<Rightarrow> bool" where
  "contender (L_slow e) = True"
| "contender L_reload = True"
| "contender (L_wait e) = True"
| "contender _ = False"

definition covered :: "lock_sys \<Rightarrow> bool" where
  "covered s \<longleftrightarrow> sleepers s = [] \<or> State (lock_word s) = three_states_locked_waiters \<or>
     (\<exists>t. lock_pcs s t = U_wake \<or> contender (lock_pcs s t))"

definition careful_inv :: "lock_sys \<Rightarrow> bool" where
  "careful_inv s \<longleftrightarrow> lock_inv s \<and> covered s \<and>
     (\<forall>t e. lock_pcs s t = L_wait e \<longrightarrow> State e = three_states_locked_waiters)"

lemma covered_goto:
  assumes "covered s"
    and "contender p \<or> \<not> contender (lock_pcs s t) \<and> lock_pcs s t \<noteq> U_wake \<or>
         State (lock_word s) = three_states_locked_waiters"
  shows "covered (goto t p s)"
  using assms unfolding covered_def by auto

lemma covered_contender [simp]: "contender p \<Longrightarrow> covered (goto t p s)"
  unfolding covered_def by auto

lemma covered_word:
  assumes "covered s"
    and "State (lock_word s) \<noteq> three_states_locked_waiters \<or>
         State w = three_states_locked_waiters"
  shows "covered (s\<lparr>lock_word := w\<rparr>)"
  using assms unfolding covered_def by auto


lemma covered_sleepers_subset:
  "covered s \<Longrightarrow> (sleepers s = [] \<Longrightarrow> q = []) \<Longrightarrow> covered (s\<lparr>sleepers := q\<rparr>)"
  unfolding covered_def by auto

lemma covered_waiters [simp]:
  "State (lock_word s) = three_states_locked_waiters \<Longrightarrow> covered s"
  unfolding covered_def by simp

text \<open>Where a step leads when it is not the fall-through.\<close>

lemma careful_lock_covered:
  assumes inv: "careful_inv s" and careful: "\<not> falls_through (Step t sp) s"
    and act: "three_states_lock t sp s = Some s'"
  shows "covered s' \<and> (\<forall>e. lock_pcs s' t = L_wait e \<longrightarrow> State e = three_states_locked_waiters)"
proof -
  have word: "is_lock_state (lock_word s)" and "local_ok (lock_pcs s t)" and cov: "covered s"
    and wait: "\<And>e. lock_pcs s t = L_wait e \<Longrightarrow> State e = three_states_locked_waiters"
    using inv by (auto simp: careful_inv_def lock_inv_word_state lock_inv_local)
  then show ?thesis
    using act careful
    by (cases "lock_pcs s t")
       (auto simp: lock_act_defs atomic_defs Let_def fast_head_def slow_head_def is_lock_state_def
             intro!: covered_goto covered_word split: if_splits)
qed

lemma covered_U_wake [simp]: "covered (goto t U_wake s)"
  unfolding covered_def by auto

lemma careful_act_inv:
  assumes inv: "careful_inv s" and act: "careful_act c s = Some s'"
  shows "careful_inv s'"
proof -
  have step: "lock_act c s = Some s'" and careful: "\<not> falls_through c s"
    using act by (auto simp: careful_act_def split: if_splits)
  from inv have lock: "lock_inv s" and cov: "covered s"
    and wait: "\<And>t e. lock_pcs s t = L_wait e \<Longrightarrow> State e = three_states_locked_waiters"
    by (auto simp: careful_inv_def)
  have "covered s' \<and> (\<forall>t e. lock_pcs s' t = L_wait e \<longrightarrow> State e = three_states_locked_waiters)"
  proof (cases c)
    case (Step t sp)
    with step careful inv have t: "covered s' \<and>
        (\<forall>e. lock_pcs s' t = L_wait e \<longrightarrow> State e = three_states_locked_waiters)"
      by (auto dest: careful_lock_covered)
    have "lock_pcs s' u = lock_pcs s u" if "u \<noteq> t" for u
      using step that Step
      by (cases "lock_pcs s t") (auto simp: lock_act_defs atomic_defs Let_def split: if_splits)
    with t wait show ?thesis by metis
  next
    case (Unlock t)
    let ?s = "s\<lparr>lock_word := lock_word s AND NOT three_states_mask\<rparr>"
    from Unlock step consider "s' = goto t U_wake ?s"
      | "State (lock_word s) \<noteq> three_states_locked_waiters" "lock_pcs s t = Holding"
        "s' = goto t Outside ?s"
      by (auto simp: lock_act_defs atomic_defs split: if_splits)
    then show ?thesis
    proof cases
      case 1
      with wait show ?thesis by auto
    next
      case 2
      with cov wait show ?thesis by (auto intro!: covered_goto covered_word)
    qed
  next
    case (Wake t u)
    with step show ?thesis using cov wait lock_inv_sleepers [OF lock, of u]
      by (auto simp: lock_act_defs covered_def split: if_splits)
  qed (use step cov wait in \<open>auto intro: covered_goto covered_word
         split: if_splits\<close>)
  with act inv lock step show ?thesis
    by (auto simp: careful_inv_def intro: lock_act_inv)
qed

interpretation careful: safe_system careful_act lock_start careful_inv
proof unfold_locales
  show "lock_start s \<Longrightarrow> careful_inv s" for s
    using lock_start_inv by (auto simp: careful_inv_def lock_start_def covered_def)
qed (rule careful_act_inv)


section \<open>Properties\<close>

text \<open>C1: in every reachable state the lock word's state is one of the three, it is
  \<open>unlocked\<close> exactly when no thread holds the lock, and at most one thread holds it: mutual
  exclusion of \<^verbatim>\<open>three_states_lock\<close>, for any number of threads, any kernel and any spurious
  failure of the weak compare-exchanges. No action changes the upper bits of the word, which belong to
  the user of the lock, but the one with which the holder writes them itself, and this one leaves the
  state alone.\<close>

theorem three_states_mutual_exclusion:
  assumes "reachable lock_act lock_start s"
  shows "State (lock_word s) \<in> {three_states_unlocked, three_states_locked_no_waiter,
           three_states_locked_waiters} \<and>
         (State (lock_word s) = three_states_unlocked \<longleftrightarrow> (\<nexists>t. lock_pcs s t = Holding)) \<and>
         (\<exists>\<^sub>\<le>\<^sub>1 t. lock_pcs s t = Holding) \<and>
         (\<forall>c s'. lock_act c s = Some s' \<longrightarrow>
            (if \<exists>t p. c = Set_payload t p \<and> lock_pcs s t = Holding
             then State (lock_word s') = State (lock_word s)
             else payload (lock_word s') = payload (lock_word s)))"
proof -
  have inv: "lock_inv s" by (rule tri.reachable_inv [OF assms])
  have "if \<exists>t p. c = Set_payload t p \<and> lock_pcs s t = Holding
      then State (lock_word s') = State (lock_word s)
      else payload (lock_word s') = payload (lock_word s)" if act: "lock_act c s = Some s'" for c s'
    using lock_act_payload [OF inv act] act by auto
  moreover have "State (lock_word s) \<in> {three_states_unlocked, three_states_locked_no_waiter,
      three_states_locked_waiters}" "State (lock_word s) = three_states_unlocked \<longleftrightarrow> (\<nexists>t. lock_pcs s t = Holding)"
    "\<exists>\<^sub>\<le>\<^sub>1 t. lock_pcs s t = Holding"
    using inv by (auto simp: lock_inv_def is_lock_state_def Uniq_def)
  ultimately show ?thesis by blast
qed

text \<open>A contended run: thread 1 takes the lock, thread 0 announces itself and sleeps.\<close>

definition contended_sched :: "lock_action list" where
  "contended_sched =
     [Call 1, Step 1 False, Step 1 False,
      Call 0, Step 0 False, Step 0 False, Step 0 False]"

lemma lock_start_init: "lock_start (lock_init p)"
proof -
  have "State (push_bit 2 p) = three_states_unlocked"
    by (intro bit_word_eqI) (auto simp: bit_simps bit_field)
  then show ?thesis by (simp add: lock_start_def lock_init_def)
qed

lemma lock_run_reachable:
  "run_sched lock_act cs (lock_init p) = Some s \<Longrightarrow> reachable lock_act lock_start s"
  using lock_start_init by (rule run_sched_from_init)

lemmas lock_eval = lock_act_defs atomic_defs slow_head_def fast_head_def State_def ClearState_def
  three_states_defs goto_def lock_init_def

lemma contended_run:
  "run_sched lock_act contended_sched (lock_init 5) =
     Some \<lparr>lock_word = 22, lock_pcs = (\<lambda>_. Outside)(1 := Holding, 0 := L_blocked),
           sleepers = [0]\<rparr>"
  by (simp add: contended_sched_def lock_eval fun_upd_twist)

theorem three_states_mutual_exclusion_witness:
  "\<exists>s s'. run_sched lock_act contended_sched (lock_init 5) = Some s \<and> lock_pcs s 1 = Holding \<and>
     State (lock_word s) = three_states_locked_waiters \<and> (\<exists>\<^sub>\<le>\<^sub>1 t. lock_pcs s t = Holding) \<and>
     lock_act (Unlock 1) s = Some s' \<and> payload (lock_word s') = payload (lock_word s)"
proof -
  let ?s = "\<lparr>lock_word = 22, lock_pcs = (\<lambda>_. Outside)(1 := Holding, 0 := L_blocked), sleepers = [0]\<rparr>"
  note facts = three_states_mutual_exclusion [OF lock_run_reachable [OF contended_run]]
  obtain s' where s': "lock_act (Unlock 1) ?s = Some s'" by (auto simp: lock_act_defs atomic_defs)
  moreover have "lock_act (Unlock 1) ?s = Some s' \<longrightarrow> payload (lock_word s') = payload (lock_word ?s)"
    using facts [THEN conjunct2, THEN conjunct2, THEN conjunct2, THEN spec [of _ "Unlock 1"], THEN spec [of _ s']]
    by simp
  ultimately show ?thesis using facts
    by (intro exI [of _ ?s] exI [of _ s']) (simp add: contended_run State_def three_states_defs)
qed

text \<open>C19: the lock refines an abstract lock with an owner and a payload. For every execution the
  history of what its users see, the returns of \<^verbatim>\<open>three_states_lock\<close>, the unlocks and the holder's
  writes of the upper bits, is one the abstract lock can execute from the free state and the same
  payload: lock returns only to a thread that finds the lock free, only the owner unlocks and
  writes. At its end the owner is the thread that holds the lock, and the payload the abstract lock
  has been given is the upper 30 bits of the word.\<close>

theorem three_states_lock_refines_abstract_lock:
  assumes "lock_start s0" and "run_sched lock_act cs s0 = Some s"
  shows "\<exists>a. run_sched alock_act (history lock_act lock_events cs s0)
      \<lparr>owner = None, guarded = payload (lock_word s0)\<rparr> = Some a \<and>
    (\<forall>t. lock_pcs s t = Holding \<longleftrightarrow> owner a = Some t) \<and> payload (lock_word s) = guarded a"
proof -
  have "lock_rel s0 \<lparr>owner = None, guarded = payload (lock_word s0)\<rparr>"
    using assms(1) by (simp add: lock_rel_def lock_start_def)
  from tri_history.run_matched [OF tri.init_inv [OF assms(1)] this assms(2)]
  show ?thesis by (auto simp: concat_map_singleton lock_rel_def)
qed

definition written_sched :: "lock_action list" where
  "written_sched = contended_sched @ [Set_payload 1 9, Unlock 1]"

lemma written_history:
  "history lock_act lock_events written_sched (lock_init 5) = [Acquired 1, Written 1 9, Released 1]"
  "run_sched lock_act written_sched (lock_init 5) \<noteq> None"
  by code_simp+

theorem three_states_lock_refines_abstract_lock_witness:
  "\<exists>s a. run_sched lock_act written_sched (lock_init 5) = Some s \<and>
     run_sched alock_act [Acquired 1, Written 1 9, Released 1]
       \<lparr>owner = None, guarded = payload (lock_word (lock_init 5))\<rparr> = Some a \<and>
     payload (lock_word s) = guarded a \<and> guarded a = 9"
proof -
  from written_history(2) obtain s where s: "run_sched lock_act written_sched (lock_init 5) = Some s" by blast
  from three_states_lock_refines_abstract_lock [OF lock_start_init s] s show ?thesis
    unfolding written_history(1) by auto
qed

text \<open>C31: obstruction freedom of \<^verbatim>\<open>three_states_lock\<close>. When the lock is free, any thread inside
  the function that is not asleep in the kernel holds the lock after at most three of its own
  steps, if it runs alone and its compare-exchanges do not fail spuriously, whatever value it has
  read before.\<close>

theorem three_states_lock_obstruction_free:
  assumes "reachable lock_act lock_start s"
    and "State (lock_word s) = three_states_unlocked" and "trying (lock_pcs s t)"
  shows "\<exists>k\<le>3. \<exists>s'. run_sched lock_act (replicate k (Step t False)) s = Some s' \<and>
           lock_pcs s' t = Holding"
  using solo_trying [OF tri.reachable_inv [OF assms(1)] assms(2,3)]
  by (simp add: solo_acquires_def)

text \<open>Thread 0 is about to sleep on a value that is stale by the time the lock is free.\<close>

definition stale_sched :: "lock_action list" where
  "stale_sched =
     [Call 1, Step 1 False, Step 1 False, Call 0, Step 0 False, Step 0 False, Unlock 1]"

lemma stale_run:
  "run_sched lock_act stale_sched (lock_init 5) =
     Some \<lparr>lock_word = 20, lock_pcs = (\<lambda>_. Outside)(1 := U_wake, 0 := L_wait 22), sleepers = []\<rparr>"
  by (simp add: stale_sched_def lock_eval fun_upd_twist)

theorem three_states_lock_obstruction_free_witness:
  "\<exists>s. run_sched lock_act stale_sched (lock_init 5) = Some s \<and> lock_pcs s 0 = L_wait 22 \<and>
     (\<exists>k\<le>3. \<exists>s'. run_sched lock_act (replicate k (Step 0 False)) s = Some s' \<and>
        lock_pcs s' 0 = Holding)"
  using three_states_lock_obstruction_free [OF lock_run_reachable [OF stale_run], of 0]
  by (simp add: stale_run State_def three_states_defs)

text \<open>A schedule with a failed exchange that falls through to the wait.\<close>

definition lost_wakeup_sched :: "lock_action list" where
  "lost_wakeup_sched =
     [Call 1, Step 1 False, Step 1 False,      \<comment> \<open>1 holds the lock: word 1\<close>
      Call 0, Step 0 False,                    \<comment> \<open>0 reads 1\<close>
      Unlock 1,                                \<comment> \<open>word 0\<close>
      Step 0 False,                            \<comment> \<open>0's exchange 1 to 2 fails, reads 0\<close>
      Call 1, Step 1 False, Step 1 False,      \<comment> \<open>1 holds the lock again: word 1\<close>
      Step 0 False,                            \<comment> \<open>0's exchange 0 to 2 fails, reads 1\<close>
      Step 0 False,                            \<comment> \<open>0 sleeps on 1\<close>
      Unlock 1]                                \<comment> \<open>word was 1: no wake-up\<close>"

text \<open>C28: a lost wake-up. The schedule \<open>lost_wakeup_sched\<close> uses no spurious failure and no spurious
  return from the kernel, and ends with the lock free, nobody about to wake anybody, and thread 0
  asleep for ever: its second exchange failed because thread 1 took the lock again, and it went to
  sleep on the value it had just read, which announces no waiter.\<close>

theorem three_states_lock_loses_wakeup:
  "\<exists>s. run_sched lock_act lost_wakeup_sched (lock_init 0) = Some s \<and>
     State (lock_word s) = three_states_unlocked \<and>
     sleepers s = [0] \<and> lock_pcs s = (\<lambda>_. Outside)(0 := L_blocked)"
  by (simp add: lost_wakeup_sched_def lock_eval fun_upd_twist) (rule ext, simp)

text \<open>C27: the fall-through to the wait is the only cause of a lost wake-up. In every execution
  whose failed exchanges of the slow path do not fall through to the wait with an unannounced value,
  whenever there is a sleeper, the word announces a waiter, so that the holder's unlock will wake,
  or some thread is about to call \<^verbatim>\<open>FUTEX_WAKE\<close>, or is awake inside the slow path and will take the
  lock in the state that makes its unlock wake the next one. No sleeper is left on a lock held
  without waiters or on a free lock without such a thread.\<close>

theorem three_states_lock_covers_sleepers:
  assumes "reachable careful_act lock_start s" and "sleepers s \<noteq> []"
  shows "State (lock_word s) = three_states_locked_waiters \<or>
    (\<exists>t. lock_pcs s t = U_wake \<or> contender (lock_pcs s t))"
  using careful.reachable_inv [OF assms(1)] assms(2)
  by (auto simp: careful_inv_def covered_def)

lemma covered_run:
  "run_sched careful_act (contended_sched @ [Unlock 1]) (lock_init 5) =
     Some \<lparr>lock_word = 20, lock_pcs = (\<lambda>_. Outside)(1 := U_wake, 0 := L_blocked),
           sleepers = [0]\<rparr>"
  by (simp add: contended_sched_def careful_act_def lock_eval fun_upd_twist)

theorem three_states_lock_covers_sleepers_witness:
  "\<exists>s. run_sched careful_act (contended_sched @ [Unlock 1]) (lock_init 5) = Some s \<and>
     sleepers s = [0] \<and> (\<exists>t. lock_pcs s t = U_wake \<or> contender (lock_pcs s t))"
  using three_states_lock_covers_sleepers
          [OF run_sched_from_init [of lock_start, OF lock_start_init covered_run]]
  by (simp only: covered_run option.inject) (simp add: State_def three_states_defs)

end
