(* ===== verification/Pthread_Mutex.thy ===== *)
theory Pthread_Mutex
  imports Tri_Lock
begin

text \<open>
  \<^verbatim>\<open>nptl/pthread_mutex.h\<close>: a mutex is a three-state lock whose upper bits stay zero. The
  threads that use it are those of the lock.
\<close>

record pthread_mutex_t =
  m_lock :: u32

definition pthread_mutex_init :: "pthread_mutex_t \<Rightarrow> pthread_mutex_t" where
  "pthread_mutex_init m = m\<lparr>m_lock := three_states_unlocked\<rparr>"

text \<open>
  \<^verbatim>\<open>pthread_mutex_trylock\<close> expects the whole word to be zero, not only its state; the result
  is that of the exchange.
\<close>

definition pthread_mutex_trylock :: "pthread_mutex_t \<Rightarrow> int \<times> pthread_mutex_t" where
  "pthread_mutex_trylock m =
     (let s = three_states_unlocked;
          (ok, _, w) = atomic_compare_exchange_strong (m_lock m) s three_states_locked_no_waiter
      in (if ok then 1 else 0, m\<lparr>m_lock := w\<rparr>))"

text \<open>
  Threads that share one mutex: \<^verbatim>\<open>pthread_mutex_lock\<close> and \<^verbatim>\<open>pthread_mutex_unlock\<close> are the
  operations of the three-state lock on \<^verbatim>\<open>m_lock\<close>, and nobody writes the upper bits. A failed
  trylock returns without having changed anything.
\<close>

datatype mutex_action =
    Lock_step lock_action
  | Try_lock tid

definition mutex_trylock_step :: "tid \<Rightarrow> lock_sys \<Rightarrow> lock_sys option" where
  "mutex_trylock_step t s =
     (if lock_pcs s t = Outside
      then case pthread_mutex_trylock \<lparr>m_lock = lock_word s\<rparr> of
             (ret, m) \<Rightarrow> Some (goto t (if ret = 0 then Outside else Holding)
                                (s\<lparr>lock_word := m_lock m\<rparr>))
      else None)"

fun mutex_act :: "mutex_action \<Rightarrow> lock_sys \<Rightarrow> lock_sys option" where
  "mutex_act (Lock_step (Set_payload t p)) s = None"
| "mutex_act (Lock_step c) s = lock_act c s"
| "mutex_act (Try_lock t) s = mutex_trylock_step t s"

definition mutex_start :: "lock_sys \<Rightarrow> bool" where
  "mutex_start s \<longleftrightarrow> lock_start s \<and>
     lock_word s = m_lock (pthread_mutex_init \<lparr>m_lock = lock_word s\<rparr>)"

definition mutex_inv :: "lock_sys \<Rightarrow> bool" where
  "mutex_inv s \<longleftrightarrow> lock_inv s \<and> payload (lock_word s) = 0"

text \<open>An action of the lock that does not write the payload keeps it.\<close>

lemma mutex_word_unlocked:
  assumes "payload w = 0"
  shows "State w = three_states_unlocked \<longleftrightarrow> w = three_states_unlocked"
  using word_fields_eq_iff [of w three_states_unlocked] assms
  by (auto simp: State_def three_states_defs payload_def)

lemma mutex_trylock_inv:
  assumes inv: "mutex_inv s" and act: "mutex_trylock_step t s = Some s'"
  shows "mutex_inv s'"
proof -
  have one: "State three_states_locked_no_waiter = three_states_locked_no_waiter"
    "payload three_states_locked_no_waiter = 0"
    by (simp_all add: State_def three_states_defs payload_def)
  from act consider "lock_pcs s t = Outside" "lock_word s = three_states_unlocked"
      "s' = goto t Holding (s\<lparr>lock_word := three_states_locked_no_waiter\<rparr>)"
    | "lock_pcs s t = Outside" "s' = goto t Outside s"
    by (auto simp: mutex_trylock_step_def pthread_mutex_trylock_def atomic_defs Let_def
             split: if_splits)
  then show ?thesis
  proof cases
    case 1
    then have "State (lock_word s) = three_states_unlocked"
      by (simp add: State_def three_states_defs)
    with 1 inv one show ?thesis
      by (simp add: mutex_inv_def lock_inv_acquire is_lock_state_def)
  next
    case 2
    with inv show ?thesis by (simp add: mutex_inv_def lock_inv_goto)
  qed
qed

interpretation mutex: safe_system mutex_act mutex_start mutex_inv
proof unfold_locales
  show "mutex_start s \<Longrightarrow> mutex_inv s" for s
    using lock_start_inv
    by (auto simp: mutex_start_def mutex_inv_def pthread_mutex_init_def payload_def
             three_states_unlocked_def)
next
  fix s c s' assume inv: "mutex_inv s" and act: "mutex_act c s = Some s'"
  show "mutex_inv s'"
  proof (cases c)
    case (Lock_step lc)
    with act have step: "lock_act lc s = Some s'" and "\<And>t p. lc \<noteq> Set_payload t p"
      by (cases lc; simp)+
    with inv lock_act_payload [of s lc s'] have "payload (lock_word s') = payload (lock_word s)"
      by (auto simp: mutex_inv_def)
    with inv step show ?thesis by (auto simp: mutex_inv_def intro: lock_act_inv)
  next
    case (Try_lock t)
    with act inv show ?thesis by (simp add: mutex_trylock_inv)
  qed
qed

section \<open>Properties\<close>

text \<open>C30: a mutex is held by at most one thread and its word is one of the three states with
  nothing above them, however the threads mix lock, trylock and unlock; \<^verbatim>\<open>pthread_mutex_trylock\<close>
  called in a reachable state returns 1 exactly when no thread holds the mutex, and then the
  caller holds it, and 0 leaves everything as it was.\<close>

theorem pthread_mutex_correct:
  assumes "reachable mutex_act mutex_start s" and "lock_pcs s t = Outside"
  shows "lock_word s \<in> {three_states_unlocked, three_states_locked_no_waiter,
           three_states_locked_waiters} \<and> (\<exists>\<^sub>\<le>\<^sub>1 u. lock_pcs s u = Holding) \<and>
         (\<exists>s'. mutex_act (Try_lock t) s = Some s' \<and>
            (if \<exists>u. lock_pcs s u = Holding then s' = s
             else lock_pcs s' t = Holding \<and> State (lock_word s') = three_states_locked_no_waiter))"
proof -
  from mutex.reachable_inv [OF assms(1)] have inv: "lock_inv s" and pay: "payload (lock_word s) = 0"
    by (simp_all add: mutex_inv_def)
  have state: "State w = w" if "w \<in> {three_states_unlocked, three_states_locked_no_waiter,
      three_states_locked_waiters}" for w
    using that by (auto simp: State_def three_states_defs)
  have "payload w = 0" if "w \<in> {three_states_unlocked, three_states_locked_no_waiter,
      three_states_locked_waiters}" for w
    using that by (auto simp: payload_def three_states_defs)
  then have word: "lock_word s = State (lock_word s)"
    using inv pay state word_fields_eq_iff lock_inv_word_state [OF inv]
    by (metis is_lock_state_def)
  have free: "(\<exists>u. lock_pcs s u = Holding) \<longleftrightarrow> lock_word s \<noteq> three_states_unlocked"
    using inv word by (auto simp: lock_inv_def)
  have "goto t Outside (s\<lparr>lock_word := lock_word s\<rparr>) = s"
    using assms(2) by (simp add: goto_def fun_upd_idem)
  then show ?thesis
    using assms(2) inv word free lock_inv_word_state [OF inv]
    by (auto simp: mutex_trylock_step_def pthread_mutex_trylock_def atomic_defs Let_def
             is_lock_state_def lock_inv_def Uniq_def state)
qed

lemma mutex_start_0: "mutex_start (lock_init 0)"
  using lock_start_init [of 0]
  by (simp add: mutex_start_def pthread_mutex_init_def lock_init_def three_states_unlocked_def)

text \<open>Thread 1 holds the mutex by a trylock, thread 0 is in the slow path of lock.\<close>

definition mutex_example :: lock_sys where
  "mutex_example =
     \<lparr>lock_word = 1, lock_pcs = (\<lambda>_. Outside)(1 := Holding, 0 := L_slow 1), sleepers = []\<rparr>"

lemma mutex_example_reachable: "reachable mutex_act mutex_start mutex_example"
proof (rule run_sched_from_init [where init = mutex_start, OF mutex_start_0])
  show "run_sched mutex_act [Try_lock 1, Lock_step (Call 0), Lock_step (Step 0 False)]
      (lock_init 0) = Some mutex_example"
    by (simp add: mutex_trylock_step_def pthread_mutex_trylock_def lock_eval mutex_example_def
          fun_upd_twist)
qed

theorem pthread_mutex_correct_witness:
  "reachable mutex_act mutex_start mutex_example \<and> lock_pcs mutex_example 1 = Holding \<and>
   (\<exists>\<^sub>\<le>\<^sub>1 u. lock_pcs mutex_example u = Holding) \<and>
   mutex_act (Try_lock 2) mutex_example = Some mutex_example"
proof -
  have "lock_pcs mutex_example 2 = Outside" and one: "lock_pcs mutex_example 1 = Holding"
    by (simp_all add: mutex_example_def)
  from one have held: "(\<exists>u. lock_pcs mutex_example u = Holding) = True" by blast
  from pthread_mutex_correct [OF mutex_example_reachable \<open>lock_pcs mutex_example 2 = Outside\<close>]
  have "\<exists>\<^sub>\<le>\<^sub>1 u. lock_pcs mutex_example u = Holding"
    and "mutex_act (Try_lock 2) mutex_example = Some mutex_example"
    unfolding held by auto
  with mutex_example_reachable one show ?thesis by blast
qed

end
