(* ===== verification/K_Sched.thy ===== *)
theory K_Sched
  imports Atomics
begin

text \<open>
  \<^verbatim>\<open>kernel/k_sched.h\<close>: what the kernel takes from nobody else. Its atomic macros are defined over
  the same compiler builtins as those of \<^verbatim>\<open>nptl/atomic.h\<close>, so each is the operation of \<open>Atomics\<close>
  with its memory order. The private lock and condition variable of a task are empty stand-ins: a
  structure with one unused field, and operations that leave it as it is. An operation takes the
  structures its pointers point to and returns them as it leaves them.
\<close>

section \<open>Atomic macros\<close>

definition k_load_relaxed :: "'w::len word \<Rightarrow> 'w word" where
  "k_load_relaxed p = atomic_load p"

definition k_load_acquire :: "'w::len word \<Rightarrow> 'w word" where
  "k_load_acquire p = atomic_load p"

definition k_store_release :: "'w::len word \<Rightarrow> 'w word \<Rightarrow> 'w word" where
  "k_store_release p val = atomic_store p val"

definition k_fetch_add_relaxed :: "'w::len word \<Rightarrow> 'w word \<Rightarrow> 'w word \<times> 'w word" where
  "k_fetch_add_relaxed p val = atomic_fetch_add p val"

definition k_fetch_sub_relaxed :: "'w::len word \<Rightarrow> 'w word \<Rightarrow> 'w word \<times> 'w word" where
  "k_fetch_sub_relaxed p val = atomic_fetch_sub p val"

text \<open>The fourth argument of the builtin is 1: the weak form, which may fail spuriously.\<close>

definition k_compare_exchange_weak_acquire ::
  "bool \<Rightarrow> 'w::len word \<Rightarrow> 'w word \<Rightarrow> 'w word \<Rightarrow> bool \<times> 'w word \<times> 'w word" where
  "k_compare_exchange_weak_acquire spurious p expected desired =
     atomic_compare_exchange_weak spurious p expected desired"

text \<open>All but the last read as the value they compute.\<close>

lemma k_atomic_eqs [simp]:
  "k_load_relaxed p = p" "k_load_acquire p = p" "k_store_release p val = val"
  "k_fetch_add_relaxed p val = (p, p + val)" "k_fetch_sub_relaxed p val = (p, p - val)"
  "k_compare_exchange_weak_acquire = atomic_compare_exchange_weak"
  by (simp_all add: k_load_relaxed_def k_load_acquire_def k_store_release_def
      k_fetch_add_relaxed_def k_fetch_sub_relaxed_def fun_eq_iff k_compare_exchange_weak_acquire_def
      atomic_defs)

section \<open>The stand-ins of the scheduler\<close>

record k_mutex_t =
  k_mutex_dummy :: u32

record k_cond_t =
  k_cond_dummy :: u32

definition k_mutex_init :: "k_mutex_t \<Rightarrow> k_mutex_t" where "k_mutex_init m = m"
definition k_mutex_lock :: "k_mutex_t \<Rightarrow> k_mutex_t" where "k_mutex_lock m = m"
definition k_mutex_unlock :: "k_mutex_t \<Rightarrow> k_mutex_t" where "k_mutex_unlock m = m"
definition k_mutex_destroy :: "k_mutex_t \<Rightarrow> k_mutex_t" where "k_mutex_destroy m = m"

definition k_cond_init :: "k_cond_t \<Rightarrow> k_cond_t" where "k_cond_init c = c"

definition k_cond_wait :: "k_cond_t \<Rightarrow> k_mutex_t \<Rightarrow> k_cond_t \<times> k_mutex_t" where
  "k_cond_wait c m = (c, m)"

definition k_cond_signal :: "k_cond_t \<Rightarrow> k_cond_t" where "k_cond_signal c = c"
definition k_cond_destroy :: "k_cond_t \<Rightarrow> k_cond_t" where "k_cond_destroy c = c"

lemmas k_stub_defs [simp] = k_mutex_init_def k_mutex_lock_def k_mutex_unlock_def
  k_mutex_destroy_def k_cond_init_def k_cond_wait_def k_cond_signal_def k_cond_destroy_def

end
