(* ===== verification/Kernel_Heap.thy ===== *)
theory Kernel_Heap
  imports K_Sched
begin

text \<open>
  \<^verbatim>\<open>kernel/k_futex.h\<close>, the data: tasks, wait nodes linked through their \<^verbatim>\<open>next\<close> pointers, hash
  buckets, and the operations on them that \<^verbatim>\<open>kernel_futex_wait\<close> and \<^verbatim>\<open>kernel_futex_wake\<close> make
  with the bucket lock held. A \<^verbatim>\<open>futex_q\<close> lives on the stack of the thread that waits, so the
  thread's number is its address. The private lock and condition variable of a task are the empty
  stand-ins of \<^verbatim>\<open>kernel/k_sched.h\<close>; they are called where the code calls them and change nothing.
\<close>

section \<open>Data\<close>

datatype task_state = TASK_RUNNING | TASK_INTERRUPTIBLE

record task_struct =
  task_state :: task_state
  wake_pending :: bool
  wake_lock :: k_mutex_t
  wake_cv :: k_cond_t

type_synonym addr = u64

record futex_q =
  q_next :: "tid option"
  q_uaddr :: addr
  q_lock_ptr :: "nat option"
  q_task :: task_struct

record futex_hash_bucket =
  hb_lock :: u32
  hb_chain :: "tid option"
  hb_waiters :: u32

text \<open>The memory the kernel works on: the buckets, the nodes, and the words of userspace.\<close>

record kernel =
  buckets :: "nat \<Rightarrow> futex_hash_bucket"
  futex_qs :: "tid \<Rightarrow> futex_q"
  user_mem :: "addr \<Rightarrow> u32"

definition N_BUCKETS :: nat where "N_BUCKETS = 16"

definition hash_futex :: "addr \<Rightarrow> nat" where
  "hash_futex uaddr = unat (drop_bit 2 uaddr) mod N_BUCKETS"

definition set_bucket :: "nat \<Rightarrow> (futex_hash_bucket \<Rightarrow> futex_hash_bucket) \<Rightarrow> kernel \<Rightarrow> kernel" where
  "set_bucket b f k = k\<lparr>buckets := (buckets k)(b := f (buckets k b))\<rparr>"

definition set_q :: "tid \<Rightarrow> (futex_q \<Rightarrow> futex_q) \<Rightarrow> kernel \<Rightarrow> kernel" where
  "set_q q f k = k\<lparr>futex_qs := (futex_qs k)(q := f (futex_qs k q))\<rparr>"

section \<open>Scheduler entry points\<close>

definition set_current_state :: "task_struct \<Rightarrow> task_state \<Rightarrow> task_struct" where
  "set_current_state t st = t\<lparr>task_state := st\<rparr>"

definition wake_up_process :: "task_struct \<Rightarrow> task_struct" where
  "wake_up_process t =
     (let t = t\<lparr>wake_lock := k_mutex_lock (wake_lock t)\<rparr>;
          t = t\<lparr>wake_pending := True\<rparr>;
          t = t\<lparr>wake_cv := k_cond_signal (wake_cv t)\<rparr>
      in t\<lparr>wake_lock := k_mutex_unlock (wake_lock t)\<rparr>)"

text \<open>
  \<^verbatim>\<open>schedule\<close> with the wake-up delivered, and None while it is not: then the loop goes on waiting.
  One round of the loop calls the empty \<^verbatim>\<open>k_cond_wait\<close> and looks again.
\<close>

definition schedule :: "task_struct \<Rightarrow> task_struct option" where
  "schedule t =
     (let t = t\<lparr>wake_lock := k_mutex_lock (wake_lock t)\<rparr> in
      if wake_pending t
      then let t = t\<lparr>wake_pending := False, task_state := TASK_RUNNING\<rparr>
           in Some (t\<lparr>wake_lock := k_mutex_unlock (wake_lock t)\<rparr>)
      else None)"

definition schedule_wait :: "task_struct \<Rightarrow> task_struct" where
  "schedule_wait t =
     (case k_cond_wait (wake_cv t) (wake_lock t) of (c, m) \<Rightarrow> t\<lparr>wake_cv := c, wake_lock := m\<rparr>)"

lemma wake_up_process_eq: "wake_up_process t = t\<lparr>wake_pending := True\<rparr>"
  by (simp add: wake_up_process_def Let_def)

lemma schedule_eq: "schedule t =
    (if wake_pending t then Some (t\<lparr>wake_pending := False, task_state := TASK_RUNNING\<rparr>) else None)"
  by (simp add: schedule_def Let_def)

lemma schedule_wait_eq [simp]: "schedule_wait t = t"
  by (simp add: schedule_wait_def)

section \<open>The bucket lock\<close>

definition spin_lock :: "bool \<Rightarrow> u32 \<Rightarrow> u32 option" where
  "spin_lock spurious l =
     (case k_compare_exchange_weak_acquire spurious l 0 1 of
        (True, _, l') \<Rightarrow> Some l' | (False, _, _) \<Rightarrow> None)"

definition spin_unlock :: "u32 \<Rightarrow> u32" where
  "spin_unlock l = k_store_release l 0"

section \<open>Queueing a waiter\<close>

text \<open>
  The node \<^verbatim>\<open>kernel_futex_wait\<close> builds before it takes the lock, from whatever the stack held; and
  what it does with the node before it returns.
\<close>

definition futex_q_init :: "addr \<Rightarrow> futex_q \<Rightarrow> futex_q" where
  "futex_q_init a n =
     (let t = q_task n in
      n\<lparr>q_uaddr := a, q_next := None, q_lock_ptr := None,
        q_task := t\<lparr>task_state := TASK_RUNNING, wake_pending := False,
                    wake_lock := k_mutex_init (wake_lock t), wake_cv := k_cond_init (wake_cv t)\<rparr>\<rparr>)"

definition futex_q_release :: "futex_q \<Rightarrow> futex_q" where
  "futex_q_release n =
     (let t = q_task n in
      n\<lparr>q_task := t\<lparr>wake_cv := k_cond_destroy (wake_cv t), wake_lock := k_mutex_destroy (wake_lock t)\<rparr>\<rparr>)"

lemma futex_q_init_fields [simp]:
  "q_uaddr (futex_q_init a n) = a" "q_next (futex_q_init a n) = None"
  "q_lock_ptr (futex_q_init a n) = None"
  "task_state (q_task (futex_q_init a n)) = TASK_RUNNING"
  "\<not> wake_pending (q_task (futex_q_init a n))"
  by (simp_all add: futex_q_init_def Let_def)

lemma futex_q_release_eq [simp]: "futex_q_release n = n"
  by (simp add: futex_q_release_def Let_def)

text \<open>Step 3 of \<^verbatim>\<open>kernel_futex_wait\<close>, but for the waiter count, which is bumped after it.\<close>

definition enqueue :: "nat \<Rightarrow> tid \<Rightarrow> kernel \<Rightarrow> kernel" where
  "enqueue b q k =
     set_bucket b (\<lambda>hb. hb\<lparr>hb_chain := Some q\<rparr>)
       (set_q q (\<lambda>n. n\<lparr>q_lock_ptr := Some b,
                        q_task := set_current_state (q_task n) TASK_INTERRUPTIBLE,
                        q_next := hb_chain (buckets k b)\<rparr>) k)"

definition waiters_inc :: "nat \<Rightarrow> kernel \<Rightarrow> kernel" where
  "waiters_inc b = set_bucket b (\<lambda>hb. hb\<lparr>hb_waiters := snd (k_fetch_add_relaxed (hb_waiters hb) 1)\<rparr>)"

definition waiters_dec :: "nat \<Rightarrow> kernel \<Rightarrow> kernel" where
  "waiters_dec b = set_bucket b (\<lambda>hb. hb\<lparr>hb_waiters := snd (k_fetch_sub_relaxed (hb_waiters hb) 1)\<rparr>)"

section \<open>The walk of \<^verbatim>\<open>kernel_futex_wake\<close>\<close>

text \<open>What \<^verbatim>\<open>pp\<close> can point to: the chain field of a bucket or the next field of a node.\<close>

datatype link = Chain_of nat | Next_of tid

fun deref :: "kernel \<Rightarrow> link \<Rightarrow> tid option" where
  "deref k (Chain_of b) = hb_chain (buckets k b)"
| "deref k (Next_of q) = q_next (futex_qs k q)"

fun assign :: "link \<Rightarrow> tid option \<Rightarrow> kernel \<Rightarrow> kernel" where
  "assign (Chain_of b) v k = set_bucket b (\<lambda>hb. hb\<lparr>hb_chain := v\<rparr>) k"
| "assign (Next_of q) v k = set_q q (\<lambda>n. n\<lparr>q_next := v\<rparr>) k"

text \<open>Step 4: unlink the node \<open>*pp\<close> and clear its \<^verbatim>\<open>lock_ptr\<close>. Step 5 wakes its task.\<close>

definition dequeue :: "link \<Rightarrow> tid \<Rightarrow> kernel \<Rightarrow> kernel" where
  "dequeue pp q k = set_q q (\<lambda>n. n\<lparr>q_lock_ptr := None\<rparr>) (assign pp (q_next (futex_qs k q)) k)"

definition wake_task :: "tid \<Rightarrow> kernel \<Rightarrow> kernel" where
  "wake_task q = set_q q (\<lambda>n. n\<lparr>q_task := wake_up_process (q_task n)\<rparr>)"

text \<open>
  The loop, with nobody else in between. The fuel bounds the number of rounds; None says it ran
  out, so a cyclic chain would show as None whatever the fuel.
\<close>

fun wake_walk :: "nat \<Rightarrow> addr \<Rightarrow> int \<Rightarrow> link \<Rightarrow> int \<Rightarrow> kernel \<Rightarrow> (int \<times> kernel) option" where
  "wake_walk 0 a n pp ret k = None"
| "wake_walk (Suc fuel) a n pp ret k =
     (case deref k pp of
        None \<Rightarrow> Some (ret, k)
      | Some q \<Rightarrow>
          if ret < n
          then if q_uaddr (futex_qs k q) \<noteq> a
               then wake_walk fuel a n (Next_of q) ret k
               else wake_walk fuel a n pp (ret + 1)
                      (wake_task q (waiters_dec (hash_futex a) (dequeue pp q k)))
          else Some (ret, k))"

text \<open>\<^verbatim>\<open>kernel_futex_wake\<close> called when no other thread is inside the kernel.\<close>

definition kernel_futex_wake :: "nat \<Rightarrow> addr \<Rightarrow> int \<Rightarrow> kernel \<Rightarrow> (int \<times> kernel) option" where
  "kernel_futex_wake fuel a n k =
     (let b = hash_futex a in
      if k_load_relaxed (hb_waiters (buckets k b)) = 0 then Some (0, k)
      else wake_walk fuel a n (Chain_of b) 0 k)"

section \<open>The queue as a list\<close>

text \<open>\<open>lseg k p xs\<close>: following \<^verbatim>\<open>next\<close> from \<open>p\<close> visits \<open>xs\<close> and then the null pointer.\<close>

fun lseg :: "kernel \<Rightarrow> tid option \<Rightarrow> tid list \<Rightarrow> bool" where
  "lseg k p [] \<longleftrightarrow> p = None"
| "lseg k p (x # xs) \<longleftrightarrow> p = Some x \<and> lseg k (deref k (Next_of x)) xs"

abbreviation queue :: "kernel \<Rightarrow> nat \<Rightarrow> tid list \<Rightarrow> bool" where
  "queue k b xs \<equiv> lseg k (deref k (Chain_of b)) xs"

text \<open>What the walk should do to the queue: the first \<open>n\<close> nodes on \<open>a\<close> go, the rest stays.\<close>

fun woken :: "(tid \<Rightarrow> bool) \<Rightarrow> nat \<Rightarrow> tid list \<Rightarrow> tid list" where
  "woken on_a n xs = take n (filter on_a xs)"

fun kept :: "(tid \<Rightarrow> bool) \<Rightarrow> nat \<Rightarrow> tid list \<Rightarrow> tid list" where
  "kept on_a n [] = []"
| "kept on_a 0 xs = xs"
| "kept on_a (Suc n) (x # xs) =
     (if on_a x then kept on_a n xs else x # kept on_a (Suc n) xs)"

lemma set_simps [simp]:
  "buckets (set_bucket b f k) b' = (if b' = b then f (buckets k b) else buckets k b')"
  "futex_qs (set_bucket b f k) = futex_qs k"
  "user_mem (set_bucket b f k) = user_mem k"
  "buckets (set_q q g k) = buckets k"
  "futex_qs (set_q q g k) q' = (if q' = q then g (futex_qs k q) else futex_qs k q')"
  "user_mem (set_q q g k) = user_mem k"
  by (simp_all add: set_bucket_def set_q_def)

lemma set_q_id [simp]: "set_q q (\<lambda>n. n) = id" "set_q q futex_q_release = id"
  by (simp_all add: fun_eq_iff set_q_def)

lemmas kernel_ops = enqueue_def waiters_inc_def waiters_dec_def dequeue_def wake_task_def
  set_current_state_def wake_up_process_eq atomic_defs

lemma assign_simps [simp]:
  "deref (assign l v k) l' = (if l' = l then v else deref k l')"
  "q_uaddr (futex_qs (assign l v k) q) = q_uaddr (futex_qs k q)"
  "q_lock_ptr (futex_qs (assign l v k) q) = q_lock_ptr (futex_qs k q)"
  "q_task (futex_qs (assign l v k) q) = q_task (futex_qs k q)"
  "hb_waiters (buckets (assign l v k) b) = hb_waiters (buckets k b)"
  "hb_lock (buckets (assign l v k) b) = hb_lock (buckets k b)"
  "user_mem (assign l v k) = user_mem k"
  by (cases l; cases l'; auto)+

lemma dequeue_simps [simp]:
  "deref (dequeue l q k) l' = (if l' = l then deref k (Next_of q) else deref k l')"
  "q_uaddr (futex_qs (dequeue l q k) r) = q_uaddr (futex_qs k r)"
  "q_lock_ptr (futex_qs (dequeue l q k) r) = (if r = q then None else q_lock_ptr (futex_qs k r))"
  "q_task (futex_qs (dequeue l q k) r) = q_task (futex_qs k r)"
  "hb_waiters (buckets (dequeue l q k) b) = hb_waiters (buckets k b)"
  "hb_lock (buckets (dequeue l q k) b) = hb_lock (buckets k b)"
  "user_mem (dequeue l q k) = user_mem k"
proof -
  have "deref (set_q q (\<lambda>n. n\<lparr>q_lock_ptr := None\<rparr>) k) l' = deref k l'" for k l'
    by (cases l') auto
  then show "deref (dequeue l q k) l' = (if l' = l then deref k (Next_of q) else deref k l')"
    by (simp add: dequeue_def)
qed (simp_all add: dequeue_def)

lemma waiters_simps [simp]:
  "deref (waiters_inc b k) l = deref k l" "deref (waiters_dec b k) l = deref k l"
  "futex_qs (waiters_inc b k) = futex_qs k" "futex_qs (waiters_dec b k) = futex_qs k"
  "hb_waiters (buckets (waiters_inc b k) b') =
     (if b' = b then hb_waiters (buckets k b) + 1 else hb_waiters (buckets k b'))"
  "hb_waiters (buckets (waiters_dec b k) b') =
     (if b' = b then hb_waiters (buckets k b) - 1 else hb_waiters (buckets k b'))"
  "hb_lock (buckets (waiters_inc b k) b') = hb_lock (buckets k b')"
  "hb_lock (buckets (waiters_dec b k) b') = hb_lock (buckets k b')"
  "user_mem (waiters_inc b k) = user_mem k" "user_mem (waiters_dec b k) = user_mem k"
  by (cases l; simp add: kernel_ops)+

lemma wake_task_simps [simp]:
  "deref (wake_task q k) l = deref k l"
  "q_uaddr (futex_qs (wake_task q k) r) = q_uaddr (futex_qs k r)"
  "q_lock_ptr (futex_qs (wake_task q k) r) = q_lock_ptr (futex_qs k r)"
  "q_task (futex_qs (wake_task q k) r) =
     (if r = q then (q_task (futex_qs k r))\<lparr>wake_pending := True\<rparr> else q_task (futex_qs k r))"
  "buckets (wake_task q k) = buckets k"
  "user_mem (wake_task q k) = user_mem k"
  by (cases l; simp add: kernel_ops)+

lemma enqueue_simps [simp]:
  "deref (enqueue b q k) (Chain_of b') = (if b' = b then Some q else deref k (Chain_of b'))"
  "deref (enqueue b q k) (Next_of r) =
     (if r = q then deref k (Chain_of b) else deref k (Next_of r))"
  "q_uaddr (futex_qs (enqueue b q k) r) = q_uaddr (futex_qs k r)"
  "q_lock_ptr (futex_qs (enqueue b q k) r) = (if r = q then Some b else q_lock_ptr (futex_qs k r))"
  "q_task (futex_qs (enqueue b q k) r) =
     (if r = q then (q_task (futex_qs k r))\<lparr>task_state := TASK_INTERRUPTIBLE\<rparr>
      else q_task (futex_qs k r))"
  "hb_waiters (buckets (enqueue b q k) b') = hb_waiters (buckets k b')"
  "hb_lock (buckets (enqueue b q k) b') = hb_lock (buckets k b')"
  "user_mem (enqueue b q k) = user_mem k"
  by (simp_all add: kernel_ops)

declare deref.simps [simp del]

text \<open>Only the links count for the shape of a queue.\<close>

lemma lseg_cong:
  "(\<And>x. x \<in> set xs \<Longrightarrow> deref k' (Next_of x) = deref k (Next_of x)) \<Longrightarrow> lseg k' p xs \<longleftrightarrow> lseg k p xs"
  by (induction xs arbitrary: p) auto

lemma lseg_unique: "lseg k p xs \<Longrightarrow> lseg k p ys \<Longrightarrow> xs = ys"
proof (induction xs arbitrary: p ys)
  case Nil
  then show ?case by (cases ys) auto
next
  case (Cons x xs)
  then show ?case by (cases ys) auto
qed

lemma set_kept: "set (kept P n xs) \<subseteq> set xs"
  by (induction P n xs rule: kept.induct) auto

text \<open>The nodes on the chain other than those woken keep everything but their \<^verbatim>\<open>next\<close>.\<close>

definition woken_node :: "futex_q \<Rightarrow> futex_q \<Rightarrow> bool" where
  "woken_node m m' \<longleftrightarrow> q_uaddr m' = q_uaddr m \<and> q_lock_ptr m' = None \<and>
     q_task m' = (q_task m)\<lparr>wake_pending := True\<rparr>"

definition same_node :: "futex_q \<Rightarrow> futex_q \<Rightarrow> bool" where
  "same_node m m' \<longleftrightarrow> q_uaddr m' = q_uaddr m \<and> q_lock_ptr m' = q_lock_ptr m \<and>
     q_task m' = q_task m"

text \<open>What the walk from \<open>pp\<close> over the nodes \<open>xs\<close> has done when it ends.\<close>

definition walk_post ::
  "addr \<Rightarrow> nat \<Rightarrow> link \<Rightarrow> tid list \<Rightarrow> kernel \<Rightarrow> kernel \<Rightarrow> bool" where
  "walk_post a m pp xs k k' \<longleftrightarrow>
     (let on_a = (\<lambda>q. q_uaddr (futex_qs k q) = a); W = woken on_a m xs in
      lseg k' (deref k' pp) (kept on_a m xs) \<and>
      (\<forall>l. l \<noteq> pp \<longrightarrow> (\<forall>x \<in> set xs. l \<noteq> Next_of x) \<longrightarrow> deref k' l = deref k l) \<and>
      (\<forall>q \<in> set W. woken_node (futex_qs k q) (futex_qs k' q)) \<and>
      (\<forall>q. q \<notin> set W \<longrightarrow> same_node (futex_qs k q) (futex_qs k' q)) \<and>
      (\<forall>b. hb_waiters (buckets k' b) =
             hb_waiters (buckets k b) - (if b = hash_futex a then of_nat (length W) else 0)) \<and>
      (\<forall>b. hb_lock (buckets k' b) = hb_lock (buckets k b)) \<and>
      user_mem k' = user_mem k)"

lemma walk_postD:
  assumes "walk_post a m pp xs k k'"
  defines W_def: "W \<equiv> woken (\<lambda>q. q_uaddr (futex_qs k q) = a) m xs"
  shows "lseg k' (deref k' pp) (kept (\<lambda>q. q_uaddr (futex_qs k q) = a) m xs)"
    and "l \<noteq> pp \<Longrightarrow> (\<And>x. x \<in> set xs \<Longrightarrow> l \<noteq> Next_of x) \<Longrightarrow> deref k' l = deref k l"
    and "q \<in> set W \<Longrightarrow> woken_node (futex_qs k q) (futex_qs k' q)"
    and "q \<notin> set W \<Longrightarrow> same_node (futex_qs k q) (futex_qs k' q)"
    and "hb_waiters (buckets k' b) =
           hb_waiters (buckets k b) - (if b = hash_futex a then of_nat (length W) else 0)"
    and "hb_lock (buckets k' b) = hb_lock (buckets k b)"
    and "user_mem k' = user_mem k"
  using assms(1) unfolding W_def walk_post_def Let_def by blast+

lemma walk_postI:
  fixes W
  assumes W_def: "W = woken (\<lambda>q. q_uaddr (futex_qs k q) = a) m xs"
  and "lseg k' (deref k' pp) (kept (\<lambda>q. q_uaddr (futex_qs k q) = a) m xs)"
    and "\<And>l. l \<noteq> pp \<Longrightarrow> (\<And>x. x \<in> set xs \<Longrightarrow> l \<noteq> Next_of x) \<Longrightarrow> deref k' l = deref k l"
    and "\<And>q. q \<in> set W \<Longrightarrow> woken_node (futex_qs k q) (futex_qs k' q)"
    and "\<And>q. q \<notin> set W \<Longrightarrow> same_node (futex_qs k q) (futex_qs k' q)"
    and "\<And>b. hb_waiters (buckets k' b) =
           hb_waiters (buckets k b) - (if b = hash_futex a then of_nat (length W) else 0)"
    and "\<And>b. hb_lock (buckets k' b) = hb_lock (buckets k b)"
    and "user_mem k' = user_mem k"
  shows "walk_post a m pp xs k k'"
  using assms unfolding W_def walk_post_def Let_def by blast

lemma walk_post_skip:
  assumes post: "walk_post a (Suc m) (Next_of x) xs k k'"
    and x: "q_uaddr (futex_qs k x) \<noteq> a" and pp: "deref k pp = Some x" "pp \<noteq> Next_of x"
      "\<forall>y \<in> set xs. pp \<noteq> Next_of y"
  shows "walk_post a (Suc m) pp (x # xs) k k'"
proof (rule walk_postI [OF refl])
  have "deref k' pp = Some x" using walk_postD(2) [OF post, of pp] pp by auto
  with walk_postD(1) [OF post] x
  show "lseg k' (deref k' pp) (kept (\<lambda>q. q_uaddr (futex_qs k q) = a) (Suc m) (x # xs))" by simp
qed (use walk_postD [OF post] x in auto)

lemma walk_post_take:
  fixes k pp x a
  defines k1_def: "k1 \<equiv> wake_task x (waiters_dec (hash_futex a) (dequeue pp x k))"
  assumes post: "walk_post a m pp xs k1 k'"
    and x: "q_uaddr (futex_qs k x) = a" "x \<notin> set xs"
  shows "walk_post a (Suc m) pp (x # xs) k k'"
proof (rule walk_postI [OF refl])
  have uaddr: "(\<lambda>q. q_uaddr (futex_qs k1 q) = a) = (\<lambda>q. q_uaddr (futex_qs k q) = a)"
    by (simp add: k1_def)
  note D = walk_postD [OF post, unfolded uaddr]
  have x': "x \<notin> set (woken (\<lambda>q. q_uaddr (futex_qs k q) = a) m xs)"
    using x(2) by (auto dest: in_set_takeD)
  show "lseg k' (deref k' pp) (kept (\<lambda>q. q_uaddr (futex_qs k q) = a) (Suc m) (x # xs))"
    using D(1) x by simp
  show "deref k' l = deref k l" if "l \<noteq> pp" "\<And>y. y \<in> set (x # xs) \<Longrightarrow> l \<noteq> Next_of y" for l
    using D(2) [of l] that by (simp add: k1_def)
  show "woken_node (futex_qs k q) (futex_qs k' q)"
    if "q \<in> set (woken (\<lambda>q. q_uaddr (futex_qs k q) = a) (Suc m) (x # xs))" for q
    using D(3) [of q] D(4) [of q] that x x'
    by (cases "q = x") (auto simp: k1_def woken_node_def same_node_def)
  show "same_node (futex_qs k q) (futex_qs k' q)"
    if "q \<notin> set (woken (\<lambda>q. q_uaddr (futex_qs k q) = a) (Suc m) (x # xs))" for q
    using D(4) [of q] that x by (auto simp: k1_def same_node_def)
  show "hb_waiters (buckets k' b) = hb_waiters (buckets k b) -
      (if b = hash_futex a
       then of_nat (length (woken (\<lambda>q. q_uaddr (futex_qs k q) = a) (Suc m) (x # xs))) else 0)" for b
    using D(5) [of b] x by (simp add: k1_def)
qed (use walk_postD(6,7) [OF post] in \<open>auto simp: k1_def\<close>)

lemma wake_walk_correct:
  assumes "lseg k (deref k pp) xs" and "distinct xs" and "\<forall>x \<in> set xs. pp \<noteq> Next_of x"
    and "length xs < fuel" and "ret \<le> n"
  shows "\<exists>k'. wake_walk fuel a n pp ret k =
      Some (ret + int (length (woken (\<lambda>q. q_uaddr (futex_qs k q) = a) (nat (n - ret)) xs)), k') \<and>
    walk_post a (nat (n - ret)) pp xs k k'"
  using assms
proof (induction xs arbitrary: fuel k pp ret)
  case Nil
  then show ?case
    by (cases fuel) (auto simp: walk_post_def same_node_def)
next
  case (Cons x xs)
  then obtain f where fuel: "fuel = Suc f" by (cases fuel) auto
  let ?P = "\<lambda>q. q_uaddr (futex_qs k q) = a"
  consider "ret = n" | "ret < n" "\<not> ?P x" | "ret < n" "?P x"
    using Cons.prems by fastforce
  then show ?case
  proof cases
    case 1
    with Cons.prems fuel show ?thesis
      by (auto simp: walk_post_def same_node_def)
  next
    case 2
    from Cons.prems have pp: "deref k pp = Some x" "pp \<noteq> Next_of x"
      "\<forall>y \<in> set xs. pp \<noteq> Next_of y" by auto
    obtain m where m: "nat (n - ret) = Suc m" using 2(1) by (cases "nat (n - ret)") auto
    from Cons.prems fuel have "lseg k (deref k (Next_of x)) xs" "distinct xs"
      "\<forall>y \<in> set xs. Next_of x \<noteq> Next_of y" "length xs < f" "ret \<le> n" by auto
    from Cons.IH [OF this] obtain k' where walk:
      "wake_walk f a n (Next_of x) ret k =
         Some (ret + int (length (woken ?P (Suc m) xs)), k')"
      "walk_post a (Suc m) (Next_of x) xs k k'" unfolding m by blast
    have "walk_post a (Suc m) pp (x # xs) k k'"
      using walk(2) 2(2) pp by (rule walk_post_skip)
    with walk(1) 2 pp(1) show ?thesis unfolding fuel m by simp
  next
    case 3
    let ?k = "wake_task x (waiters_dec (hash_futex a) (dequeue pp x k))"
    from Cons.prems have pp: "deref k pp = Some x" "pp \<noteq> Next_of x"
      "\<forall>y \<in> set xs. pp \<noteq> Next_of y" by auto
    obtain m where m: "nat (n - ret) = Suc m" "nat (n - (ret + 1)) = m"
      using 3(1) by (cases "nat (n - ret)") auto
    have "lseg k (deref k (Next_of x)) xs" using Cons.prems(1) by simp
    then have "lseg ?k (deref ?k pp) xs"
      using pp by (subst lseg_cong [of _ _ k]) auto
    moreover from Cons.prems fuel 3 have "distinct xs" "length xs < f" "ret + 1 \<le> n" by auto
    ultimately obtain k' where walk:
      "wake_walk f a n pp (ret + 1) ?k = Some (ret + 1 + int (length (woken ?P m xs)), k')"
      "walk_post a m pp xs ?k k'"
      using Cons.IH [of ?k pp f "ret + 1"] pp(3) unfolding m by auto
    have "walk_post a (Suc m) pp (x # xs) k k'"
      using walk(2) 3(2) Cons.prems(2) by (intro walk_post_take) auto
    with walk(1) 3 pp(1) show ?thesis unfolding fuel m by simp
  qed
qed

section \<open>The two operations run by one thread\<close>

text \<open>
  \<^verbatim>\<open>kernel_futex_wait\<close> by the thread \<open>q\<close> up to the point where it returns or calls
  \<^verbatim>\<open>schedule\<close> (None), when no other thread is inside the kernel.
\<close>

definition EWOULDBLOCK :: int where "EWOULDBLOCK = 11"

definition kernel_futex_wait :: "tid \<Rightarrow> addr \<Rightarrow> u32 \<Rightarrow> kernel \<Rightarrow> int option \<times> kernel" where
  "kernel_futex_wait q a val k =
     (let k = set_q q (futex_q_init a) k; b = hash_futex a in
      if k_load_acquire (user_mem k a) \<noteq> val then (Some (- EWOULDBLOCK), set_q q futex_q_release k)
      else (None, waiters_inc b (enqueue b q k)))"

text \<open>A bucket at rest: a null-terminated queue without repetition, and its length counted.\<close>

definition bucket_ok :: "kernel \<Rightarrow> nat \<Rightarrow> tid list \<Rightarrow> bool" where
  "bucket_ok k b xs \<longleftrightarrow> queue k b xs \<and> distinct xs \<and> length xs < 2 ^ 32 \<and>
     hb_waiters (buckets k b) = of_nat (length xs)"

lemma kept_filter:
  "distinct xs \<Longrightarrow> kept P n xs = filter (\<lambda>x. x \<notin> set (woken P n xs)) xs"
proof (induction P n xs rule: kept.induct)
  case (3 P n x xs)
  have "x \<notin> set (take m (filter P xs))" for m
    using 3(3) by (auto dest: in_set_takeD)
  moreover have "filter (\<lambda>y. y \<noteq> x \<and> y \<notin> A) xs = filter (\<lambda>y. y \<notin> A) xs" for A
    using 3(3) by (intro filter_cong) auto
  ultimately show ?case using 3 by auto
qed auto

lemma kept_0 [simp]: "kept P 0 xs = xs"
  by (cases xs) auto

lemma length_kept: "length (kept P n xs) + length (woken P n xs) = length xs"
  by (induction P n xs rule: kept.induct) auto

lemma wake_walk_none:
  "n \<le> ret \<Longrightarrow> 0 < fuel \<Longrightarrow> wake_walk fuel a n pp ret k = Some (ret, k)"
  by (cases fuel) (auto split: option.splits)

lemma kernel_futex_wake_list:
  assumes ok: "bucket_ok k (hash_futex a) xs" and fuel: "length xs < fuel"
  shows "\<exists>k'. kernel_futex_wake fuel a n k =
      Some (int (length (woken (\<lambda>q. q_uaddr (futex_qs k q) = a) (nat n) xs)), k') \<and>
    walk_post a (nat n) (Chain_of (hash_futex a)) xs k k'"
proof -
  consider "xs = []" | "xs \<noteq> []" "n < 0" | "xs \<noteq> []" "0 \<le> n" by linarith
  then show ?thesis
  proof cases
    case 1
    with ok show ?thesis
      by (intro exI [of _ k])
         (simp add: kernel_futex_wake_def bucket_ok_def walk_post_def same_node_def)
  next
    case 2
    with ok fuel show ?thesis
      by (intro exI [of _ k])
         (simp add: kernel_futex_wake_def Let_def wake_walk_none bucket_ok_def walk_post_def
            same_node_def)
  next
    case 3
    have "of_nat (length xs) \<noteq> (0 :: u32)"
      using ok 3(1) by (simp add: bucket_ok_def word_of_nat_eq_0_iff nat_dvd_not_less)
    with ok 3(1) have "hb_waiters (buckets k (hash_futex a)) \<noteq> 0"
      by (simp add: bucket_ok_def)
    with wake_walk_correct [of k "Chain_of (hash_futex a)" xs fuel 0 n a] ok fuel 3(2)
    show ?thesis by (simp add: kernel_futex_wake_def bucket_ok_def Let_def)
  qed
qed


lemma walk_post_bucket:
  assumes ok: "bucket_ok k (hash_futex a) xs"
    and post: "walk_post a m (Chain_of (hash_futex a)) xs k k'"
  shows "bucket_ok k' (hash_futex a)
           (filter (\<lambda>q. q \<notin> set (woken (\<lambda>q. q_uaddr (futex_qs k q) = a) m xs)) xs)"
proof -
  let ?P = "\<lambda>q. q_uaddr (futex_qs k q) = a"
  have kept: "kept ?P m xs = filter (\<lambda>q. q \<notin> set (woken ?P m xs)) xs"
    using ok by (intro kept_filter) (simp add: bucket_ok_def)
  have len: "length (kept ?P m xs) + length (woken ?P m xs) = length xs"
    by (rule length_kept)
  have "(of_nat (length xs) :: u32) - of_nat (length (woken ?P m xs)) =
      of_nat (length (kept ?P m xs))"
    unfolding len [symmetric] by simp
  with walk_postD(5) [OF post, of "hash_futex a"] ok
  have "hb_waiters (buckets k' (hash_futex a)) = of_nat (length (kept ?P m xs))"
    by (simp add: bucket_ok_def)
  with walk_postD(1) [OF post] ok len show ?thesis
    unfolding bucket_ok_def kept [symmetric] by (auto simp: kept)
qed

lemma walk_post_other_bucket:
  assumes post: "walk_post a m (Chain_of (hash_futex a)) xs k k'"
    and ok: "bucket_ok k b ys" "b \<noteq> hash_futex a" "set ys \<inter> set xs = {}"
  shows "bucket_ok k' b ys"
proof -
  have "deref k' (Chain_of b) = deref k (Chain_of b)"
    and "\<And>y. y \<in> set ys \<Longrightarrow> deref k' (Next_of y) = deref k (Next_of y)"
    using ok(2,3) by (auto intro: walk_postD(2) [OF post])
  with ok walk_postD(5) [OF post, of b] show ?thesis
    using lseg_cong [of ys k' k] by (simp add: bucket_ok_def)
qed

text \<open>A wait on a word that holds the expected value puts its node in front of the queue.\<close>

lemma kernel_futex_wait_queues:
  assumes ok: "bucket_ok k (hash_futex a) xs" and q: "q \<notin> set xs" and val: "user_mem k a = val"
    and bound: "Suc (length xs) < 2 ^ 32"
  shows "\<exists>k1. kernel_futex_wait q a val k = (None, k1) \<and> bucket_ok k1 (hash_futex a) (q # xs) \<and>
    futex_qs k1 q = (futex_q_init a (futex_qs k q))\<lparr>q_next := hb_chain (buckets k (hash_futex a)),
      q_lock_ptr := Some (hash_futex a), 
      q_task := (q_task (futex_qs k q))\<lparr>task_state := TASK_INTERRUPTIBLE, wake_pending := False\<rparr>\<rparr> \<and>
    (\<forall>r. r \<noteq> q \<longrightarrow> futex_qs k1 r = futex_qs k r)"
proof -
  let ?k = "set_q q (futex_q_init a) k" and ?b = "hash_futex a"
  let ?k1 = "waiters_inc ?b (enqueue ?b q ?k)"
  have run: "kernel_futex_wait q a val k = (None, ?k1)"
    using val by (simp add: kernel_futex_wait_def Let_def atomic_defs)
  have "deref ?k l = (if l = Next_of q then None else deref k l)" for l
    by (cases l) (simp_all add: deref.simps futex_q_init_def)
  then have "lseg ?k1 (deref ?k (Chain_of ?b)) xs \<longleftrightarrow> lseg k (deref k (Chain_of ?b)) xs"
    using q by (subst lseg_cong [of _ _ k]) auto
  then have "bucket_ok ?k1 ?b (q # xs)"
    using ok q bound by (simp add: bucket_ok_def)
  moreover have "futex_qs ?k1 r = futex_qs k r" if "r \<noteq> q" for r
    using that by (simp add: enqueue_def)
  ultimately show ?thesis
    using run by (auto simp: kernel_ops futex_q_init_def)
qed

lemma bucket_ok_init_node:
  assumes "bucket_ok k b xs" and "q \<notin> set xs"
  shows "bucket_ok (set_q q (futex_q_init a) k) b xs" (is "bucket_ok ?k b xs")
proof -
  have link: "deref ?k l = (if l = Next_of q then None else deref k l)" for l
    by (cases l) (simp_all add: deref.simps futex_q_init_def)
  have "lseg ?k p xs \<longleftrightarrow> lseg k p xs" for p
    using assms(2) by (intro lseg_cong) (auto simp: link)
  with assms(1) show ?thesis by (simp add: bucket_ok_def link)
qed

lemma kernel_futex_wake_post:
  assumes "bucket_ok k (hash_futex a) xs" and "length xs < fuel"
  shows "\<exists>k'. let W = take (nat n) (filter (\<lambda>q. q_uaddr (futex_qs k q) = a) xs) in
    kernel_futex_wake fuel a n k = Some (int (length W), k') \<and>
    bucket_ok k' (hash_futex a) (filter (\<lambda>q. q \<notin> set W) xs) \<and>
    (\<forall>q. if q \<in> set W then woken_node (futex_qs k q) (futex_qs k' q)
         else same_node (futex_qs k q) (futex_qs k' q)) \<and>
    (\<forall>b ys. b \<noteq> hash_futex a \<and> bucket_ok k b ys \<and> set ys \<inter> set xs = {} \<longrightarrow> bucket_ok k' b ys) \<and>
    user_mem k' = user_mem k"
proof -
  from kernel_futex_wake_list [OF assms] obtain k' where
    run: "kernel_futex_wake fuel a n k =
      Some (int (length (woken (\<lambda>q. q_uaddr (futex_qs k q) = a) (nat n) xs)), k')"
    and post: "walk_post a (nat n) (Chain_of (hash_futex a)) xs k k'" by blast
  from walk_post_bucket [OF assms(1) post] walk_post_other_bucket [OF post] walk_postD(3,4,7) [OF post] run
  show ?thesis by (intro exI [of _ k']) (simp add: Let_def)
qed

section \<open>Properties\<close>

text \<open>C6: \<^verbatim>\<open>kernel_futex_wake\<close> on a well-formed bucket. The loop over the linked list ends, the
  result is the number of threads woken, which are the first \<open>n\<close> nodes of the queue that wait on
  this very word (none when \<open>n\<close> is negative); they are unlinked, their \<^verbatim>\<open>lock_ptr\<close> is cleared and
  their wake-up delivered; all other nodes keep their order, address, \<^verbatim>\<open>lock_ptr\<close> and task; the
  waiter count again equals the length of the queue; and the other buckets are untouched.\<close>

theorem kernel_futex_wake_correct:
  assumes "bucket_ok k (hash_futex a) xs" and "length xs < fuel"
  shows "\<exists>k'. let W = take (nat n) (filter (\<lambda>q. q_uaddr (futex_qs k q) = a) xs) in
    kernel_futex_wake fuel a n k = Some (int (length W), k') \<and>
    bucket_ok k' (hash_futex a) (filter (\<lambda>q. q \<notin> set W) xs) \<and>
    (\<forall>q. if q \<in> set W then woken_node (futex_qs k q) (futex_qs k' q)
         else same_node (futex_qs k q) (futex_qs k' q)) \<and>
    (\<forall>b ys. b \<noteq> hash_futex a \<and> bucket_ok k b ys \<and> set ys \<inter> set xs = {} \<longrightarrow> bucket_ok k' b ys) \<and>
    user_mem k' = user_mem k"
  by (rule kernel_futex_wake_post [OF assms])

text \<open>Three waiters in bucket 1: threads 1 and 3 on the word at 4, thread 2 on the word at 68.\<close>

definition kernel_zero :: kernel where
  "kernel_zero =
     \<lparr>buckets = (\<lambda>_. \<lparr>hb_lock = 0, hb_chain = None, hb_waiters = 0\<rparr>),
      futex_qs = (\<lambda>_. \<lparr>q_next = None, q_uaddr = 0, q_lock_ptr = None,
        q_task = \<lparr>task_state = TASK_RUNNING, wake_pending = False, wake_lock = \<lparr>k_mutex_dummy = 0\<rparr>,
                  wake_cv = \<lparr>k_cond_dummy = 0\<rparr>\<rparr>\<rparr>), user_mem = (\<lambda>_. 0)\<rparr>"

definition kernel_three :: kernel where
  "kernel_three =
     snd (kernel_futex_wait 3 4 0 (snd (kernel_futex_wait 2 68 0
       (snd (kernel_futex_wait 1 4 0 kernel_zero)))))"

lemmas kernel_eval = kernel_three_def kernel_zero_def kernel_futex_wait_def kernel_futex_wake_def
  kernel_ops hash_futex_def N_BUCKETS_def futex_q_init_def deref.simps schedule_eq Let_def

lemma kernel_three_ok: "bucket_ok kernel_three 1 [3, 2, 1]"
  by (simp add: bucket_ok_def kernel_eval)

lemma kernel_three_uaddr:
  "q_uaddr (futex_qs kernel_three 1) = 4" "q_uaddr (futex_qs kernel_three 2) = 68"
  "q_uaddr (futex_qs kernel_three 3) = 4" 
  by (simp_all add: kernel_eval)

theorem kernel_futex_wake_correct_witness:
  "\<exists>k'. kernel_futex_wake 4 4 1 kernel_three = Some (1, k') \<and> bucket_ok k' 1 [2, 1] \<and>
     woken_node (futex_qs kernel_three 3) (futex_qs k' 3) \<and>
     same_node (futex_qs kernel_three 1) (futex_qs k' 1)"
proof -
  have b: "hash_futex 4 = 1" by (simp add: hash_futex_def N_BUCKETS_def)
  have ok: "bucket_ok kernel_three (hash_futex 4) [3, 2, 1]"
    unfolding b by (rule kernel_three_ok)
  have W: "take (nat 1) (filter (\<lambda>q. q_uaddr (futex_qs kernel_three q) = 4) [3, 2, 1]) = [3]"
    by (simp add: kernel_three_uaddr)
  from kernel_futex_wake_correct [OF ok, of 4 1] obtain k' where
    "kernel_futex_wake 4 4 1 kernel_three = Some (1, k')" "bucket_ok k' 1 [2, 1]"
    and node: "\<And>q. if q \<in> set [3] then woken_node (futex_qs kernel_three q) (futex_qs k' q)
         else same_node (futex_qs kernel_three q) (futex_qs k' q)"
    unfolding W Let_def b by auto
  with node [of 3] node [of 1] show ?thesis by auto
qed

text \<open>C26: \<^verbatim>\<open>kernel_futex_wait\<close> never sleeps on a word that no longer holds the expected value: it
  returns \<^verbatim>\<open>-EWOULDBLOCK\<close> with every queue as it was. Otherwise it queues its node and goes to
  sleep, and a wake of one thread on that word returns 1, delivers the wake-up to exactly this
  thread (the last to have come, before all earlier sleepers), gives the queue back as it was and
  lets the thread's \<^verbatim>\<open>schedule\<close> return with the task running.\<close>

theorem kernel_futex_wait_wake_roundtrip:
  assumes ok: "bucket_ok k (hash_futex a) xs" and q: "q \<notin> set xs"
    and bound: "Suc (length xs) < 2 ^ 32"
  shows "if user_mem k a \<noteq> val
    then \<exists>k1. kernel_futex_wait q a val k = (Some (- EWOULDBLOCK), k1) \<and>
           bucket_ok k1 (hash_futex a) xs
    else \<exists>k1 k2. kernel_futex_wait q a val k = (None, k1) \<and>
           bucket_ok k1 (hash_futex a) (q # xs) \<and> schedule (q_task (futex_qs k1 q)) = None \<and>
           kernel_futex_wake (length xs + 2) a 1 k1 = Some (1, k2) \<and>
           bucket_ok k2 (hash_futex a) xs \<and>
           schedule (q_task (futex_qs k2 q)) =
             Some ((q_task (futex_qs k q))\<lparr>task_state := TASK_RUNNING, wake_pending := False\<rparr>) \<and>
           (\<forall>r. r \<noteq> q \<longrightarrow> same_node (futex_qs k r) (futex_qs k2 r))"
proof (cases "user_mem k a = val")
  case False
  have "bucket_ok (set_q q (futex_q_init a) k) (hash_futex a) xs"
    using ok q by (rule bucket_ok_init_node)
  with False show ?thesis by (simp add: kernel_futex_wait_def Let_def atomic_defs)
next
  case True
  from kernel_futex_wait_queues [OF ok q True bound] obtain k1 where
    k1: "kernel_futex_wait q a val k = (None, k1)" "bucket_ok k1 (hash_futex a) (q # xs)"
      "q_uaddr (futex_qs k1 q) = a"
      "q_task (futex_qs k1 q) = (q_task (futex_qs k q))\<lparr>task_state := TASK_INTERRUPTIBLE, wake_pending := False\<rparr>"
      "\<And>r. r \<noteq> q \<Longrightarrow> futex_qs k1 r = futex_qs k r"
    by (auto simp: futex_q_init_def)
  let ?W = "take (nat 1) (filter (\<lambda>r. q_uaddr (futex_qs k1 r) = a) (q # xs))"
  have W: "?W = [q]" using k1(3) by simp
  obtain k2 where k2: "kernel_futex_wake (length xs + 2) a 1 k1 = Some (int (length ?W), k2)"
    "bucket_ok k2 (hash_futex a) (filter (\<lambda>r. r \<notin> set ?W) (q # xs))"
    "\<And>r. if r \<in> set ?W then woken_node (futex_qs k1 r) (futex_qs k2 r)
         else same_node (futex_qs k1 r) (futex_qs k2 r)"
    using kernel_futex_wake_list [OF k1(2), of "length xs + 2" 1]
      walk_post_bucket [OF k1(2)] walk_postD(3,4) by fastforce
  have "filter (\<lambda>r. r \<notin> set [q]) (q # xs) = xs"
    using q by (auto intro: filter_True)
  with k2 k1 have "bucket_ok k2 (hash_futex a) xs" unfolding W by simp
  moreover have "schedule (q_task (futex_qs k2 q)) =
      Some ((q_task (futex_qs k q))\<lparr>task_state := TASK_RUNNING, wake_pending := False\<rparr>)"
    using k2(3) [of q] k1(4) unfolding W by (simp add: woken_node_def schedule_eq)
  moreover have "same_node (futex_qs k r) (futex_qs k2 r)" if "r \<noteq> q" for r
    using k2(3) [of r] k1(5) [OF that] that unfolding W by simp
  moreover have "schedule (q_task (futex_qs k1 q)) = None"
    using k1(4) by (simp add: schedule_eq)
  ultimately show ?thesis using True k1(1,2) k2(1) unfolding W by auto
qed

theorem kernel_futex_wait_wake_roundtrip_witness:
  "\<exists>k1 k2. kernel_futex_wait 7 4 0 kernel_three = (None, k1) \<and>
     bucket_ok k1 1 [7, 3, 2, 1] \<and> kernel_futex_wake 5 4 1 k1 = Some (1, k2) \<and>
     bucket_ok k2 1 [3, 2, 1]"
proof -
  have b: "hash_futex 4 = 1" by (simp add: hash_futex_def N_BUCKETS_def)
  have ok: "bucket_ok kernel_three (hash_futex 4) [3, 2, 1]"
    unfolding b by (rule kernel_three_ok)
  have "user_mem kernel_three 4 = 0" by (simp add: kernel_eval)
  with kernel_futex_wait_wake_roundtrip [OF ok, of 7 0] obtain k1 k2 where
    "kernel_futex_wait 7 4 0 kernel_three = (None, k1)" "bucket_ok k1 (hash_futex 4) [7, 3, 2, 1]"
    "kernel_futex_wake (length [3, 2, 1 :: tid] + 2) 4 1 k1 = Some (1, k2)"
    "bucket_ok k2 (hash_futex 4) [3, 2, 1]" by auto
  moreover have "length [3, 2, 1 :: tid] + 2 = 5" by simp
  ultimately show ?thesis unfolding b by metis
qed

end
