(* ===== verification/Kernel_Conc.thy ===== *)
theory Kernel_Conc
  imports Kernel_Heap
begin

text \<open>
  \<^verbatim>\<open>kernel/k_futex.h\<close>, the concurrent system: any number of threads inside
  \<^verbatim>\<open>kernel_futex_wait\<close> and \<^verbatim>\<open>kernel_futex_wake\<close>, one access to shared memory per step, while
  userspace stores to the futex words. The bucket lock guards the queue but neither the fast path
  of \<^verbatim>\<open>kernel_futex_wake\<close> nor the words of userspace.
\<close>

section \<open>Threads in the kernel\<close>

text \<open>
  Where a thread is: \<open>W_\<close> points are inside \<^verbatim>\<open>kernel_futex_wait\<close>, \<open>V_\<close> points inside
  \<^verbatim>\<open>kernel_futex_wake\<close>, with their arguments and the locals \<open>pp\<close>, \<open>ret\<close> and \<open>q\<close>.
\<close>

datatype kpc =
    K_user
  | W_lock addr u32
  | W_check addr u32
  | W_refuse addr
  | W_enqueue addr
  | W_count addr
  | W_unlock addr
  | W_sleep
  | V_fast addr int
  | V_lock addr int
  | V_loop addr int link int
  | V_count addr int link int tid
  | V_wake addr int link int tid
  | V_unlock addr int
  | K_return int

record ksys =
  kern :: kernel
  kpcs :: "tid \<Rightarrow> kpc"

definition kmove :: "tid \<Rightarrow> kpc \<Rightarrow> (kernel \<Rightarrow> kernel) \<Rightarrow> ksys \<Rightarrow> ksys" where
  "kmove t p f s = \<lparr>kern = f (kern s), kpcs = (kpcs s)(t := p)\<rparr>"

definition hb_set_lock :: "nat \<Rightarrow> u32 \<Rightarrow> kernel \<Rightarrow> kernel" where
  "hb_set_lock b l = set_bucket b (\<lambda>hb. hb\<lparr>hb_lock := l\<rparr>)"

text \<open>One round of the lock loop on bucket \<open>b\<close>: on to \<open>p\<close> with the lock, or once more.\<close>

definition lock_bucket :: "tid \<Rightarrow> bool \<Rightarrow> nat \<Rightarrow> kpc \<Rightarrow> ksys \<Rightarrow> ksys" where
  "lock_bucket t spurious b p s =
     (case spin_lock spurious (hb_lock (buckets (kern s) b)) of
        Some l \<Rightarrow> kmove t p (hb_set_lock b l) s
      | None \<Rightarrow> s)"

definition unlock_bucket :: "tid \<Rightarrow> nat \<Rightarrow> kpc \<Rightarrow> ksys \<Rightarrow> ksys" where
  "unlock_bucket t b p s =
     kmove t p (hb_set_lock b (spin_unlock (hb_lock (buckets (kern s) b)))) s"

text \<open>What a waiter does with its node last, and one more round of its loop in \<^verbatim>\<open>schedule\<close>.\<close>

definition release_node :: "tid \<Rightarrow> ksys \<Rightarrow> ksys" where
  "release_node t s = s\<lparr>kern := set_q t futex_q_release (kern s)\<rparr>"

lemma release_node_eq [simp]: "release_node t s = s"
  by (simp add: release_node_def)

lemma kmove_stay [simp]: "kpcs s t = p \<Longrightarrow> kmove t p id s = s"
  by (auto simp: kmove_def)

text \<open>The next step of \<open>t\<close> inside the kernel.\<close>

definition kernel_step :: "tid \<Rightarrow> bool \<Rightarrow> ksys \<Rightarrow> ksys option" where
  "kernel_step t spurious s =
     (let k = kern s in case kpcs s t of
        W_lock a val \<Rightarrow> Some (lock_bucket t spurious (hash_futex a) (W_check a val) s)
      | W_check a val \<Rightarrow>
          Some (kmove t (if k_load_acquire (user_mem k a) \<noteq> val then W_refuse a else W_enqueue a) id s)
      | W_refuse a \<Rightarrow>
          Some (release_node t (unlock_bucket t (hash_futex a) (K_return (- EWOULDBLOCK)) s))
      | W_enqueue a \<Rightarrow> Some (kmove t (W_count a) (enqueue (hash_futex a) t) s)
      | W_count a \<Rightarrow> Some (kmove t (W_unlock a) (waiters_inc (hash_futex a)) s)
      | W_unlock a \<Rightarrow> Some (unlock_bucket t (hash_futex a) W_sleep s)
      | W_sleep \<Rightarrow>
          (case schedule (q_task (futex_qs k t)) of
             Some task \<Rightarrow>
               Some (release_node t (kmove t (K_return 0) (set_q t (\<lambda>n. n\<lparr>q_task := task\<rparr>)) s))
           | None \<Rightarrow>
               Some (kmove t W_sleep (set_q t (\<lambda>n. n\<lparr>q_task := schedule_wait (q_task n)\<rparr>)) s))
      | V_fast a n \<Rightarrow>
          Some (kmove t (if k_load_relaxed (hb_waiters (buckets k (hash_futex a))) = 0
                         then K_return 0 else V_lock a n) id s)
      | V_lock a n \<Rightarrow>
          Some (lock_bucket t spurious (hash_futex a) (V_loop a n (Chain_of (hash_futex a)) 0) s)
      | V_loop a n pp ret \<Rightarrow>
          (case deref k pp of
             None \<Rightarrow> Some (kmove t (V_unlock a ret) id s)
           | Some q \<Rightarrow>
               if ret < n
               then if q_uaddr (futex_qs k q) \<noteq> a
                    then Some (kmove t (V_loop a n (Next_of q) ret) id s)
                    else Some (kmove t (V_count a n pp ret q) (dequeue pp q) s)
               else Some (kmove t (V_unlock a ret) id s))
      | V_count a n pp ret q \<Rightarrow>
          Some (kmove t (V_wake a n pp ret q) (waiters_dec (hash_futex a)) s)
      | V_wake a n pp ret q \<Rightarrow> Some (kmove t (V_loop a n pp (ret + 1)) (wake_task q) s)
      | V_unlock a ret \<Rightarrow> Some (unlock_bucket t (hash_futex a) (K_return ret) s)
      | _ \<Rightarrow> None)"

text \<open>
  The actions: a thread enters one of the two routines, makes a step, returns to userspace; and
  userspace stores to a word.
\<close>

datatype kaction =
    Enter_wait tid addr u32
  | Enter_wake tid addr int
  | Kernel_step tid bool
  | Leave tid
  | Store addr u32

fun kernel_act :: "kaction \<Rightarrow> ksys \<Rightarrow> ksys option" where
  "kernel_act (Enter_wait t a val) s =
     (if kpcs s t = K_user
      then Some (kmove t (W_lock a val) (set_q t (futex_q_init a)) s) else None)"
| "kernel_act (Enter_wake t a n) s =
     (if kpcs s t = K_user then Some (kmove t (V_fast a n) id s) else None)"
| "kernel_act (Kernel_step t spurious) s = kernel_step t spurious s"
| "kernel_act (Leave t) s =
     (case kpcs s t of K_return r \<Rightarrow> Some (kmove t K_user id s) | _ \<Rightarrow> None)"
| "kernel_act (Store a val) s =
     Some (s\<lparr>kern := (kern s)\<lparr>user_mem := (user_mem (kern s))(a := val)\<rparr>\<rparr>)"

definition kernel_start :: "ksys \<Rightarrow> bool" where
  "kernel_start s \<longleftrightarrow> kpcs s = (\<lambda>_. K_user) \<and>
     buckets (kern s) = (\<lambda>_. \<lparr>hb_lock = 0, hb_chain = None, hb_waiters = 0\<rparr>) \<and>
     (\<forall>q. q_lock_ptr (futex_qs (kern s) q) = None)"

section \<open>The invariant\<close>

text \<open>The bucket whose lock a thread holds at each point.\<close>

fun crit :: "kpc \<Rightarrow> nat option" where
  "crit (W_check a val) = Some (hash_futex a)"
| "crit (W_refuse a) = Some (hash_futex a)"
| "crit (W_enqueue a) = Some (hash_futex a)"
| "crit (W_count a) = Some (hash_futex a)"
| "crit (W_unlock a) = Some (hash_futex a)"
| "crit (V_loop a n pp ret) = Some (hash_futex a)"
| "crit (V_count a n pp ret q) = Some (hash_futex a)"
| "crit (V_wake a n pp ret q) = Some (hash_futex a)"
| "crit (V_unlock a ret) = Some (hash_futex a)"
| "crit _ = None"

text \<open>By how much the waiter count of the bucket lags behind the length of its queue.\<close>

fun lag :: "kpc \<Rightarrow> u32" where
  "lag (W_count a) = 1"
| "lag (V_count a n pp ret q) = - 1"
| "lag _ = 0"

fun waking :: "kpc \<Rightarrow> tid option" where
  "waking (V_count a n pp ret q) = Some q"
| "waking (V_wake a n pp ret q) = Some q"
| "waking _ = None"

definition node_is :: "futex_q \<Rightarrow> addr \<Rightarrow> nat option \<Rightarrow> bool" where
  "node_is m a l \<longleftrightarrow> q_uaddr m = a \<and> q_lock_ptr m = l \<and> \<not> wake_pending (q_task m)"

fun link_ok :: "kernel \<Rightarrow> addr \<Rightarrow> link \<Rightarrow> bool" where
  "link_ok k a (Chain_of b) \<longleftrightarrow> b = hash_futex a"
| "link_ok k a (Next_of y) \<longleftrightarrow> q_lock_ptr (futex_qs k y) = Some (hash_futex a)"

text \<open>
  A sleeper is on the queue of its bucket, or its wake-up has been delivered, or the thread that
  took it off the queue is about to deliver it.
\<close>

definition sleeper_ok :: "ksys \<Rightarrow> tid \<Rightarrow> bool" where
  "sleeper_ok s t \<longleftrightarrow>
     (let m = futex_qs (kern s) t in
      q_lock_ptr m = Some (hash_futex (q_uaddr m)) \<and> \<not> wake_pending (q_task m) \<or>
      q_lock_ptr m = None \<and> (wake_pending (q_task m) \<or> (\<exists>u. waking (kpcs s u) = Some t)))"

definition thread_ok :: "ksys \<Rightarrow> tid \<Rightarrow> bool" where
  "thread_ok s t \<longleftrightarrow>
     (let k = kern s; m = futex_qs k t in case kpcs s t of
        W_lock a val \<Rightarrow> node_is m a None
      | W_check a val \<Rightarrow> node_is m a None
      | W_refuse a \<Rightarrow> node_is m a None
      | W_enqueue a \<Rightarrow> node_is m a None
      | W_count a \<Rightarrow> node_is m a (Some (hash_futex a))
      | W_unlock a \<Rightarrow> node_is m a (Some (hash_futex a))
      | W_sleep \<Rightarrow> sleeper_ok s t
      | V_loop a n pp ret \<Rightarrow> q_lock_ptr m = None \<and> link_ok k a pp
      | V_count a n pp ret q \<Rightarrow> q_lock_ptr m = None \<and> link_ok k a pp \<and>
          kpcs s q = W_sleep \<and> node_is (futex_qs k q) a None
      | V_wake a n pp ret q \<Rightarrow> q_lock_ptr m = None \<and> link_ok k a pp \<and>
          kpcs s q = W_sleep \<and> node_is (futex_qs k q) a None
      | _ \<Rightarrow> q_lock_ptr m = None)"

definition mutex_ok :: "ksys \<Rightarrow> bool" where
  "mutex_ok s \<longleftrightarrow>
     (\<forall>b. hb_lock (buckets (kern s) b) = (if \<exists>t. crit (kpcs s t) = Some b then 1 else 0)) \<and>
     (\<forall>t u b. crit (kpcs s t) = Some b \<and> crit (kpcs s u) = Some b \<longrightarrow> t = u)"

definition queue_ok :: "ksys \<Rightarrow> nat \<Rightarrow> tid list \<Rightarrow> bool" where
  "queue_ok s b xs \<longleftrightarrow>
     queue (kern s) b xs \<and> distinct xs \<and>
     set xs = {q. q_lock_ptr (futex_qs (kern s) q) = Some b} \<and>
     (\<forall>t. crit (kpcs s t) = Some b \<longrightarrow>
        hb_waiters (buckets (kern s) b) + lag (kpcs s t) = of_nat (length xs)) \<and>
     ((\<forall>t. crit (kpcs s t) \<noteq> Some b) \<longrightarrow> hb_waiters (buckets (kern s) b) = of_nat (length xs))"

definition kernel_inv :: "ksys \<Rightarrow> bool" where
  "kernel_inv s \<longleftrightarrow> mutex_ok s \<and> (\<forall>b. \<exists>xs. queue_ok s b xs) \<and> (\<forall>t. thread_ok s t)"

lemma kmove_simps [simp]:
  "kern (kmove t p f s) = f (kern s)"
  "kpcs (kmove t p f s) u = (if u = t then p else kpcs s u)"
  by (simp_all add: kmove_def)

lemma kernel_start_inv: "kernel_start s \<Longrightarrow> kernel_inv s"
  by (auto simp: kernel_start_def kernel_inv_def mutex_ok_def queue_ok_def thread_ok_def
        deref.simps intro: exI [of _ "[]"])

subsection \<open>The lock\<close>

lemma hb_set_lock_simps [simp]:
  "deref (hb_set_lock b l k) lk = deref k lk"
  "futex_qs (hb_set_lock b l k) = futex_qs k"
  "hb_waiters (buckets (hb_set_lock b l k) b') = hb_waiters (buckets k b')"
  "hb_lock (buckets (hb_set_lock b l k) b') = (if b' = b then l else hb_lock (buckets k b'))"
  "user_mem (hb_set_lock b l k) = user_mem k"
  by (cases lk; simp add: hb_set_lock_def deref.simps)+

lemma mutex_ok_keep:
  assumes "mutex_ok s" and "crit p = crit (kpcs s t)"
    and "\<And>b. hb_lock (buckets (f (kern s)) b) = hb_lock (buckets (kern s) b)"
  shows "mutex_ok (kmove t p f s)"
proof -
  have "crit (kpcs (kmove t p f s) u) = crit (kpcs s u)" for u using assms(2) by simp
  with assms(1,3) show ?thesis unfolding mutex_ok_def by (metis kmove_simps(1))
qed

lemma mutex_ok_lock:
  assumes "mutex_ok s" and "hb_lock (buckets (kern s) b) = 0" and "crit (kpcs s t) = None"
    and "crit p = Some b"
  shows "mutex_ok (kmove t p (hb_set_lock b 1) s)" (is "mutex_ok ?s")
proof -
  have none: "crit (kpcs s u) \<noteq> Some b" for u
    using assms(1,2) unfolding mutex_ok_def by (metis zero_neq_one)
  have "crit (kpcs ?s u) = Some b' \<longleftrightarrow> (if b' = b then u = t else crit (kpcs s u) = Some b')" for u b'
    using assms(3,4) none by auto
  with assms(1) show ?thesis unfolding mutex_ok_def by simp metis
qed

lemma mutex_ok_unlock:
  assumes "mutex_ok s" and "crit (kpcs s t) = Some b" and "crit p = None"
  shows "mutex_ok (kmove t p (hb_set_lock b 0) s)" (is "mutex_ok ?s")
proof -
  have "crit (kpcs s u) \<noteq> Some b" if "u \<noteq> t" for u
    using assms(1,2) that unfolding mutex_ok_def by metis
  then have "crit (kpcs ?s u) = Some b' \<longleftrightarrow> b' \<noteq> b \<and> crit (kpcs s u) = Some b'" for u b'
    using assms(2,3) by auto
  with assms(1) show ?thesis unfolding mutex_ok_def by simp
qed

lemma spin_lock_Some: "spin_lock sp l = Some l' \<longleftrightarrow> l = 0 \<and> \<not> sp \<and> l' = 1"
  by (auto simp: spin_lock_def atomic_compare_exchange_weak_def)

lemma mutex_ok_lock_bucket:
  assumes "mutex_ok s" and "crit (kpcs s t) = None" and "crit p = Some b"
  shows "mutex_ok (lock_bucket t sp b p s)"
  using assms by (auto simp: lock_bucket_def spin_lock_Some intro: mutex_ok_lock split: option.splits)

lemma mutex_ok_unlock_bucket:
  assumes "mutex_ok s" and "crit (kpcs s t) = Some b" and "crit p = None"
  shows "mutex_ok (unlock_bucket t b p s)"
  using assms by (simp add: unlock_bucket_def spin_unlock_def atomic_store_def mutex_ok_unlock)

lemma kernel_act_mutex_ok:
  assumes ok: "mutex_ok s" and act: "kernel_act c s = Some s'"
  shows "mutex_ok s'"
proof (cases c)
  case (Kernel_step t sp)
  with act have step: "kernel_step t sp s = Some s'" by simp
  show ?thesis
  proof (cases "kpcs s t")
    case W_sleep
    with ok step show ?thesis
      by (auto simp: kernel_step_def split: option.splits intro: mutex_ok_keep)
  next
    case V_loop
    with ok step show ?thesis
      by (auto simp: kernel_step_def Let_def split: option.splits if_splits intro: mutex_ok_keep)
  qed (use ok step in \<open>auto simp: kernel_step_def
         intro!: mutex_ok_keep mutex_ok_lock_bucket mutex_ok_unlock_bucket\<close>)
next
  case (Store a val)
  with ok act show ?thesis by (auto simp: mutex_ok_def)
qed (use ok act in \<open>auto intro!: mutex_ok_keep split: if_splits kpc.splits\<close>)

subsection \<open>The queues\<close>

lemma lseg_next_in:
  "lseg k p xs \<Longrightarrow> y \<in> set xs \<Longrightarrow> deref k (Next_of y) = Some q \<Longrightarrow> q \<in> set xs"
proof (induction xs arbitrary: p)
  case (Cons x xs)
  then show ?case by (cases xs) auto
qed simp

lemma lseg_dequeue_next:
  assumes "lseg k p xs" and "distinct xs" and "y \<in> set xs" and "deref k (Next_of y) = Some q"
  shows "lseg (dequeue (Next_of y) q k) p (remove1 q xs)"
  using assms
proof (induction xs arbitrary: p)
  case (Cons x xs)
  show ?case
  proof (cases "y = x")
    case True
    with Cons.prems obtain zs where xs: "xs = q # zs" by (cases xs) auto
    have "lseg (dequeue (Next_of x) q k) l zs \<longleftrightarrow> lseg k l zs" for l
      using Cons.prems(2) True xs by (intro lseg_cong) auto
    with Cons.prems True xs show ?thesis by auto
  next
    case False
    with Cons.prems have y: "y \<in> set xs" by simp
    with Cons.prems have "q \<noteq> x"
      using lseg_next_in [of k "deref k (Next_of x)" xs y q] by auto
    with Cons False y show ?thesis by auto
  qed
qed simp

lemma lseg_dequeue_chain:
  assumes "lseg k (deref k (Chain_of b)) xs" and "distinct xs" and "deref k (Chain_of b) = Some q"
  shows "lseg (dequeue (Chain_of b) q k) (deref (dequeue (Chain_of b) q k) (Chain_of b)) (remove1 q xs)"
proof -
  obtain zs where "xs = q # zs" using assms by (cases xs) auto
  moreover have "lseg (dequeue (Chain_of b) q k) l zs \<longleftrightarrow> lseg k l zs" for l
    by (intro lseg_cong) auto
  ultimately show ?thesis using assms by auto
qed

lemma queue_ok_keep:
  assumes "queue_ok s b xs" and "crit p = crit (kpcs s t)" and "lag p = lag (kpcs s t)"
    and "\<And>l. deref (f (kern s)) l = deref (kern s) l"
    and "\<And>q. q_lock_ptr (futex_qs (f (kern s)) q) = q_lock_ptr (futex_qs (kern s) q)"
    and "\<And>b. hb_waiters (buckets (f (kern s)) b) = hb_waiters (buckets (kern s) b)"
  shows "queue_ok (kmove t p f s) b xs"
proof -
  have "lseg (f (kern s)) l xs \<longleftrightarrow> lseg (kern s) l xs" for l
    by (rule lseg_cong) (simp add: assms(4))
  moreover have "crit (kpcs (kmove t p f s) u) = crit (kpcs s u)"
    and "lag (kpcs (kmove t p f s) u) = lag (kpcs s u)" for u using assms(2,3) by simp_all
  ultimately show ?thesis using assms(1) unfolding queue_ok_def
    by (simp only: kmove_simps(1) assms(4,5,6)) simp
qed


lemma queue_ok_lock_bucket:
  assumes ok: "queue_ok s b xs" and m: "mutex_ok s" and p: "crit (kpcs s t) = None" "lag p = 0"
    "crit p = Some b'"
  shows "queue_ok (lock_bucket t sp b' p s) b xs"
proof (cases "spin_lock sp (hb_lock (buckets (kern s) b'))")
  case (Some l)
  let ?s = "kmove t p (hb_set_lock b' l) s"
  from Some m have none: "crit (kpcs s u) \<noteq> Some b'" for u
    by (auto simp: spin_lock_Some mutex_ok_def split: if_splits)
  have "lseg (kern ?s) l xs \<longleftrightarrow> lseg (kern s) l xs" for l
    by (rule lseg_cong) simp
  moreover have "crit (kpcs ?s u) = Some b \<longleftrightarrow> (if b = b' then u = t else crit (kpcs s u) = Some b)"
    and "u \<noteq> t \<Longrightarrow> kpcs ?s u = kpcs s u" for u
    using p none by auto
  ultimately have "queue_ok ?s b xs"
    using ok none p unfolding queue_ok_def by (cases "b = b'") auto
  with Some show ?thesis by (simp add: lock_bucket_def)
qed (use ok in \<open>simp add: lock_bucket_def\<close>)

lemma queue_ok_unlock_bucket:
  assumes ok: "queue_ok s b xs" and m: "mutex_ok s" and p: "crit (kpcs s t) = Some b'"
    "lag (kpcs s t) = 0" "crit p = None"
  shows "queue_ok (unlock_bucket t b' p s) b xs"
proof -
  let ?s = "unlock_bucket t b' p s"
  from m p have other: "crit (kpcs s u) \<noteq> Some b'" if "u \<noteq> t" for u
    using that unfolding mutex_ok_def by metis
  have "lseg (kern ?s) l xs \<longleftrightarrow> lseg (kern s) l xs" for l
    by (rule lseg_cong) (simp add: unlock_bucket_def)
  moreover have "crit (kpcs ?s u) = Some b \<longleftrightarrow> b \<noteq> b' \<and> crit (kpcs s u) = Some b"
    and "u \<noteq> t \<Longrightarrow> kpcs ?s u = kpcs s u" for u
    using p other by (auto simp: unlock_bucket_def)
  ultimately show ?thesis
    using ok p unfolding queue_ok_def by (cases "b = b'") (auto simp: unlock_bucket_def)
qed

text \<open>Only the owner of the bucket lock changes the queue or the count.\<close>

lemma queue_ok_owner:
  assumes ok: "queue_ok s b xs" and m: "mutex_ok s" and p: "crit (kpcs s t) = Some b'" "crit p = Some b'"
    and other: "b \<noteq> b' \<Longrightarrow> queue (f (kern s)) b xs \<and>
        {q. q_lock_ptr (futex_qs (f (kern s)) q) = Some b} = {q. q_lock_ptr (futex_qs (kern s) q) = Some b} \<and>
        hb_waiters (buckets (f (kern s)) b) = hb_waiters (buckets (kern s) b)"
    and own: "b = b' \<Longrightarrow> queue (f (kern s)) b ys \<and> distinct ys \<and>
        set ys = {q. q_lock_ptr (futex_qs (f (kern s)) q) = Some b} \<and>
        hb_waiters (buckets (f (kern s)) b) + lag p = of_nat (length ys)"
  shows "queue_ok (kmove t p f s) b (if b = b' then ys else xs)"
proof (cases "b = b'")
  case True
  from m p have "crit (kpcs s u) \<noteq> Some b'" if "u \<noteq> t" for u
    using that unfolding mutex_ok_def by metis
  with own p True show ?thesis unfolding queue_ok_def by auto
next
  case False
  then have "crit (kpcs (kmove t p f s) u) = Some b \<longleftrightarrow> crit (kpcs s u) = Some b"
    and "crit (kpcs s u) = Some b \<Longrightarrow> kpcs (kmove t p f s) u = kpcs s u" for u
    using p by auto
  with ok other False show ?thesis unfolding queue_ok_def by simp
qed

lemma set_q_task_deref [simp]: "deref (set_q t (\<lambda>n. n\<lparr>q_task := task\<rparr>) k) l = deref k l"
  by (cases l) (auto simp: deref.simps)

lemma queue_ok_own_waiters:
  assumes "queue_ok s b xs" and "crit (kpcs s t) = Some b"
  shows "hb_waiters (buckets (kern s) b) + lag (kpcs s t) = of_nat (length xs)"
  using assms by (simp add: queue_ok_def)

lemma queue_ok_enqueue:
  assumes inv: "queue_ok s b xs" "mutex_ok s" "thread_ok s t" and pc: "kpcs s t = W_enqueue a"
  shows "queue_ok (kmove t (W_count a) (enqueue (hash_futex a) t) s) b
           (if b = hash_futex a then t # xs else xs)"
proof (rule queue_ok_owner [OF inv(1,2)])
  from inv(1) have q: "queue (kern s) b xs" "distinct xs"
    "set xs = {q. q_lock_ptr (futex_qs (kern s) q) = Some b}" by (simp_all add: queue_ok_def)
  from inv(3) pc have t: "q_lock_ptr (futex_qs (kern s) t) = None"
    by (simp add: thread_ok_def node_is_def Let_def)
  with q(3) have notin: "t \<notin> set xs" by auto
  then have lseg: "lseg (enqueue (hash_futex a) t (kern s)) l xs \<longleftrightarrow> lseg (kern s) l xs" for l
    by (intro lseg_cong) auto
  from q lseg t show "queue (enqueue (hash_futex a) t (kern s)) b xs \<and>
      {q. q_lock_ptr (futex_qs (enqueue (hash_futex a) t (kern s)) q) = Some b} =
      {q. q_lock_ptr (futex_qs (kern s) q) = Some b} \<and>
      hb_waiters (buckets (enqueue (hash_futex a) t (kern s)) b) = hb_waiters (buckets (kern s) b)"
    if "b \<noteq> hash_futex a" using that by auto
  show "queue (enqueue (hash_futex a) t (kern s)) b (t # xs) \<and> distinct (t # xs) \<and>
      set (t # xs) = {q. q_lock_ptr (futex_qs (enqueue (hash_futex a) t (kern s)) q) = Some b} \<and>
      hb_waiters (buckets (enqueue (hash_futex a) t (kern s)) b) + lag (W_count a) =
      of_nat (length (t # xs))" if "b = hash_futex a"
    using that q notin lseg queue_ok_own_waiters [OF inv(1), of t] pc by auto
qed (simp_all add: pc)

lemma queue_ok_count:
  assumes "queue_ok s b xs" "mutex_ok s" and pc: "crit (kpcs s t) = Some b'" "crit p = Some b'"
    and f: "f = waiters_inc b' \<and> lag (kpcs s t) = 1 \<and> lag p = 0 \<or>
            f = waiters_dec b' \<and> lag (kpcs s t) = - 1 \<and> lag p = 0"
  shows "queue_ok (kmove t p f s) b xs"
proof -
  have "lseg (f (kern s)) l xs \<longleftrightarrow> lseg (kern s) l xs" for l
    using f by (intro lseg_cong) auto
  then have "queue_ok (kmove t p f s) b (if b = b' then xs else xs)"
    using assms(1,2) pc queue_ok_own_waiters [OF assms(1), of t] f
    by (intro queue_ok_owner) (auto simp: queue_ok_def algebra_simps)
  then show ?thesis by simp
qed

lemma link_target:
  assumes ok: "queue_ok s (hash_futex a) xs" and link: "link_ok (kern s) a pp"
    and q: "deref (kern s) pp = Some q"
  shows "q_lock_ptr (futex_qs (kern s) q) = Some (hash_futex a)"
    and "queue (dequeue pp q (kern s)) (hash_futex a) (remove1 q xs)"
proof -
  let ?k = "kern s" and ?b = "hash_futex a"
  from ok have xs: "queue ?k ?b xs" "distinct xs"
    "set xs = {q. q_lock_ptr (futex_qs ?k q) = Some ?b}" by (simp_all add: queue_ok_def)
  have "q \<in> set xs \<and> queue (dequeue pp q ?k) ?b (remove1 q xs)"
  proof (cases pp)
    case (Chain_of b')
    with link xs q show ?thesis
      using lseg_dequeue_chain [of ?k ?b xs q] by (cases xs) auto
  next
    case (Next_of y)
    with link xs have "y \<in> set xs" by auto
    with Next_of xs q show ?thesis
      using lseg_dequeue_next [of ?k _ xs y q] lseg_next_in [of ?k _ xs y q] by auto
  qed
  with xs show "q_lock_ptr (futex_qs (kern s) q) = Some ?b"
    and "queue (dequeue pp q (kern s)) ?b (remove1 q xs)" by auto
qed

lemma queue_ok_dequeue:
  assumes inv: "queue_ok s b xs" "mutex_ok s" "link_ok (kern s) a pp"
    and pc: "kpcs s t = V_loop a n pp ret" and q: "deref (kern s) pp = Some q"
    and lock_ptr: "q_lock_ptr (futex_qs (kern s) q) = Some (hash_futex a)"
  shows "queue_ok (kmove t (V_count a n pp ret q) (dequeue pp q) s) b
           (if b = hash_futex a then remove1 q xs else xs)"
proof (rule queue_ok_owner [OF inv(1,2)])
  let ?k = "kern s"
  from inv(1) have xs: "queue ?k b xs" "distinct xs"
    "set xs = {q. q_lock_ptr (futex_qs ?k q) = Some b}" by (simp_all add: queue_ok_def)
  show "queue (dequeue pp q ?k) b (remove1 q xs) \<and> distinct (remove1 q xs) \<and>
      set (remove1 q xs) = {r. q_lock_ptr (futex_qs (dequeue pp q ?k) r) = Some b} \<and>
      hb_waiters (buckets (dequeue pp q ?k) b) + lag (V_count a n pp ret q) =
      of_nat (length (remove1 q xs))" if b: "b = hash_futex a"
  proof -
    have "q \<in> set xs" using xs(3) lock_ptr b by simp
    then have "length xs = Suc (length (remove1 q xs))"
      using length_pos_if_in_set [of q xs] by (simp add: length_remove1)
    moreover have "queue (dequeue pp q ?k) b (remove1 q xs)"
      using link_target(2) [OF _ inv(3) q] inv(1) b by simp
    ultimately show ?thesis
      using xs b queue_ok_own_waiters [OF inv(1), of t] pc by auto
  qed
  show "queue (dequeue pp q ?k) b xs \<and>
      {r. q_lock_ptr (futex_qs (dequeue pp q ?k) r) = Some b} =
      {r. q_lock_ptr (futex_qs ?k r) = Some b} \<and>
      hb_waiters (buckets (dequeue pp q ?k) b) = hb_waiters (buckets ?k b)" if b: "b \<noteq> hash_futex a"
  proof -
    have "pp \<noteq> Chain_of b" "\<forall>x \<in> set xs. pp \<noteq> Next_of x"
      using inv(3) b xs(3) by (auto simp: link_ok.simps)
    then have "deref (dequeue pp q ?k) (Chain_of b) = deref ?k (Chain_of b)" by auto
    moreover have "lseg (dequeue pp q ?k) p xs \<longleftrightarrow> lseg ?k p xs" for p
      by (rule lseg_cong) (use \<open>\<forall>x \<in> set xs. pp \<noteq> Next_of x\<close> in auto)
    ultimately show ?thesis using xs b lock_ptr by auto
  qed
qed (simp_all add: pc)

text \<open>Every action keeps the queues well formed.\<close>

lemma kernel_step_queue_ok:
  assumes inv: "kernel_inv s" and step: "kernel_step t sp s = Some s'"
  shows "\<exists>ys. queue_ok s' b ys"
proof -
  from inv have m: "mutex_ok s" and t: "thread_ok s t" by (auto simp: kernel_inv_def)
  from inv obtain xs where xs: "queue_ok s b xs" by (auto simp: kernel_inv_def)
  show ?thesis
  proof (cases "kpcs s t")
    case (W_lock a val)
    with step have "s' = lock_bucket t sp (hash_futex a) (W_check a val) s"
      by (simp add: kernel_step_def)
    with W_lock show ?thesis by (auto intro!: exI queue_ok_lock_bucket [OF xs m])
  next
    case (W_check a val)
    with step xs show ?thesis
      by (auto simp: kernel_step_def Let_def intro!: exI queue_ok_keep)
  next
    case (W_refuse a)
    with step have "s' = unlock_bucket t (hash_futex a) (K_return (- EWOULDBLOCK)) s"
      by (simp add: kernel_step_def)
    with W_refuse show ?thesis by (auto intro!: exI queue_ok_unlock_bucket [OF xs m])
  next
    case (W_enqueue a)
    with step queue_ok_enqueue [OF xs m t W_enqueue] show ?thesis
      by (auto simp: kernel_step_def Let_def)
  next
    case (W_count a)
    with step have "s' = kmove t (W_unlock a) (waiters_inc (hash_futex a)) s"
      by (simp add: kernel_step_def)
    with W_count show ?thesis by (auto intro!: exI queue_ok_count [OF xs m])
  next
    case (W_unlock a)
    with step have "s' = unlock_bucket t (hash_futex a) W_sleep s"
      by (simp add: kernel_step_def)
    with W_unlock show ?thesis by (auto intro!: exI queue_ok_unlock_bucket [OF xs m])
  next
    case W_sleep
    with step xs show ?thesis
      by (auto simp: kernel_step_def Let_def split: option.splits intro!: exI queue_ok_keep)
  next
    case (V_fast a n)
    with step xs show ?thesis
      by (auto simp: kernel_step_def Let_def intro!: exI queue_ok_keep)
  next
    case (V_lock a n)
    with step have "s' = lock_bucket t sp (hash_futex a) (V_loop a n (Chain_of (hash_futex a)) 0) s"
      by (simp add: kernel_step_def)
    with V_lock show ?thesis by (auto intro!: exI queue_ok_lock_bucket [OF xs m])
  next
    case (V_loop a n pp ret)
    have link: "link_ok (kern s) a pp" using t V_loop by (simp add: thread_ok_def Let_def)
    from step V_loop consider p where "s' = kmove t p id s" "crit p = Some (hash_futex a)" "lag p = 0"
      | q where "deref (kern s) pp = Some q" "s' = kmove t (V_count a n pp ret q) (dequeue pp q) s"
      by (auto simp: kernel_step_def Let_def split: option.splits if_splits)
    then show ?thesis
    proof cases
      case 1
      with xs V_loop show ?thesis by (auto intro!: exI queue_ok_keep)
    next
      case (2 q)
      obtain zs where "queue_ok s (hash_futex a) zs" using inv by (auto simp: kernel_inv_def)
      with queue_ok_dequeue [OF xs m link V_loop 2(1)] link_target(1) link 2 show ?thesis by blast
    qed
  next
    case (V_count a n pp ret q)
    with step have "s' = kmove t (V_wake a n pp ret q) (waiters_dec (hash_futex a)) s"
      by (simp add: kernel_step_def)
    with V_count show ?thesis by (auto intro!: exI queue_ok_count [OF xs m])
  next
    case (V_wake a n pp ret q)
    with step xs show ?thesis
      by (auto simp: kernel_step_def Let_def intro!: exI queue_ok_keep)
  next
    case (V_unlock a ret)
    with step have "s' = unlock_bucket t (hash_futex a) (K_return ret) s"
      by (simp add: kernel_step_def)
    with V_unlock show ?thesis by (auto intro!: exI queue_ok_unlock_bucket [OF xs m])
  qed (use step in \<open>simp_all add: kernel_step_def\<close>)
qed

lemma kernel_act_queue_ok:
  assumes inv: "kernel_inv s" and act: "kernel_act c s = Some s'"
  shows "\<exists>ys. queue_ok s' b ys"
proof -
  from inv obtain xs where xs: "queue_ok s b xs" by (auto simp: kernel_inv_def)
  show ?thesis
  proof (cases c)
    case (Enter_wait t a val)
    from inv have "thread_ok s t" by (simp add: kernel_inv_def)
    with act Enter_wait have t: "q_lock_ptr (futex_qs (kern s) t) = None" "kpcs s t = K_user"
      and s': "s' = kmove t (W_lock a val) (set_q t (futex_q_init a)) s"
      by (auto simp: thread_ok_def Let_def split: if_splits)
    let ?k = "set_q t (futex_q_init a) (kern s)"
    have link: "deref ?k l = (if l = Next_of t then None else deref (kern s) l)" for l
      by (cases l) (simp_all add: deref.simps futex_q_init_def)
    have "t \<notin> set xs" using xs t by (auto simp: queue_ok_def)
    then have "lseg ?k l xs \<longleftrightarrow> lseg (kern s) l xs" for l
      by (intro lseg_cong) (auto simp: link)
    moreover have "{q. q_lock_ptr (futex_qs ?k q) = Some b} = {q. q_lock_ptr (futex_qs (kern s) q) = Some b}"
      using t by (auto simp: futex_q_init_def)
    moreover have "crit (kpcs s' u) = crit (kpcs s u)" "lag (kpcs s' u) = lag (kpcs s u)" for u
      using s' t by simp_all
    ultimately have "queue_ok s' b xs"
      using xs s' by (simp add: queue_ok_def link)
    then show ?thesis ..
  next
    case (Kernel_step t sp)
    with inv act show ?thesis by (auto intro: kernel_step_queue_ok)
  next
    case (Store a val)
    have "lseg (k\<lparr>user_mem := m\<rparr>) l xs \<longleftrightarrow> lseg k l xs" for k m l
    proof (rule lseg_cong)
      show "deref (k\<lparr>user_mem := m\<rparr>) (Next_of x) = deref k (Next_of x)" for x
        by (simp add: deref.simps)
    qed
    with act xs Store have "queue_ok s' b xs" by (auto simp: queue_ok_def deref.simps)
    then show ?thesis ..
  qed (use xs act in \<open>auto intro!: exI queue_ok_keep split: if_splits kpc.splits\<close>)
qed

subsection \<open>The threads\<close>

text \<open>What the invariant of a thread says of a node.\<close>

definition view :: "futex_q \<Rightarrow> addr \<times> nat option \<times> bool" where
  "view m = (q_uaddr m, q_lock_ptr m, wake_pending (q_task m))"

lemma view_eq: "view m' = view m \<longleftrightarrow> q_uaddr m' = q_uaddr m \<and> q_lock_ptr m' = q_lock_ptr m \<and>
    wake_pending (q_task m') = wake_pending (q_task m)"
  by (auto simp: view_def)

lemma link_ok_stable:
  assumes "link_ok k a pp"
    and "\<And>y. q_lock_ptr (futex_qs k y) = Some (hash_futex a) \<Longrightarrow>
               q_lock_ptr (futex_qs k' y) = Some (hash_futex a)"
  shows "link_ok k' a pp"
  using assms by (cases pp) auto

lemma thread_ok_other:
  assumes ok: "thread_ok s u" and u: "u \<noteq> t"
    and own: "view (futex_qs (f (kern s)) u) = view (futex_qs (kern s) u)"
    and links: "\<And>y b. crit (kpcs s u) = Some b \<Longrightarrow> q_lock_ptr (futex_qs (kern s) y) = Some b \<Longrightarrow>
        q_lock_ptr (futex_qs (f (kern s)) y) = Some b"
    and woken: "\<And>q. waking (kpcs s u) = Some q \<Longrightarrow>
        view (futex_qs (f (kern s)) q) = view (futex_qs (kern s) q) \<and> (q = t \<longrightarrow> p = W_sleep)"
    and waker: "waking (kpcs s t) = Some u \<Longrightarrow> waking p = Some u"
  shows "thread_ok (kmove t p f s) u"
proof (cases "kpcs s u")
  case W_sleep
  have ex: "\<exists>v. waking (kpcs (kmove t p f s) v) = Some u" if "\<exists>v. waking (kpcs s v) = Some u"
    using that waker by (metis kmove_simps(2))
  from ok W_sleep have "sleeper_ok s u" by (simp add: thread_ok_def Let_def)
  then have "sleeper_ok (kmove t p f s) u"
    using own ex unfolding sleeper_ok_def Let_def view_eq kmove_simps(1) by metis
  with W_sleep u show ?thesis by (simp add: thread_ok_def Let_def)
next
  case (V_loop a n pp ret)
  with ok u own links show ?thesis
    by (auto simp: thread_ok_def Let_def view_eq intro: link_ok_stable)
next
  case (V_count a n pp ret q)
  with ok u own links woken [of q] show ?thesis
    by (auto simp: thread_ok_def Let_def view_eq node_is_def intro: link_ok_stable)
next
  case (V_wake a n pp ret q)
  with ok u own links woken [of q] show ?thesis
    by (auto simp: thread_ok_def Let_def view_eq node_is_def intro: link_ok_stable)
qed (use ok u own in \<open>simp_all add: thread_ok_def Let_def view_eq node_is_def\<close>)

text \<open>A step that leaves the nodes alone and wakes whom it woke before.\<close>

lemma thread_ok_same_nodes:
  assumes ok: "thread_ok s u" and u: "u \<noteq> t" and nodes: "futex_qs (f (kern s)) = futex_qs (kern s)"
    and t: "kpcs s t \<noteq> W_sleep" "waking p = waking (kpcs s t)"
  shows "thread_ok (kmove t p f s) u"
proof (rule thread_ok_other [OF ok u])
  show "view (futex_qs (f (kern s)) q) = view (futex_qs (kern s) q) \<and> (q = t \<longrightarrow> p = W_sleep)"
    if "waking (kpcs s u) = Some q" for q
    using that ok t(1) nodes by (cases "kpcs s u") (auto simp: thread_ok_def Let_def)
qed (use nodes t in simp_all)

lemma thread_ok_lock_bucket:
  assumes ok: "thread_ok s u" and t: "kpcs s t \<noteq> W_sleep" "waking (kpcs s t) = None" "waking p = None"
    and own: "u = t \<Longrightarrow> thread_ok (kmove t p (hb_set_lock b 1) s) t"
  shows "thread_ok (lock_bucket t sp b p s) u"
  using assms
  by (cases "u = t")
     (auto simp: lock_bucket_def spin_lock_Some intro: thread_ok_same_nodes split: option.splits)

lemma thread_ok_unlock_bucket:
  assumes ok: "thread_ok s u" and t: "kpcs s t \<noteq> W_sleep" "waking (kpcs s t) = None" "waking p = None"
    and own: "u = t \<Longrightarrow> thread_ok (kmove t p (hb_set_lock b 0) s) t"
  shows "thread_ok (unlock_bucket t b p s) u"
  using assms
  by (cases "u = t")
     (auto simp: unlock_bucket_def spin_unlock_def atomic_store_def intro: thread_ok_same_nodes)

lemma crit_unique: "mutex_ok s \<Longrightarrow> crit (kpcs s t) = Some b \<Longrightarrow> crit (kpcs s u) = Some b \<Longrightarrow> t = u"
  by (auto simp: mutex_ok_def)

text \<open>A queued node belongs to a thread that sleeps, or that is still inside the bucket lock.\<close>

lemma queued_thread:
  assumes "thread_ok s q" and "q_lock_ptr (futex_qs (kern s) q) = Some b"
  shows "crit (kpcs s q) = Some b \<or>
    kpcs s q = W_sleep \<and> hash_futex (q_uaddr (futex_qs (kern s) q)) = b \<and>
    \<not> wake_pending (q_task (futex_qs (kern s) q))"
  using assms
  by (cases "kpcs s q") (auto simp: thread_ok_def Let_def node_is_def sleeper_ok_def)

lemma lseg_self_link: "lseg k p xs \<Longrightarrow> distinct xs \<Longrightarrow> y \<in> set xs \<Longrightarrow> deref k (Next_of y) \<noteq> Some y"
proof (induction xs arbitrary: p)
  case (Cons x xs)
  then show ?case by (cases xs) auto
qed simp

lemma queued_hash:
  assumes "thread_ok s q" and "q_lock_ptr (futex_qs (kern s) q) = Some b"
  shows "hash_futex (q_uaddr (futex_qs (kern s) q)) = b"
  using assms
  by (cases "kpcs s q") (auto simp: thread_ok_def Let_def node_is_def sleeper_ok_def)


lemma kernel_invD:
  assumes "kernel_inv s"
  shows "mutex_ok s" and "thread_ok s t" and "\<exists>xs. queue_ok s b xs"
  using assms by (auto simp: kernel_inv_def)

lemma thread_ok_enqueue:
  assumes inv: "kernel_inv s" and pc: "kpcs s t = W_enqueue a"
  shows "thread_ok (kmove t (W_count a) (enqueue (hash_futex a) t) s) u"
proof (cases "u = t")
  case True
  with kernel_invD(2) [OF inv, of t] pc show ?thesis
    by (simp add: thread_ok_def Let_def node_is_def)
next
  case False
  from kernel_invD(2) [OF inv, of t] pc have t: "q_lock_ptr (futex_qs (kern s) t) = None"
    by (simp add: thread_ok_def Let_def node_is_def)
  show ?thesis
  proof (rule thread_ok_other [OF kernel_invD(2) [OF inv] False])
    show "view (futex_qs (enqueue (hash_futex a) t (kern s)) q) = view (futex_qs (kern s) q) \<and>
        (q = t \<longrightarrow> W_count a = W_sleep)" if "waking (kpcs s u) = Some q" for q
      using that kernel_invD(2) [OF inv, of u] pc
      by (cases "kpcs s u") (auto simp: thread_ok_def Let_def view_eq)
  qed (use False t pc in \<open>auto simp: view_eq\<close>)
qed

lemma thread_ok_dequeue:
  assumes inv: "kernel_inv s" and pc: "kpcs s t = V_loop a n pp ret"
    and q: "deref (kern s) pp = Some q" "q_uaddr (futex_qs (kern s) q) = a"
  shows "thread_ok (kmove t (V_count a n pp ret q) (dequeue pp q) s) u"
proof -
  let ?k = "kern s" and ?b = "hash_futex a"
  from kernel_invD(2) [OF inv, of t] pc have t: "q_lock_ptr (futex_qs ?k t) = None"
    and link: "link_ok ?k a pp" by (simp_all add: thread_ok_def Let_def)
  from kernel_invD(3) [OF inv] obtain xs where xs: "queue_ok s ?b xs" by blast
  have lock_ptr: "q_lock_ptr (futex_qs ?k q) = Some ?b"
    using link_target(1) [OF xs link q(1)] .
  have tq: "t \<noteq> q" using t lock_ptr by auto
  have crit_t: "u' = t" if "crit (kpcs s u') = Some ?b" for u'
    using crit_unique [OF kernel_invD(1) [OF inv] that, of t] pc by simp
  have sleep: "kpcs s q = W_sleep" "\<not> wake_pending (q_task (futex_qs ?k q))"
    using queued_thread [OF kernel_invD(2) [OF inv] lock_ptr] crit_t [of q] tq by auto
  consider "u = t" | "u = q" "u \<noteq> t" | "u \<noteq> q" "u \<noteq> t" by blast
  then show ?thesis
  proof cases
    case 1
    have "pp \<noteq> Next_of q"
    proof
      assume "pp = Next_of q"
      with q xs lock_ptr show False by (auto simp: queue_ok_def dest: lseg_self_link)
    qed
    with link have "link_ok (dequeue pp q ?k) a pp" by (cases pp) auto
    with 1 sleep t q tq show ?thesis by (simp add: thread_ok_def Let_def node_is_def)
  next
    case 2
    with sleep q have "sleeper_ok (kmove t (V_count a n pp ret q) (dequeue pp q) s) u"
      by (auto simp: sleeper_ok_def Let_def intro: exI [of _ t])
    with 2 sleep show ?thesis by (simp add: thread_ok_def Let_def)
  next
    case 3
    show ?thesis
    proof (rule thread_ok_other [OF kernel_invD(2) [OF inv] 3(2)])
      show "q_lock_ptr (futex_qs (dequeue pp q ?k) y) = Some b"
        if "crit (kpcs s u) = Some b" "q_lock_ptr (futex_qs ?k y) = Some b" for y b
        using that lock_ptr crit_t [of u] 3 by auto
      show "view (futex_qs (dequeue pp q ?k) r) = view (futex_qs ?k r) \<and>
          (r = t \<longrightarrow> V_count a n pp ret q = W_sleep)" if "waking (kpcs s u) = Some r" for r
        using that kernel_invD(2) [OF inv, of u] pc lock_ptr
        by (cases "kpcs s u") (auto simp: thread_ok_def Let_def view_eq node_is_def)
    qed (use 3 pc in \<open>auto simp: view_eq\<close>)
  qed
qed

lemma thread_ok_wake:
  assumes inv: "kernel_inv s" and pc: "kpcs s t = V_wake a n pp ret q"
  shows "thread_ok (kmove t (V_loop a n pp (ret + 1)) (wake_task q) s) u"
proof -
  let ?k = "kern s" and ?b = "hash_futex a"
  from kernel_invD(2) [OF inv, of t] pc have t: "q_lock_ptr (futex_qs ?k t) = None"
    "link_ok ?k a pp" "kpcs s q = W_sleep" "node_is (futex_qs ?k q) a None"
    by (simp_all add: thread_ok_def Let_def)
  have tq: "t \<noteq> q" using t pc by auto
  consider "u = t" | "u = q" "u \<noteq> t" | "u \<noteq> q" "u \<noteq> t" by blast
  then show ?thesis
  proof cases
    case 1
    have "link_ok (wake_task q ?k) a pp" using t(2) by (cases pp) auto
    with 1 t tq show ?thesis by (simp add: thread_ok_def Let_def)
  next
    case 2
    with t show ?thesis by (simp add: thread_ok_def Let_def sleeper_ok_def node_is_def)
  next
    case 3
    show ?thesis
    proof (rule thread_ok_other [OF kernel_invD(2) [OF inv] 3(2)])
      show "view (futex_qs (wake_task q ?k) r) = view (futex_qs ?k r) \<and>
          (r = t \<longrightarrow> V_loop a n pp (ret + 1) = W_sleep)" if r: "waking (kpcs s u) = Some r" for r
      proof -
        from r have "kpcs s r = W_sleep" "crit (kpcs s u) = Some (hash_futex (q_uaddr (futex_qs ?k r)))"
          using kernel_invD(2) [OF inv, of u]
          by (cases "kpcs s u"; auto simp: thread_ok_def Let_def node_is_def)+
        with crit_unique [OF kernel_invD(1) [OF inv], of u _ t] pc 3 t(4)
        show ?thesis by (auto simp: view_eq node_is_def)
      qed
    qed (use 3 pc in \<open>auto simp: view_eq\<close>)
  qed
qed

lemma thread_ok_sleep:
  assumes inv: "kernel_inv s" and pc: "kpcs s t = W_sleep"
    and task: "schedule (q_task (futex_qs (kern s) t)) = Some task"
  shows "thread_ok (kmove t (K_return 0) (set_q t (\<lambda>n. n\<lparr>q_task := task\<rparr>)) s) u"
proof (cases "u = t")
  case True
  from task have pending: "wake_pending (q_task (futex_qs (kern s) t))"
    by (simp add: schedule_eq split: if_splits)
  with kernel_invD(2) [OF inv, of t] pc True show ?thesis
    by (simp add: thread_ok_def Let_def sleeper_ok_def)
next
  case False
  show ?thesis
  proof (rule thread_ok_other [OF kernel_invD(2) [OF inv] False])
    show "view (futex_qs (set_q t (\<lambda>n. n\<lparr>q_task := task\<rparr>) (kern s)) r) = view (futex_qs (kern s) r) \<and>
        (r = t \<longrightarrow> K_return 0 = W_sleep)" if "waking (kpcs s u) = Some r" for r
      using that kernel_invD(2) [OF inv, of u] task
      by (cases "kpcs s u") (auto simp: thread_ok_def Let_def view_eq node_is_def schedule_eq
            split: if_splits)
  qed (use False pc in \<open>auto simp: view_eq\<close>)
qed

text \<open>All steps but five leave the nodes alone; only the thread that moved has to be checked.\<close>

lemma thread_ok_simple:
  assumes "kernel_inv s" and "futex_qs (f (kern s)) = futex_qs (kern s)"
    and "kpcs s t \<noteq> W_sleep" and "waking p = waking (kpcs s t)"
    and "thread_ok (kmove t p f s) t"
  shows "thread_ok (kmove t p f s) u"
  using assms by (cases "u = t") (auto intro: thread_ok_same_nodes kernel_invD(2))

lemma thread_ok_simple_lock:
  assumes "kernel_inv s" and "kpcs s t \<noteq> W_sleep" and "waking (kpcs s t) = None" "waking p = None"
    and "thread_ok (kmove t p (hb_set_lock b 1) s) t"
  shows "thread_ok (lock_bucket t sp b p s) u"
  using assms by (auto intro: thread_ok_lock_bucket kernel_invD(2))

lemma thread_ok_simple_unlock:
  assumes "kernel_inv s" and "kpcs s t \<noteq> W_sleep" and "waking (kpcs s t) = None" "waking p = None"
    and "thread_ok (kmove t p (hb_set_lock b 0) s) t"
  shows "thread_ok (unlock_bucket t b p s) u"
  using assms by (auto intro: thread_ok_unlock_bucket kernel_invD(2))

lemma link_ok_same_nodes:
  "futex_qs k' = futex_qs k \<Longrightarrow> link_ok k' a pp \<longleftrightarrow> link_ok k a pp"
  by (cases pp) auto

lemmas thread_defs = thread_ok_def Let_def node_is_def

lemma kernel_step_thread_ok:
  assumes inv: "kernel_inv s" and step: "kernel_step t sp s = Some s'"
  shows "thread_ok s' u"
proof -
  have own: "thread_ok s t" using inv by (rule kernel_invD)
  show ?thesis
  proof (cases "kpcs s t")
    case (W_enqueue a)
    with step inv show ?thesis
      by (auto simp: kernel_step_def Let_def intro: thread_ok_enqueue)
  next
    case (W_lock a val)
    then have t: "thread_ok (kmove t (W_check a val) (hb_set_lock (hash_futex a) 1) s) t"
      using own by (simp add: thread_defs)
    from W_lock step have s': "s' = lock_bucket t sp (hash_futex a) (W_check a val) s"
      by (simp add: kernel_step_def)
    show ?thesis unfolding s' by (rule thread_ok_simple_lock [OF inv]) (use W_lock t in simp_all)
  next
    case (W_refuse a)
    then have t: "thread_ok (kmove t (K_return (- EWOULDBLOCK)) (hb_set_lock (hash_futex a) 0) s) t"
      using own by (simp add: thread_defs)
    from W_refuse step have s': "s' = unlock_bucket t (hash_futex a) (K_return (- EWOULDBLOCK)) s"
      by (simp add: kernel_step_def)
    show ?thesis unfolding s' by (rule thread_ok_simple_unlock [OF inv]) (use W_refuse t in simp_all)
  next
    case (W_unlock a)
    then have t: "thread_ok (kmove t (W_sleep) (hb_set_lock (hash_futex a) 0) s) t"
      using own by (simp add: thread_defs sleeper_ok_def)
    from W_unlock step have s': "s' = unlock_bucket t (hash_futex a) (W_sleep) s"
      by (simp add: kernel_step_def)
    show ?thesis unfolding s' by (rule thread_ok_simple_unlock [OF inv]) (use W_unlock t in simp_all)
  next
    case (W_count a)
    then have t: "thread_ok (kmove t (W_unlock a) (waiters_inc (hash_futex a)) s) t"
      using own by (simp add: thread_defs)
    from W_count step have s': "s' = kmove t (W_unlock a) (waiters_inc (hash_futex a)) s"
      by (simp add: kernel_step_def)
    show ?thesis unfolding s' by (rule thread_ok_simple [OF inv]) (use W_count t in simp_all)
  next
    case (V_lock a n)
    then have t: "thread_ok (kmove t (V_loop a n (Chain_of (hash_futex a)) 0) (hb_set_lock (hash_futex a) 1) s) t"
      using own by (simp add: thread_defs)
    from V_lock step have s': "s' = lock_bucket t sp (hash_futex a) (V_loop a n (Chain_of (hash_futex a)) 0) s"
      by (simp add: kernel_step_def)
    show ?thesis unfolding s' by (rule thread_ok_simple_lock [OF inv]) (use V_lock t in simp_all)
  next
    case (V_unlock a ret)
    then have t: "thread_ok (kmove t (K_return ret) (hb_set_lock (hash_futex a) 0) s) t"
      using own by (simp add: thread_defs)
    from V_unlock step have s': "s' = unlock_bucket t (hash_futex a) (K_return ret) s"
      by (simp add: kernel_step_def)
    show ?thesis unfolding s' by (rule thread_ok_simple_unlock [OF inv]) (use V_unlock t in simp_all)
  next
    case (W_check a val)
    with step obtain p where s': "s' = kmove t p id s" and p: "p = W_refuse a \<or> p = W_enqueue a"
      by (auto simp: kernel_step_def Let_def)
    from p own W_check have t: "thread_ok (kmove t p id s) t" by (auto simp: thread_defs)
    show ?thesis unfolding s' by (rule thread_ok_simple [OF inv]) (use W_check p t in auto)
  next
    case (V_fast a n)
    with step obtain p where s': "s' = kmove t p id s" and p: "p = K_return 0 \<or> p = V_lock a n"
      by (auto simp: kernel_step_def Let_def)
    from p own V_fast have t: "thread_ok (kmove t p id s) t" by (auto simp: thread_defs)
    show ?thesis unfolding s' by (rule thread_ok_simple [OF inv]) (use V_fast p t in auto)
  next
    case (V_count a n pp ret q)
    have "link_ok (waiters_dec (hash_futex a) (kern s)) a pp \<longleftrightarrow> link_ok (kern s) a pp"
      by (rule link_ok_same_nodes) simp
    with V_count have t: "thread_ok (kmove t (V_wake a n pp ret q) (waiters_dec (hash_futex a)) s) t"
      using own by (auto simp: thread_defs)
    from V_count step have s': "s' = kmove t (V_wake a n pp ret q) (waiters_dec (hash_futex a)) s"
      by (simp add: kernel_step_def)
    show ?thesis unfolding s' by (rule thread_ok_simple [OF inv]) (use V_count t in simp_all)
  next
    case W_sleep
    with step inv show ?thesis
      by (auto simp: kernel_step_def Let_def intro: thread_ok_sleep kernel_invD(2) split: option.splits)
  next
    case (V_wake a n pp ret q)
    with step inv show ?thesis by (auto simp: kernel_step_def Let_def intro: thread_ok_wake)
  next
    case (V_loop a n pp ret)
    have t: "q_lock_ptr (futex_qs (kern s) t) = None" and link: "link_ok (kern s) a pp"
      using own V_loop by (simp_all add: thread_defs)
    from step V_loop consider "s' = kmove t (V_unlock a ret) id s"
      | q where "deref (kern s) pp = Some q" "s' = kmove t (V_loop a n (Next_of q) ret) id s"
      | q where "deref (kern s) pp = Some q" "q_uaddr (futex_qs (kern s) q) = a"
          "s' = kmove t (V_count a n pp ret q) (dequeue pp q) s"
      by (auto simp: kernel_step_def Let_def split: option.splits if_splits)
    then show ?thesis
    proof cases
      case 1
      have th: "thread_ok (kmove t (V_unlock a ret) id s) t" using t by (simp add: thread_defs)
      show ?thesis unfolding 1 by (rule thread_ok_simple [OF inv]) (use V_loop th in simp_all)
    next
      case (2 q)
      obtain xs where "queue_ok s (hash_futex a) xs" using kernel_invD(3) [OF inv] by blast
      with link_target(1) link 2 have "link_ok (kern s) a (Next_of q)" by simp
      with t have th: "thread_ok (kmove t (V_loop a n (Next_of q) ret) id s) t"
        by (simp add: thread_defs)
      show ?thesis unfolding 2(2) by (rule thread_ok_simple [OF inv]) (use V_loop th in simp_all)
    next
      case (3 q)
      with inv V_loop show ?thesis by (auto intro: thread_ok_dequeue)
    qed
  qed (use step in \<open>simp_all add: kernel_step_def\<close>)
qed

lemma kernel_act_thread_ok:
  assumes inv: "kernel_inv s" and act: "kernel_act c s = Some s'"
  shows "thread_ok s' u"
proof (cases c)
  case (Enter_wait t a val)
  with act have t: "kpcs s t = K_user"
    and s': "s' = kmove t (W_lock a val) (set_q t (futex_q_init a)) s"
    by (auto split: if_splits)
  have free: "q_lock_ptr (futex_qs (kern s) t) = None"
    using kernel_invD(2) [OF inv, of t] t by (simp add: thread_ok_def Let_def)
  show ?thesis
  proof (cases "u = t")
    case True
    with s' show ?thesis by (simp add: thread_ok_def Let_def node_is_def futex_q_init_def)
  next
    case False
    show ?thesis unfolding s'
    proof (rule thread_ok_other [OF kernel_invD(2) [OF inv] False])
      show "view (futex_qs (set_q t (futex_q_init a) (kern s)) r) = view (futex_qs (kern s) r) \<and>
          (r = t \<longrightarrow> W_lock a val = W_sleep)" if "waking (kpcs s u) = Some r" for r
        using that kernel_invD(2) [OF inv, of u] t
        by (cases "kpcs s u") (auto simp: thread_ok_def Let_def)
    qed (use False t free in auto)
  qed
next
  case (Enter_wake t a n)
  with act have t: "kpcs s t = K_user" and s': "s' = kmove t (V_fast a n) id s"
    by (auto split: if_splits)
  with kernel_invD(2) [OF inv, of t] have th: "thread_ok (kmove t (V_fast a n) id s) t"
    by (simp add: thread_defs)
  show ?thesis unfolding s' by (rule thread_ok_simple [OF inv]) (use t th in simp_all)
next
  case (Kernel_step t sp)
  with inv act show ?thesis by (auto intro: kernel_step_thread_ok)
next
  case (Leave t)
  with act obtain r where t: "kpcs s t = K_return r" and s': "s' = kmove t K_user id s"
    by (auto split: kpc.splits)
  with kernel_invD(2) [OF inv, of t] have th: "thread_ok (kmove t K_user id s) t"
    by (simp add: thread_defs)
  show ?thesis unfolding s' by (rule thread_ok_simple [OF inv]) (use t th in simp_all)
next
  case (Store a val)
  with act have s': "s' = s\<lparr>kern := (kern s)\<lparr>user_mem := (user_mem (kern s))(a := val)\<rparr>\<rparr>" by simp
  have "link_ok ((kern s)\<lparr>user_mem := m\<rparr>) a' pp \<longleftrightarrow> link_ok (kern s) a' pp" for m a' pp
    by (rule link_ok_same_nodes) simp
  then show ?thesis
    using kernel_invD(2) [OF inv, of u] unfolding s'
    by (cases "kpcs s u") (simp_all add: thread_defs sleeper_ok_def)
qed

interpretation kernel: safe_system kernel_act kernel_start kernel_inv
proof unfold_locales
  fix s c s' assume "kernel_inv s" "kernel_act c s = Some s'"
  then show "kernel_inv s'"
    using kernel_act_mutex_ok kernel_act_queue_ok kernel_act_thread_ok
    unfolding kernel_inv_def by blast
qed (rule kernel_start_inv)

section \<open>Properties\<close>

text \<open>The bucket spinlock is a mutual exclusion lock: in every reachable state its word is 1
  when some thread is between \<^verbatim>\<open>spin_lock\<close> and \<^verbatim>\<open>spin_unlock\<close> on that bucket and 0 otherwise,
  and there is at most one such thread.\<close>

theorem bucket_lock_mutual_exclusion:
  assumes "reachable kernel_act kernel_start s"
  shows "hb_lock (buckets (kern s) b) = (if \<exists>t. crit (kpcs s t) = Some b then 1 else 0) \<and>
    (\<exists>\<^sub>\<le>\<^sub>1 t. crit (kpcs s t) = Some b)"
  using kernel.reachable_inv [OF assms] by (simp add: kernel_inv_def mutex_ok_def Uniq_def)

text \<open>C12: the wait queues are never corrupted. In every reachable state, whatever the
  interleaving of waits, wakes and stores, each bucket's chain is a null-terminated list without
  repetition of exactly the nodes that point back to this bucket; when nobody holds the bucket
  lock the waiter count is its length; and every thread asleep in \<^verbatim>\<open>schedule\<close> is on the queue of
  the bucket of its own futex word, or its wake-up has been delivered, or the waker that has
  unlinked it is about to deliver it.\<close>

theorem futex_queues_correct:
  assumes "reachable kernel_act kernel_start s"
  shows "(\<exists>xs. queue (kern s) b xs \<and> distinct xs \<and>
        set xs = {q. q_lock_ptr (futex_qs (kern s) q) = Some b} \<and>
        (hb_lock (buckets (kern s) b) = 0 \<longrightarrow>
           hb_waiters (buckets (kern s) b) = of_nat (length xs))) \<and>
    (kpcs s t = W_sleep \<longrightarrow> sleeper_ok s t)"
proof -
  have inv: "kernel_inv s" using kernel.reachable_inv [OF assms] .
  from kernel_invD(3) [OF inv] obtain xs where "queue_ok s b xs" by blast
  moreover have "\<forall>t. crit (kpcs s t) \<noteq> Some b" if "hb_lock (buckets (kern s) b) = 0"
    using kernel_invD(1) [OF inv] that unfolding mutex_ok_def by (metis zero_neq_one)
  moreover have "kpcs s t = W_sleep \<longrightarrow> sleeper_ok s t"
    using kernel_invD(2) [OF inv, of t] by (auto simp: thread_ok_def Let_def)
  ultimately show ?thesis unfolding queue_ok_def by blast
qed

text \<open>The promise behind "a later wakeup can never be missed", as far as it holds: a waker
  that has taken the bucket lock finds every thread that sleeps on its word and has not been woken
  on the queue it is about to walk.\<close>

theorem locked_waker_sees_every_sleeper:
  assumes "reachable kernel_act kernel_start s"
    and "kpcs s w = V_loop a n (Chain_of (hash_futex a)) 0"
    and "kpcs s t = W_sleep" and "q_uaddr (futex_qs (kern s) t) = a"
    and "\<not> wake_pending (q_task (futex_qs (kern s) t))"
  shows "\<exists>xs. queue (kern s) (hash_futex a) xs \<and> t \<in> set xs"
proof -
  have inv: "kernel_inv s" using kernel.reachable_inv [OF assms(1)] .
  obtain xs where xs: "queue_ok s (hash_futex a) xs" using kernel_invD(3) [OF inv] by blast
  have "waking (kpcs s u) \<noteq> Some t" for u
  proof
    assume u: "waking (kpcs s u) = Some t"
    with kernel_invD(2) [OF inv, of u] assms(4) have "crit (kpcs s u) = Some (hash_futex a)"
      by (cases "kpcs s u") (auto simp: thread_defs)
    with crit_unique [OF kernel_invD(1) [OF inv], of u _ w] assms(2) have "u = w" by simp
    with u assms(2) show False by simp
  qed
  with kernel_invD(2) [OF inv, of t] assms(3-5)
  have "q_lock_ptr (futex_qs (kern s) t) = Some (hash_futex a)"
    by (auto simp: thread_ok_def Let_def sleeper_ok_def)
  with xs show ?thesis by (auto simp: queue_ok_def)
qed

text \<open>
  A run for the witnesses: thread 0 sleeps on the word at 4, then thread 1 enters the kernel to wake
  it and has the bucket lock.
\<close>

definition kernel_sys0 :: ksys where
  "kernel_sys0 = \<lparr>kern = kernel_zero, kpcs = (\<lambda>_. K_user)\<rparr>"

definition wait_then_wake :: "kaction list" where
  "wait_then_wake =
     Enter_wait 0 4 0 # replicate 5 (Kernel_step 0 False) @
     [Store 4 1, Enter_wake 1 4 1, Kernel_step 1 False, Kernel_step 1 False]"

definition kernel_example :: ksys where
  "kernel_example = the (run_sched kernel_act wait_then_wake kernel_sys0)"

lemma kernel_start_0: "kernel_start kernel_sys0"
  by (simp add: kernel_start_def kernel_sys0_def kernel_zero_def futex_q_init_def)

lemma kernel_example_run:
  "run_sched kernel_act wait_then_wake kernel_sys0 = Some kernel_example"
  "kpcs kernel_example 0 = W_sleep"
  "kpcs kernel_example 1 = V_loop 4 1 (Chain_of (hash_futex 4)) 0"
  "q_uaddr (futex_qs (kern kernel_example) 0) = 4"
  "\<not> wake_pending (q_task (futex_qs (kern kernel_example) 0))"
proof -
  have "case run_sched kernel_act wait_then_wake kernel_sys0 of None \<Rightarrow> False
    | Some s \<Rightarrow> kpcs s 0 = W_sleep \<and> kpcs s 1 = V_loop 4 1 (Chain_of (hash_futex 4)) 0 \<and>
        q_uaddr (futex_qs (kern s) 0) = 4 \<and> \<not> wake_pending (q_task (futex_qs (kern s) 0))"
    by code_simp
  then show "run_sched kernel_act wait_then_wake kernel_sys0 = Some kernel_example"
    "kpcs kernel_example 0 = W_sleep"
    "kpcs kernel_example 1 = V_loop 4 1 (Chain_of (hash_futex 4)) 0"
    "q_uaddr (futex_qs (kern kernel_example) 0) = 4"
    "\<not> wake_pending (q_task (futex_qs (kern kernel_example) 0))"
    by (auto simp: kernel_example_def split: option.splits)
qed

lemma kernel_example_reachable: "reachable kernel_act kernel_start kernel_example"
  by (rule run_sched_from_init [where init = kernel_start, OF kernel_start_0 kernel_example_run(1)])

lemma bucket_lock_mutual_exclusion_witness:
  "reachable kernel_act kernel_start kernel_example \<and>
   hb_lock (buckets (kern kernel_example) (hash_futex 4)) = 1"
proof -
  have "\<exists>t. crit (kpcs kernel_example t) = Some (hash_futex 4)"
    by (rule exI [of _ 1]) (simp only: kernel_example_run crit.simps)
  with bucket_lock_mutual_exclusion [OF kernel_example_reachable, of "hash_futex 4"]
    kernel_example_reachable
  show ?thesis by simp
qed

lemma futex_queues_correct_witness:
  "reachable kernel_act kernel_start kernel_example \<and> kpcs kernel_example 0 = W_sleep \<and>
   sleeper_ok kernel_example 0"
  using futex_queues_correct [OF kernel_example_reachable, of 1 0] kernel_example_run
    kernel_example_reachable by simp

lemma locked_waker_sees_every_sleeper_witness:
  "\<exists>xs. queue (kern kernel_example) (hash_futex 4) xs \<and> 0 \<in> set xs"
  by (rule locked_waker_sees_every_sleeper
      [OF kernel_example_reachable kernel_example_run(3,2,4,5)])

text \<open>
  Thread 0 finds the expected value and goes on to queue itself. Before it does, thread 1 changes
  the word and wakes: it reads a waiter count of 0 on the fast path and returns.
\<close>

definition missed_wakeup :: "kaction list" where
  "missed_wakeup =
     [Enter_wait 0 4 0, Kernel_step 0 False, Kernel_step 0 False,
      Store 4 1, Enter_wake 1 4 1, Kernel_step 1 False,
      Kernel_step 0 False, Kernel_step 0 False, Kernel_step 0 False]"

text \<open>C29: the fast path of \<^verbatim>\<open>kernel_futex_wake\<close> can miss a waiter, although the comments say it
  cannot: the waiter count is bumped after the node is queued, not before the value is checked. The
  waker has stored a new value and called wake, which returned 0; the waiter sleeps on the old
  value, and no step of its own gets it out.\<close>

theorem futex_fast_path_misses_waiter:
  "\<exists>s. kernel_start kernel_sys0 \<and> run_sched kernel_act missed_wakeup kernel_sys0 = Some s \<and>
     user_mem (kern s) 4 = 1 \<and> kpcs s 1 = K_return 0 \<and> kpcs s 0 = W_sleep \<and>
     (\<forall>sp. kernel_act (Kernel_step 0 sp) s = Some s)"
proof -
  have "case run_sched kernel_act missed_wakeup kernel_sys0 of None \<Rightarrow> False
    | Some s \<Rightarrow> user_mem (kern s) 4 = 1 \<and> kpcs s 1 = K_return 0 \<and> kpcs s 0 = W_sleep \<and>
        \<not> wake_pending (q_task (futex_qs (kern s) 0))"
    by code_simp
  moreover have "kernel_act (Kernel_step 0 sp) s = Some s"
    if "kpcs s 0 = W_sleep" "\<not> wake_pending (q_task (futex_qs (kern s) 0))" for s sp
    using that by (simp add: kernel_step_def schedule_eq)
  ultimately show ?thesis using kernel_start_0 by (auto split: option.splits)
qed

end
