(* ===== verification/Syscall.thy ===== *)
theory Syscall
  imports Kernel_Heap
begin

text \<open>
  \<^verbatim>\<open>kernel/syscall.h\<close>: the boundary between userspace and the kernel. Userspace knows a
  syscall number and two operation codes; \<^verbatim>\<open>futex_syscall\<close> routes them to two handlers. In this
  header the handlers are empty stubs; the routines they stand for are those of
  \<^verbatim>\<open>kernel/k_futex.h\<close>. The dispatch is therefore modelled over any pair of handlers, and used
  with both. A result of None says that the caller sleeps in the kernel.
\<close>

section \<open>The dispatch\<close>

definition SYS_futex :: int where "SYS_futex = 202"
definition FUTEX_WAIT :: int where "FUTEX_WAIT = 0"
definition FUTEX_WAKE :: int where "FUTEX_WAKE = 1"
definition EINVAL :: int where "EINVAL = 22"
definition ENOSYS :: int where "ENOSYS = 38"
definition INT_MAX :: u32 where "INT_MAX = 2147483647"

type_synonym ('a, 's) handler = "addr \<Rightarrow> 'a \<Rightarrow> 's \<Rightarrow> int option \<times> 's"

definition futex_syscall ::
  "(u32, 's) handler \<Rightarrow> (int, 's) handler \<Rightarrow> int \<Rightarrow> addr \<Rightarrow> int \<Rightarrow> u32 \<Rightarrow> 's \<Rightarrow> int option \<times> 's"
where
  "futex_syscall futex_wait futex_wake nr uaddr futex_op val s =
     (if nr = SYS_futex
      then if futex_op = FUTEX_WAIT then futex_wait uaddr val s
           else if futex_op = FUTEX_WAKE then futex_wake uaddr (sint val) s
           else (Some (- EINVAL), s)
      else (Some (- ENOSYS), s))"

text \<open>The empty handlers of this header.\<close>

definition stub_futex_wait :: "(u32, 's) handler" where
  "stub_futex_wait uaddr val s = (Some 0, s)"

definition stub_futex_wake :: "(int, 's) handler" where
  "stub_futex_wake uaddr n s = (Some 0, s)"

text \<open>The handlers of the kernel, for a calling thread \<open>q\<close> and a bound on the walk.\<close>

definition sys_futex_wait :: "tid \<Rightarrow> (u32, kernel) handler" where
  "sys_futex_wait q uaddr val k = kernel_futex_wait q uaddr val k"

definition sys_futex_wake :: "nat \<Rightarrow> (int, kernel) handler" where
  "sys_futex_wake fuel uaddr n k =
     (case kernel_futex_wake fuel uaddr n k of Some (ret, k') \<Rightarrow> (Some ret, k') | None \<Rightarrow> (None, k))"

lemmas syscall_codes = SYS_futex_def FUTEX_WAIT_def FUTEX_WAKE_def

section \<open>What userspace may rely on\<close>

text \<open>
  The contract of the two handlers that the locks and condition variables of userspace are built
  on: the kernel never writes the words of userspace, and a wait on a word that does not hold the
  expected value does not block.
\<close>

locale futex_contract =
  fixes futex_wait :: "(u32, 's) handler"
    and futex_wake :: "(int, 's) handler"
    and mem :: "'s \<Rightarrow> addr \<Rightarrow> u32"
  assumes wait_mem: "mem (snd (futex_wait a val s)) = mem s"
    and wake_mem: "mem (snd (futex_wake a n s)) = mem s"
    and wait_refused: "mem s a \<noteq> val \<Longrightarrow> fst (futex_wait a val s) \<noteq> None"
begin

lemma syscall_mem: "mem (snd (futex_syscall futex_wait futex_wake nr a op val s)) = mem s"
  by (simp add: futex_syscall_def wait_mem wake_mem)

lemma syscall_refused:
  "mem s a \<noteq> val \<Longrightarrow> op \<noteq> FUTEX_WAKE \<Longrightarrow>
   fst (futex_syscall futex_wait futex_wake nr a op val s) \<noteq> None"
  using wait_refused by (simp add: futex_syscall_def del: not_None_eq)

end

lemma wake_walk_mem:
  "wake_walk fuel a n pp ret k = Some (r, k') \<Longrightarrow> user_mem k' = user_mem k"
  by (induction fuel a n pp ret k rule: wake_walk.induct) (auto split: option.splits if_splits)

interpretation kernel_handlers: futex_contract "sys_futex_wait q" "sys_futex_wake fuel" user_mem
proof unfold_locales
  show "user_mem (snd (sys_futex_wait q a val s)) = user_mem s" for a val s
    by (simp add: sys_futex_wait_def kernel_futex_wait_def Let_def)
  show "user_mem (snd (sys_futex_wake fuel a n s)) = user_mem s" for a n s
    by (auto simp: sys_futex_wake_def kernel_futex_wake_def Let_def
             split: option.splits dest: wake_walk_mem)
  show "user_mem s a \<noteq> val \<Longrightarrow> fst (sys_futex_wait q a val s) \<noteq> None" for a val s
    by (simp add: sys_futex_wait_def kernel_futex_wait_def Let_def atomic_defs)
qed

interpretation stub_handlers: futex_contract stub_futex_wait stub_futex_wake mem for mem
  by unfold_locales (simp_all add: stub_futex_wait_def stub_futex_wake_def)

section \<open>Properties\<close>

text \<open>A syscall never changes the words of userspace, whatever its number, operation and
  arguments, and a \<^verbatim>\<open>FUTEX_WAIT\<close> blocks only when the word holds the expected value: otherwise it
  returns at once.\<close>

theorem futex_syscall_contract:
  "user_mem (snd (futex_syscall (sys_futex_wait q) (sys_futex_wake fuel) nr a op val k)) = user_mem k \<and>
   (user_mem k a = val \<or>
    fst (futex_syscall (sys_futex_wait q) (sys_futex_wake fuel) nr a FUTEX_WAIT val k) =
      Some (if nr = SYS_futex then - EWOULDBLOCK else - ENOSYS))"
  using kernel_handlers.syscall_mem [of q fuel nr a op val k]
  by (auto simp: futex_syscall_def sys_futex_wait_def kernel_futex_wait_def Let_def atomic_defs
      syscall_codes)

text \<open>\<^verbatim>\<open>FUTEX_WAKE\<close> through the syscall wakes the first waiters on the word, at most as many
  as the count cast to \<^verbatim>\<open>int\<close> says, and returns their number. With \<^verbatim>\<open>INT_MAX\<close>, as every wake-all
  of the condition variable passes it, these are all threads that wait on the word; a count whose
  top bit is set becomes negative in the cast and wakes nobody. An unknown operation is
  \<^verbatim>\<open>-EINVAL\<close>, an unknown number \<^verbatim>\<open>-ENOSYS\<close>, and neither touches the kernel.\<close>

theorem futex_syscall_wake:
  fixes t :: tid and val :: u32
  assumes "bucket_ok k (hash_futex a) xs" and "length xs < fuel"
  defines "call \<equiv> futex_syscall (sys_futex_wait t) (sys_futex_wake fuel)"
    and "on \<equiv> filter (\<lambda>q. q_uaddr (futex_qs k q) = a) xs"
  defines "W \<equiv> take (nat (sint val)) on"
  shows "(\<exists>k'. call SYS_futex a FUTEX_WAKE val k = (Some (int (length W)), k') \<and>
      bucket_ok k' (hash_futex a) (filter (\<lambda>q. q \<notin> set W) xs) \<and>
      (\<forall>q. if q \<in> set W then woken_node (futex_qs k q) (futex_qs k' q)
           else same_node (futex_qs k q) (futex_qs k' q))) \<and>
    (val = INT_MAX \<and> length xs \<le> unat INT_MAX \<longrightarrow> W = on) \<and>
    (bit val 31 \<longrightarrow> W = []) \<and>
    (op \<notin> {FUTEX_WAIT, FUTEX_WAKE} \<longrightarrow> call SYS_futex a op val k = (Some (- EINVAL), k)) \<and>
    (nr \<noteq> SYS_futex \<longrightarrow> call nr a op val k = (Some (- ENOSYS), k))"
proof (intro conjI impI)
  obtain k' where run: "kernel_futex_wake fuel a (sint val) k = Some (int (length W), k')"
    and post: "walk_post a (nat (sint val)) (Chain_of (hash_futex a)) xs k k'"
    using kernel_futex_wake_list [OF assms(1,2), of "sint val"] unfolding W_def on_def by auto
  have "woken (\<lambda>q. q_uaddr (futex_qs k q) = a) (nat (sint val)) xs = W"
    by (simp add: W_def on_def)
  with run walk_post_bucket [OF assms(1) post] walk_postD(3,4) [OF post]
  show "\<exists>k'. call SYS_futex a FUTEX_WAKE val k = (Some (int (length W)), k') \<and>
      bucket_ok k' (hash_futex a) (filter (\<lambda>q. q \<notin> set W) xs) \<and>
      (\<forall>q. if q \<in> set W then woken_node (futex_qs k q) (futex_qs k' q)
           else same_node (futex_qs k q) (futex_qs k' q))"
    by (intro exI [of _ k'])
       (simp add: call_def futex_syscall_def sys_futex_wake_def syscall_codes)
next
  assume all: "val = INT_MAX \<and> length xs \<le> unat INT_MAX"
  have "length on \<le> length xs" by (simp add: on_def)
  with all show "W = on" by (simp add: W_def INT_MAX_def)
next
  assume "bit val 31"
  then have "sint val < 0" using bit_last_iff [of val] by simp
  then show "W = []" by (simp add: W_def)
qed (simp_all add: call_def futex_syscall_def)

text \<open>Threads 3 and 1 sleep on the word at 4, thread 2 on another word of the bucket.\<close>

theorem futex_syscall_wake_witness:
  "\<exists>k'. futex_syscall (sys_futex_wait 0) (sys_futex_wake 4) SYS_futex 4 FUTEX_WAKE INT_MAX kernel_three =
     (Some 2, k') \<and> bucket_ok k' 1 [2]"
proof -
  have b: "hash_futex 4 = 1" by (simp add: hash_futex_def N_BUCKETS_def)
  have ok: "bucket_ok kernel_three (hash_futex 4) [3, 2, 1]"
    unfolding b by (rule kernel_three_ok)
  have W: "take (nat (sint INT_MAX)) (filter (\<lambda>q. q_uaddr (futex_qs kernel_three q) = 4) [3, 2, 1]) = [3, 1]"
    by (simp add: kernel_three_uaddr INT_MAX_def signed_take_bit_rec del: One_nat_def)
  have "filter (\<lambda>q. q \<notin> set [3, 1 :: tid]) [3, 2, 1] = [2]" and "int (length [3, 1 :: tid]) = 2"
    by simp_all
  with futex_syscall_wake [OF ok, where fuel = 4 and t = 0 and val = INT_MAX and op = 0 and nr = 0] show ?thesis unfolding W b by auto
qed

end
