(* ===== verification/Futex_Service.thy ===== *)
theory Futex_Service
  imports Syscall
begin

text \<open>
  What userspace gets from the kernel as a whole. A thread that calls \<^verbatim>\<open>futex_syscall\<close> is either
  refused, or sleeps until another thread's call has woken it and the scheduler has let it run
  again. The contract speaks of the list of sleepers of each word, and hides buckets, nodes and
  links; the kernel of \<^verbatim>\<open>kernel/k_futex.h\<close> meets it. Calls are atomic here: one thread at a time is
  inside the kernel. What happens when several are, is the subject of \<open>Kernel_Conc\<close>.
\<close>

section \<open>The interface\<close>

text \<open>
  The two handlers, of which the first needs to know the calling thread; the words of userspace;
  and the attempt of a sleeping thread to go on, which fails while it has not been woken.
\<close>

record 'k os =
  os_wait :: "tid \<Rightarrow> (u32, 'k) handler"
  os_wake :: "(int, 'k) handler"
  os_mem :: "'k \<Rightarrow> addr \<Rightarrow> u32"
  os_store :: "addr \<Rightarrow> u32 \<Rightarrow> 'k \<Rightarrow> 'k"
  os_resume :: "tid \<Rightarrow> 'k \<Rightarrow> 'k option"

definition os_futex :: "'k os \<Rightarrow> tid \<Rightarrow> addr \<Rightarrow> int \<Rightarrow> u32 \<Rightarrow> 'k \<Rightarrow> int option \<times> 'k" where
  "os_futex os t a futex_op val k = futex_syscall (os_wait os t) (os_wake os) SYS_futex a futex_op val k"

section \<open>The contract\<close>

text \<open>
  \<open>on k a\<close> are the threads asleep on the word \<open>a\<close>, the latest first; \<open>pend k t\<close> says that \<open>t\<close> has been
  woken and has not run since. \<open>N\<close> bounds the threads.
\<close>

locale futex_service =
  fixes os :: "'k os"
    and on :: "'k \<Rightarrow> addr \<Rightarrow> tid list"
    and pend :: "'k \<Rightarrow> tid \<Rightarrow> bool"
    and ok :: "'k \<Rightarrow> bool"
    and N :: nat
  assumes sleeper_bound: "ok k \<Longrightarrow> t \<in> set (on k a) \<Longrightarrow> t < N \<and> \<not> pend k t"
    and sleeper_once: "ok k \<Longrightarrow> t \<in> set (on k a) \<Longrightarrow> t \<in> set (on k b) \<Longrightarrow> a = b"
    and sleepers_distinct: "ok k \<Longrightarrow> distinct (on k a)"
    and few_threads: "ok k \<Longrightarrow> N < 2 ^ 31"
    and wait_refuses: "ok k \<Longrightarrow> t < N \<Longrightarrow> (\<And>b. t \<notin> set (on k b)) \<Longrightarrow> os_mem os k a \<noteq> val \<Longrightarrow>
      \<exists>k'. os_wait os t a val k = (Some (- EWOULDBLOCK), k') \<and> ok k' \<and> os_mem os k' = os_mem os k \<and>
        on k' = on k \<and> pend k' = (pend k)(t := False)"
    and wait_sleeps: "ok k \<Longrightarrow> t < N \<Longrightarrow> (\<And>b. t \<notin> set (on k b)) \<Longrightarrow> os_mem os k a = val \<Longrightarrow>
      \<exists>k'. os_wait os t a val k = (None, k') \<and> ok k' \<and> os_mem os k' = os_mem os k \<and>
        on k' = (on k)(a := t # on k a) \<and> pend k' = (pend k)(t := False)"
    and wake_wakes: "ok k \<Longrightarrow>
      \<exists>k'. os_wake os a n k = (Some (int (length (take (nat n) (on k a)))), k') \<and> ok k' \<and>
        os_mem os k' = os_mem os k \<and> on k' = (on k)(a := drop (nat n) (on k a)) \<and>
        pend k' = (\<lambda>t. pend k t \<or> t \<in> set (take (nat n) (on k a)))"
    and resume_blocked: "ok k \<Longrightarrow> \<not> pend k t \<Longrightarrow> os_resume os t k = None"
    and resume_runs: "ok k \<Longrightarrow> pend k t \<Longrightarrow>
      \<exists>k'. os_resume os t k = Some k' \<and> ok k' \<and> os_mem os k' = os_mem os k \<and> on k' = on k \<and>
        pend k' = (pend k)(t := False)"
    and store_only: "ok k \<Longrightarrow> ok (os_store os a val k) \<and>
        os_mem os (os_store os a val k) = (os_mem os k)(a := val) \<and>
        on (os_store os a val k) = on k \<and> pend (os_store os a val k) = pend k"
begin

lemma sleepers_few: "ok k \<Longrightarrow> length (on k a) \<le> N"
proof -
  assume k: "ok k"
  then have "set (on k a) \<subseteq> {..<N}" using sleeper_bound by blast
  then have "card (set (on k a)) \<le> N" using card_mono [of "{..<N}"] by simp
  with sleepers_distinct [OF k] show ?thesis by (simp add: distinct_card)
qed

text \<open>The three calls that userspace makes.\<close>

lemma futex_wait_refused:
  assumes "ok k" and "t < N" and "\<And>b. t \<notin> set (on k b)" and "os_mem os k a \<noteq> val"
  obtains k' where "os_futex os t a FUTEX_WAIT val k = (Some (- EWOULDBLOCK), k')" "ok k'"
    "os_mem os k' = os_mem os k" "on k' = on k" "pend k' = (pend k)(t := False)"
  using wait_refuses [OF assms] by (auto simp: os_futex_def futex_syscall_def)

lemma futex_wait_slept:
  assumes "ok k" and "t < N" and "\<And>b. t \<notin> set (on k b)" and "os_mem os k a = val"
  obtains k' where "os_futex os t a FUTEX_WAIT val k = (None, k')" "ok k'"
    "os_mem os k' = os_mem os k" "on k' = (on k)(a := t # on k a)" "pend k' = (pend k)(t := False)"
  using wait_sleeps [OF assms] by (auto simp: os_futex_def futex_syscall_def)

lemma futex_wake_one:
  assumes "ok k"
  obtains k' where "os_futex os t a FUTEX_WAKE 1 k = (Some (int (length (take 1 (on k a)))), k')" "ok k'"
    "os_mem os k' = os_mem os k" "on k' = (on k)(a := tl (on k a))"
    "pend k' = (\<lambda>u. pend k u \<or> u \<in> set (take 1 (on k a)))"
  using wake_wakes [OF assms, of a 1] that
  by (auto simp: os_futex_def futex_syscall_def syscall_codes drop_Suc)

lemma futex_wake_all:
  assumes "ok k"
  obtains k' where "os_futex os t a FUTEX_WAKE INT_MAX k = (Some (int (length (on k a))), k')" "ok k'"
    "os_mem os k' = os_mem os k" "on k' = (on k)(a := [])"
    "pend k' = (\<lambda>u. pend k u \<or> u \<in> set (on k a))"
proof -
  have "length (on k a) \<le> nat (sint INT_MAX)"
    using sleepers_few [OF assms, of a] few_threads [OF assms]
    by (simp add: INT_MAX_def signed_take_bit_rec del: One_nat_def)
  with wake_wakes [OF assms, of a "sint INT_MAX"] that show ?thesis
    by (auto simp: os_futex_def futex_syscall_def syscall_codes)
qed

end

section \<open>The kernel behind it\<close>

definition user_store :: "addr \<Rightarrow> u32 \<Rightarrow> kernel \<Rightarrow> kernel" where
  "user_store a val k = k\<lparr>user_mem := (user_mem k)(a := val)\<rparr>"

text \<open>The end of \<^verbatim>\<open>kernel_futex_wait\<close>: \<^verbatim>\<open>schedule\<close> returns, the node is given up.\<close>

definition wait_return :: "tid \<Rightarrow> kernel \<Rightarrow> kernel option" where
  "wait_return t k =
     map_option (\<lambda>task. set_q t futex_q_release (set_q t (\<lambda>n. n\<lparr>q_task := task\<rparr>) k))
       (schedule (q_task (futex_qs k t)))"

definition kernel_os :: "nat \<Rightarrow> kernel os" where
  "kernel_os N =
     \<lparr>os_wait = sys_futex_wait, os_wake = sys_futex_wake (Suc N), os_mem = user_mem,
      os_store = user_store, os_resume = wait_return\<rparr>"

text \<open>The sleepers of a word: the nodes with its address on the chain of its bucket.\<close>

fun chain_nodes :: "nat \<Rightarrow> kernel \<Rightarrow> tid option \<Rightarrow> tid list" where
  "chain_nodes 0 k p = []"
| "chain_nodes (Suc n) k None = []"
| "chain_nodes (Suc n) k (Some q) = q # chain_nodes n k (q_next (futex_qs k q))"

definition sleepers_on :: "nat \<Rightarrow> kernel \<Rightarrow> addr \<Rightarrow> tid list" where
  "sleepers_on N k a =
     filter (\<lambda>q. q_uaddr (futex_qs k q) = a) (chain_nodes N k (hb_chain (buckets k (hash_futex a))))"

definition woken_up :: "kernel \<Rightarrow> tid \<Rightarrow> bool" where
  "woken_up k t \<longleftrightarrow> wake_pending (q_task (futex_qs k t))"

definition chain_ok :: "nat \<Rightarrow> kernel \<Rightarrow> nat \<Rightarrow> tid list \<Rightarrow> bool" where
  "chain_ok N k b xs \<longleftrightarrow> bucket_ok k b xs \<and>
     (\<forall>q \<in> set xs. q < N \<and> hash_futex (q_uaddr (futex_qs k q)) = b \<and> \<not> woken_up k q)"

definition kernel_ok :: "nat \<Rightarrow> kernel \<Rightarrow> bool" where
  "kernel_ok N k \<longleftrightarrow> N < 2 ^ 31 \<and> (\<forall>b. \<exists>xs. chain_ok N k b xs)"

lemma chain_nodes_lseg: "lseg k p xs \<Longrightarrow> length xs \<le> n \<Longrightarrow> chain_nodes n k p = xs"
proof (induction xs arbitrary: p n)
  case Nil
  then show ?case by (cases n) auto
next
  case (Cons x xs)
  then show ?case by (cases n) (auto simp: deref.simps)
qed

lemma chain_length: "chain_ok N k b xs \<Longrightarrow> length xs \<le> N"
proof -
  assume ok: "chain_ok N k b xs"
  then have "set xs \<subseteq> {..<N}" by (auto simp: chain_ok_def)
  then have "card (set xs) \<le> N" using card_mono [of "{..<N}"] by simp
  with ok show ?thesis by (simp add: chain_ok_def bucket_ok_def distinct_card)
qed

lemma sleepers_on_chain:
  assumes "chain_ok N k (hash_futex a) xs"
  shows "sleepers_on N k a = filter (\<lambda>q. q_uaddr (futex_qs k q) = a) xs"
proof -
  have "chain_nodes N k (hb_chain (buckets k (hash_futex a))) = xs"
    using assms chain_length [OF assms]
    by (intro chain_nodes_lseg) (auto simp: chain_ok_def bucket_ok_def deref.simps)
  then show ?thesis by (simp add: sleepers_on_def)
qed

lemma chain_ok_unique: "chain_ok N k b xs \<Longrightarrow> chain_ok N k b ys \<Longrightarrow> xs = ys"
  by (auto simp: chain_ok_def bucket_ok_def intro: lseg_unique)

lemma kernel_ok_sleepers:
  assumes "kernel_ok N k"
  shows "q \<in> set (sleepers_on N k a) \<Longrightarrow>
      q < N \<and> \<not> woken_up k q \<and> q_uaddr (futex_qs k q) = a" and "distinct (sleepers_on N k a)"
proof -
  from assms obtain xs where xs: "chain_ok N k (hash_futex a) xs" unfolding kernel_ok_def by blast
  then show "distinct (sleepers_on N k a)"
    by (simp add: sleepers_on_chain) (simp add: chain_ok_def bucket_ok_def)
  from xs show "q \<in> set (sleepers_on N k a) \<Longrightarrow> q < N \<and> \<not> woken_up k q \<and> q_uaddr (futex_qs k q) = a"
    by (auto simp: sleepers_on_chain chain_ok_def)
qed


lemma kernel_ok_idle:
  assumes "kernel_ok N k" and "\<And>b. t \<notin> set (sleepers_on N k b)" and "chain_ok N k b xs"
  shows "t \<notin> set xs"
proof
  assume t: "t \<in> set xs"
  with assms(3) have "hash_futex (q_uaddr (futex_qs k t)) = b" by (simp add: chain_ok_def)
  with t assms(3) have "t \<in> set (sleepers_on N k (q_uaddr (futex_qs k t)))"
    by (simp add: sleepers_on_chain)
  with assms(2) show False by blast
qed

text \<open>If nothing changes on a chain but nodes outside it, its sleepers are as before.\<close>

lemma chain_ok_frame:
  assumes "chain_ok N k b xs" and "bucket_ok k' b xs"
    and "\<And>q. q \<in> set xs \<Longrightarrow> q_uaddr (futex_qs k' q) = q_uaddr (futex_qs k q) \<and> woken_up k' q = woken_up k q"
  shows "chain_ok N k' b xs"
  using assms by (simp add: chain_ok_def)

lemma sleepers_on_frame:
  assumes "chain_ok N k (hash_futex a) xs" and "chain_ok N k' (hash_futex a) xs"
    and "\<And>q. q \<in> set xs \<Longrightarrow> q_uaddr (futex_qs k' q) = q_uaddr (futex_qs k q)"
  shows "sleepers_on N k' a = sleepers_on N k a"
  using assms(3) by (auto simp: sleepers_on_chain [OF assms(1)] sleepers_on_chain [OF assms(2)] intro: filter_cong)

lemma bucket_ok_set_q:
  assumes "bucket_ok k b xs" and "\<And>n. q_next (f n) = q_next n"
  shows "bucket_ok (set_q q f k) b xs"
proof -
  have link: "deref (set_q q f k) l = deref k l" for l
    using assms(2) by (cases l) (simp_all add: deref.simps)
  have "lseg (set_q q f k) p xs \<longleftrightarrow> lseg k p xs" for p
    by (intro lseg_cong) (simp add: link)
  with assms(1) show ?thesis by (simp add: bucket_ok_def link)
qed

lemma kernel_wait_frame:
  assumes "kernel_futex_wait t a val k = (r, k')" and "u \<noteq> t"
  shows "q_uaddr (futex_qs k' u) = q_uaddr (futex_qs k u)" and "woken_up k' u = woken_up k u"
  using assms by (auto simp: kernel_futex_wait_def Let_def woken_up_def split: if_splits)

lemma kernel_wait_self:
  assumes "kernel_futex_wait t a val k = (r, k')"
  shows "q_uaddr (futex_qs k' t) = a" and "\<not> woken_up k' t" and "user_mem k' = user_mem k"
  using assms by (auto simp: kernel_futex_wait_def Let_def woken_up_def split: if_splits)

lemma kernel_wait_bucket:
  assumes ok: "bucket_ok k b xs" and t: "t \<notin> set xs" and small: "Suc (length xs) < 2 ^ 32"
    and run: "kernel_futex_wait t a val k = (r, k')"
  shows "bucket_ok k' b (if user_mem k a = val \<and> b = hash_futex a then t # xs else xs)"
proof (cases "user_mem k a = val")
  case False
  with run have "k' = set_q t (futex_q_init a) k" by (simp add: kernel_futex_wait_def Let_def)
  with bucket_ok_init_node [OF ok t] False show ?thesis by simp
next
  case True
  let ?k = "set_q t (futex_q_init a) k" and ?b = "hash_futex a"
  from True run have k': "k' = waiters_inc ?b (enqueue ?b t ?k)"
    by (simp add: kernel_futex_wait_def Let_def)
  show ?thesis
  proof (cases "b = ?b")
    case same: True
    from kernel_futex_wait_queues [OF ok [unfolded same] t True small] run True same show ?thesis by auto
  next
    case False
    have "bucket_ok ?k b xs" using ok t by (rule bucket_ok_init_node)
    moreover have "lseg k' p xs \<longleftrightarrow> lseg ?k p xs" for p
      using t by (intro lseg_cong) (auto simp: k')
    ultimately show ?thesis using False by (simp add: bucket_ok_def k')
  qed
qed

lemma kernel_wait_ok:
  assumes ok: "kernel_ok N k" and t: "t < N" "\<And>b. t \<notin> set (sleepers_on N k b)"
    and run: "kernel_futex_wait t a val k = (r, k')"
  shows "kernel_ok N k'"
    and "sleepers_on N k' = (if user_mem k a = val then (sleepers_on N k)(a := t # sleepers_on N k a)
                             else sleepers_on N k)"
proof -
  have chain: "chain_ok N k' b (if user_mem k a = val \<and> b = hash_futex a then t # xs else xs)"
    if xs: "chain_ok N k b xs" for b xs
  proof -
    have "t \<notin> set xs" by (rule kernel_ok_idle [OF ok t(2) xs])
    moreover have "Suc (length xs) < 2 ^ 32" using chain_length [OF xs] ok by (simp add: kernel_ok_def)
    ultimately have "bucket_ok k' b (if user_mem k a = val \<and> b = hash_futex a then t # xs else xs)"
      using kernel_wait_bucket [OF _ _ _ run] xs by (simp add: chain_ok_def)
    moreover have "q_uaddr (futex_qs k' q) = q_uaddr (futex_qs k q) \<and> woken_up k' q = woken_up k q"
      if "q \<in> set xs" for q
      using that \<open>t \<notin> set xs\<close> kernel_wait_frame [OF run, of q] by metis
    ultimately show ?thesis
      using xs t(1) kernel_wait_self [OF run] by (auto simp: chain_ok_def)
  qed
  with ok show "kernel_ok N k'" unfolding kernel_ok_def by blast
  show "sleepers_on N k' = (if user_mem k a = val then (sleepers_on N k)(a := t # sleepers_on N k a)
                             else sleepers_on N k)"
  proof
    fix c
    from ok obtain xs where xs: "chain_ok N k (hash_futex c) xs" unfolding kernel_ok_def by blast
    have "t \<notin> set xs" by (rule kernel_ok_idle [OF ok t(2) xs])
    then have "filter (\<lambda>q. q_uaddr (futex_qs k' q) = d) xs = filter (\<lambda>q. q_uaddr (futex_qs k q) = d) xs" for d
      using kernel_wait_frame(1) [OF run] by (intro filter_cong) metis+
    then show "sleepers_on N k' c = (if user_mem k a = val then (sleepers_on N k)(a := t # sleepers_on N k a)
                             else sleepers_on N k) c"
      unfolding sleepers_on_chain [OF chain [OF xs]] sleepers_on_chain [OF xs] fun_upd_def
      using kernel_wait_self(1) [OF run] xs
      by (cases "user_mem k a = val"; cases "c = a") (simp_all add: sleepers_on_chain)
  qed
qed

lemma kernel_wait_pending:
  assumes "kernel_futex_wait t a val k = (r, k')"
  shows "woken_up k' = (woken_up k)(t := False)"
proof
  fix u
  show "woken_up k' u = ((woken_up k)(t := False)) u"
    using kernel_wait_frame(2) [OF assms, of u] kernel_wait_self(2) [OF assms] by (cases "u = t") simp_all
qed

text \<open>\<^verbatim>\<open>kernel_futex_wake\<close>: the first \<open>n\<close> sleepers of the word leave its chain.\<close>

lemma filter_take_distinct:
  assumes "distinct xs"
  shows "filter (\<lambda>q. q \<notin> set (take n (filter P xs))) (filter P xs) = drop n (filter P xs)"
proof -
  let ?ys = "filter P xs"
  have "distinct (take n ?ys @ drop n ?ys)" using assms by simp
  then have none: "set (take n ?ys) \<inter> set (drop n ?ys) = {}" by (simp only: distinct_append)
  have "filter (\<lambda>q. q \<notin> set (take n ?ys)) (take n ?ys @ drop n ?ys) = drop n ?ys"
    using none by (auto simp del: append_take_drop_id intro: filter_True)
  then show ?thesis by simp
qed

lemma kernel_wake_ok:
  fixes a n
  assumes ok: "kernel_ok N k" and few: "N < fuel"
  defines "W \<equiv> take (nat n) (sleepers_on N k a)"
  obtains k' where "kernel_futex_wake fuel a n k = Some (int (length W), k')" "kernel_ok N k'"
    "user_mem k' = user_mem k" "woken_up k' = (\<lambda>t. woken_up k t \<or> t \<in> set W)"
    "sleepers_on N k' = (sleepers_on N k)(a := drop (nat n) (sleepers_on N k a))"
proof -
  from ok obtain xs where xs: "chain_ok N k (hash_futex a) xs" unfolding kernel_ok_def by blast
  then have bucket: "bucket_ok k (hash_futex a) xs" and dist: "distinct xs"
    by (simp_all add: chain_ok_def bucket_ok_def)
  have W: "W = take (nat n) (filter (\<lambda>q. q_uaddr (futex_qs k q) = a) xs)"
    by (simp add: W_def sleepers_on_chain [OF xs])
  from kernel_futex_wake_post [OF bucket, of fuel n] chain_length [OF xs] few obtain k' where
    run: "kernel_futex_wake fuel a n k = Some (int (length W), k')"
    and own: "bucket_ok k' (hash_futex a) (filter (\<lambda>q. q \<notin> set W) xs)"
    and node: "\<And>q. if q \<in> set W then woken_node (futex_qs k q) (futex_qs k' q)
         else same_node (futex_qs k q) (futex_qs k' q)"
    and other: "\<And>b ys. b \<noteq> hash_futex a \<Longrightarrow> bucket_ok k b ys \<Longrightarrow> set ys \<inter> set xs = {} \<Longrightarrow> bucket_ok k' b ys"
    and mem: "user_mem k' = user_mem k"
    unfolding W [symmetric] Let_def by auto
  have addr: "q_uaddr (futex_qs k' q) = q_uaddr (futex_qs k q)" for q
    using node [of q] by (auto simp: woken_node_def same_node_def split: if_splits)
  have woken: "woken_up k' q \<longleftrightarrow> woken_up k q \<or> q \<in> set W" for q
    using node [of q] by (auto simp: woken_node_def same_node_def woken_up_def split: if_splits)
  have chain: "chain_ok N k' b (if b = hash_futex a then filter (\<lambda>q. q \<notin> set W) xs else ys)"
    if ys: "chain_ok N k b ys" for b ys
  proof (cases "b = hash_futex a")
    case True
    with own xs show ?thesis by (simp add: chain_ok_def addr woken)
  next
    case False
    have apart: "set ys \<inter> set xs = {}" using xs ys False by (auto simp: chain_ok_def)
    with False ys have "bucket_ok k' b ys" by (intro other) (simp_all add: chain_ok_def)
    moreover have "set W \<subseteq> set xs" by (auto simp: W dest: in_set_takeD)
    ultimately show ?thesis using ys False apart by (auto simp: chain_ok_def addr woken)
  qed
  have sleepers: "sleepers_on N k' c = ((sleepers_on N k)(a := drop (nat n) (sleepers_on N k a))) c" for c
  proof -
    from ok obtain ys where ys: "chain_ok N k (hash_futex c) ys" unfolding kernel_ok_def by blast
    have now: "sleepers_on N k' c = filter (\<lambda>q. q_uaddr (futex_qs k q) = c)
        (if hash_futex c = hash_futex a then filter (\<lambda>q. q \<notin> set W) xs else ys)"
      by (simp only: sleepers_on_chain [OF chain [OF ys]] addr)
    consider "c = a" | "c \<noteq> a" "hash_futex c = hash_futex a" | "hash_futex c \<noteq> hash_futex a" by metis
    then show ?thesis
    proof cases
      case 1
      have "filter (\<lambda>q. q_uaddr (futex_qs k q) = a) (filter (\<lambda>q. q \<notin> set W) xs) =
          filter (\<lambda>q. q \<notin> set W) (filter (\<lambda>q. q_uaddr (futex_qs k q) = a) xs)"
        by (simp add: conj_commute)
      also have "\<dots> = drop (nat n) (filter (\<lambda>q. q_uaddr (futex_qs k q) = a) xs)"
        unfolding W by (rule filter_take_distinct [OF dist])
      finally show ?thesis unfolding now using 1 by (simp add: sleepers_on_chain [OF xs])
    next
      case 2
      have "filter (\<lambda>q. q_uaddr (futex_qs k q) = c) (filter (\<lambda>q. q \<notin> set W) xs) =
          filter (\<lambda>q. q_uaddr (futex_qs k q) = c) xs"
        unfolding filter_filter using 2(1) by (intro filter_cong) (auto simp: W dest: in_set_takeD)
      with 2 xs show ?thesis unfolding now by (simp add: sleepers_on_chain)
    next
      case 3
      with ys show ?thesis unfolding now by (auto simp: sleepers_on_chain)
    qed
  qed
  show ?thesis
  proof (rule that [OF run _ mem])
    show "kernel_ok N k'" using ok chain unfolding kernel_ok_def by blast
    show "woken_up k' = (\<lambda>t. woken_up k t \<or> t \<in> set W)" by (simp add: fun_eq_iff woken)
    show "sleepers_on N k' = (sleepers_on N k)(a := drop (nat n) (sleepers_on N k a))"
      by (rule ext) (rule sleepers)
  qed
qed


lemma kernel_return_ok:
  assumes ok: "kernel_ok N k" and woken: "woken_up k t"
  obtains k' where "wait_return t k = Some k'" "kernel_ok N k'" "user_mem k' = user_mem k"
    "sleepers_on N k' = sleepers_on N k" "woken_up k' = (woken_up k)(t := False)"
proof -
  let ?f = "\<lambda>n. n\<lparr>q_task := (q_task (futex_qs k t))\<lparr>wake_pending := False, task_state := TASK_RUNNING\<rparr>\<rparr>"
  let ?k = "set_q t ?f k"
  have chain: "chain_ok N ?k b xs" if xs: "chain_ok N k b xs" for b xs
  proof (rule chain_ok_frame [OF xs])
    show "bucket_ok ?k b xs" using xs by (intro bucket_ok_set_q) (simp_all add: chain_ok_def)
    show "q_uaddr (futex_qs ?k q) = q_uaddr (futex_qs k q) \<and> woken_up ?k q = woken_up k q"
      if "q \<in> set xs" for q
      using that xs woken by (auto simp: woken_up_def chain_ok_def)
  qed
  have "sleepers_on N ?k a = sleepers_on N k a" for a
  proof -
    from ok obtain xs where "chain_ok N k (hash_futex a) xs" unfolding kernel_ok_def by blast
    with chain show ?thesis by (intro sleepers_on_frame) auto
  qed
  moreover have "wait_return t k = Some ?k"
    using woken by (simp add: wait_return_def schedule_eq woken_up_def)
  moreover have "kernel_ok N ?k" using ok chain unfolding kernel_ok_def by blast
  moreover have "woken_up ?k = (woken_up k)(t := False)"
    by (simp add: woken_up_def fun_eq_iff)
  moreover have "user_mem ?k = user_mem k" by simp
  ultimately show ?thesis using that by blast
qed

lemma kernel_store_ok:
  assumes ok: "kernel_ok N k"
  shows "kernel_ok N (user_store a val k)" and "sleepers_on N (user_store a val k) = sleepers_on N k"
    and "woken_up (user_store a val k) = woken_up k"
proof -
  have link: "deref (user_store a val k) l = deref k l" for l
    by (cases l) (simp_all add: user_store_def deref.simps)
  then have chain: "chain_ok N (user_store a val k) b xs \<longleftrightarrow> chain_ok N k b xs" for b xs
    using lseg_cong [of xs "user_store a val k" k]
    by (simp add: chain_ok_def bucket_ok_def woken_up_def) (simp add: user_store_def)
  with ok show "kernel_ok N (user_store a val k)" by (simp add: kernel_ok_def)
  show "sleepers_on N (user_store a val k) = sleepers_on N k"
  proof
    fix c
    from ok obtain xs where xs: "chain_ok N k (hash_futex c) xs" unfolding kernel_ok_def by blast
    then show "sleepers_on N (user_store a val k) c = sleepers_on N k c"
      by (intro sleepers_on_frame [OF xs]) (simp_all add: chain, simp add: user_store_def)
  qed
  show "woken_up (user_store a val k) = woken_up k" by (simp add: woken_up_def user_store_def fun_eq_iff)
qed

interpretation kernel_service: futex_service "kernel_os N" "sleepers_on N" woken_up "kernel_ok N" N for N
proof
  show "t < N \<and> \<not> woken_up k t" if "kernel_ok N k" "t \<in> set (sleepers_on N k a)" for k t a
    using kernel_ok_sleepers(1) [OF that] by blast
  show "a = b" if "kernel_ok N k" "t \<in> set (sleepers_on N k a)" "t \<in> set (sleepers_on N k b)" for k t a b
    using kernel_ok_sleepers(1) that by metis
  show "distinct (sleepers_on N k a)" if "kernel_ok N k" for k a
    using that by (rule kernel_ok_sleepers(2))
  show "N < 2 ^ 31" if "kernel_ok N k" for k
    using that by (simp add: kernel_ok_def)
next
  fix k t a val
  assume k: "kernel_ok N k" "t < N" "\<And>b. t \<notin> set (sleepers_on N k b)"
  obtain r k' where run: "kernel_futex_wait t a val k = (r, k')" by fastforce
  note facts = kernel_wait_ok [OF k run] kernel_wait_pending [OF run] kernel_wait_self(3) [OF run]
  show "\<exists>k'. os_wait (kernel_os N) t a val k = (Some (- EWOULDBLOCK), k') \<and> kernel_ok N k' \<and>
      os_mem (kernel_os N) k' = os_mem (kernel_os N) k \<and> sleepers_on N k' = sleepers_on N k \<and>
      woken_up k' = (woken_up k)(t := False)" if "os_mem (kernel_os N) k a \<noteq> val"
    using that run facts by (auto simp: kernel_os_def sys_futex_wait_def kernel_futex_wait_def Let_def)
  show "\<exists>k'. os_wait (kernel_os N) t a val k = (None, k') \<and> kernel_ok N k' \<and>
      os_mem (kernel_os N) k' = os_mem (kernel_os N) k \<and>
      sleepers_on N k' = (sleepers_on N k)(a := t # sleepers_on N k a) \<and>
      woken_up k' = (woken_up k)(t := False)" if "os_mem (kernel_os N) k a = val"
    using that run facts by (auto simp: kernel_os_def sys_futex_wait_def kernel_futex_wait_def Let_def)
next
  fix k a n assume "kernel_ok N k"
  then obtain k' where
    "kernel_futex_wake (Suc N) a n k = Some (int (length (take (nat n) (sleepers_on N k a))), k')" "kernel_ok N k'"
    "user_mem k' = user_mem k" "woken_up k' = (\<lambda>t. woken_up k t \<or> t \<in> set (take (nat n) (sleepers_on N k a)))"
    "sleepers_on N k' = (sleepers_on N k)(a := drop (nat n) (sleepers_on N k a))"
    by (rule kernel_wake_ok [where fuel = "Suc N" and n = n and a = a]) (rule lessI)
  then show "\<exists>k'. os_wake (kernel_os N) a n k = (Some (int (length (take (nat n) (sleepers_on N k a)))), k') \<and>
      kernel_ok N k' \<and> os_mem (kernel_os N) k' = os_mem (kernel_os N) k \<and>
      sleepers_on N k' = (sleepers_on N k)(a := drop (nat n) (sleepers_on N k a)) \<and>
      woken_up k' = (\<lambda>t. woken_up k t \<or> t \<in> set (take (nat n) (sleepers_on N k a)))"
    by (simp add: kernel_os_def sys_futex_wake_def)
next
  fix k t assume k: "kernel_ok N k"
  show "os_resume (kernel_os N) t k = None" if "\<not> woken_up k t"
    using that by (simp add: kernel_os_def wait_return_def schedule_eq woken_up_def)
  show "\<exists>k'. os_resume (kernel_os N) t k = Some k' \<and> kernel_ok N k' \<and>
      os_mem (kernel_os N) k' = os_mem (kernel_os N) k \<and> sleepers_on N k' = sleepers_on N k \<and>
      woken_up k' = (woken_up k)(t := False)" if "woken_up k t"
    using kernel_return_ok [OF k that] by (auto simp: kernel_os_def)
next
  fix k a val assume "kernel_ok N k"
  with kernel_store_ok [OF this] show "kernel_ok N (os_store (kernel_os N) a val k) \<and>
      os_mem (kernel_os N) (os_store (kernel_os N) a val k) = (os_mem (kernel_os N) k)(a := val) \<and>
      sleepers_on N (os_store (kernel_os N) a val k) = sleepers_on N k \<and>
      woken_up (os_store (kernel_os N) a val k) = woken_up k"
    by (simp add: kernel_os_def) (simp add: user_store_def)
qed


text \<open>A kernel nobody sleeps in, and one with three sleepers in one bucket.\<close>

lemma kernel_zero_ok: "N < 2 ^ 31 \<Longrightarrow> kernel_ok N kernel_zero"
  by (auto simp: kernel_ok_def chain_ok_def bucket_ok_def kernel_zero_def deref.simps intro!: exI [of _ "[]"])

lemma sleepers_on_zero [simp]: "sleepers_on N kernel_zero a = []"
  by (cases N) (simp_all add: sleepers_on_def kernel_zero_def)

lemma sleepers_on_three:
  "3 \<le> N \<Longrightarrow> sleepers_on N kernel_three 4 = [3, 1] \<and> sleepers_on N kernel_three 68 = [2]"
proof -
  assume "3 \<le> N"
  then obtain m where "N = Suc (Suc (Suc m))" by (metis Suc_le_D numeral_3_eq_3 Suc_le_mono)
  then show ?thesis by (cases m) (simp_all add: sleepers_on_def kernel_eval)
qed

end
