(* ===== verification/Kernel_Equiv.thy ===== *)
theory Kernel_Equiv
  imports Kernel_Conc Futex_Service
begin

text \<open>
  The two models of \<^verbatim>\<open>kernel/k_futex.h\<close> agree: a thread that goes through \<^verbatim>\<open>kernel_futex_wait\<close> or
  \<^verbatim>\<open>kernel_futex_wake\<close> step by step, with nobody else moving, does to the kernel what the operation in
  one piece does, and returns the same, or sleeps in the same cases.
\<close>

section \<open>Steps of one thread alone\<close>

definition ksolo :: "tid \<Rightarrow> ksys \<Rightarrow> ksys \<Rightarrow> bool" where
  "ksolo t s s' \<longleftrightarrow> (\<exists>m. run_sched kernel_act (replicate m (Kernel_step t False)) s = Some s')"

lemma ksolo_refl [simp]: "ksolo t s s"
  unfolding ksolo_def by (rule exI [of _ 0]) simp

lemma ksolo_step: "kernel_step t False s = Some s1 \<Longrightarrow> ksolo t s1 s' \<Longrightarrow> ksolo t s s'"
  unfolding ksolo_def by (auto intro: exI [of _ "Suc m" for m])

lemma ksolo_trans: "ksolo t s s1 \<Longrightarrow> ksolo t s1 s' \<Longrightarrow> ksolo t s s'"
proof -
  assume "ksolo t s s1" "ksolo t s1 s'"
  then obtain m n where "run_sched kernel_act (replicate m (Kernel_step t False)) s = Some s1"
    "run_sched kernel_act (replicate n (Kernel_step t False)) s1 = Some s'" unfolding ksolo_def by blast
  then have "run_sched kernel_act (replicate (m + n) (Kernel_step t False)) s = Some s'"
    by (simp add: replicate_add run_sched_append)
  then show ?thesis unfolding ksolo_def by blast
qed

text \<open>A thread at one point of a system that differs from \<open>s\<close> in the kernel only.\<close>

definition kernel_at :: "ksys \<Rightarrow> tid \<Rightarrow> kpc \<Rightarrow> kernel \<Rightarrow> ksys" where
  "kernel_at s t p k = \<lparr>kern = k, kpcs = (kpcs s)(t := p)\<rparr>"

lemma kernel_at_simps [simp]:
  "kern (kernel_at s t p k) = k" "kpcs (kernel_at s t p k) u = (if u = t then p else kpcs s u)"
  "kmove t q f (kernel_at s t p k) = kernel_at s t q (f k)"
  by (simp_all add: kernel_at_def kmove_def)

section \<open>The lock word is independent of the rest\<close>

lemma set_bucket_commute:
  assumes "\<And>hb. f (g hb) = g (f hb)"
  shows "set_bucket b f (set_bucket c g k) = set_bucket c g (set_bucket b f k)"
  using assms by (cases "b = c") (simp_all add: set_bucket_def fun_upd_twist)

lemma set_bucket_set_q: "set_bucket b f (set_q q g k) = set_q q g (set_bucket b f k)"
  by (simp add: set_bucket_def set_q_def)

lemma hb_set_lock_commute:
  "hb_set_lock b l (set_q q g k) = set_q q g (hb_set_lock b l k)"
  "hb_set_lock b l (assign pp v k) = assign pp v (hb_set_lock b l k)"
  "hb_set_lock b l (waiters_inc c k) = waiters_inc c (hb_set_lock b l k)"
  "hb_set_lock b l (waiters_dec c k) = waiters_dec c (hb_set_lock b l k)"
  by (cases pp; simp add: hb_set_lock_def set_bucket_set_q waiters_inc_def waiters_dec_def
      set_bucket_commute [of "\<lambda>hb. hb\<lparr>hb_lock := l\<rparr>"])+

lemma hb_set_lock_chain: "hb_chain (buckets (hb_set_lock b l k) c) = hb_chain (buckets k c)"
  by (simp add: hb_set_lock_def)

lemma hb_set_lock_ops:
  "hb_set_lock b l (dequeue pp q k) = dequeue pp q (hb_set_lock b l k)"
  "hb_set_lock b l (wake_task q k) = wake_task q (hb_set_lock b l k)"
  "hb_set_lock b l (enqueue c q k) = enqueue c q (hb_set_lock b l k)"
  by (simp_all add: dequeue_def wake_task_def enqueue_def hb_set_lock_commute hb_set_lock_chain)
     (simp add: hb_set_lock_def set_bucket_commute [of "\<lambda>hb. hb\<lparr>hb_lock := l\<rparr>"] set_bucket_set_q)

lemma hb_set_lock_again [simp]: "hb_set_lock b l (hb_set_lock b l' k) = hb_set_lock b l k"
  by (simp add: hb_set_lock_def set_bucket_def)

lemma hb_set_lock_same: "hb_lock (buckets k b) = l \<Longrightarrow> hb_set_lock b l k = k"
  by (auto simp: hb_set_lock_def set_bucket_def)

lemma wake_walk_lock:
  "wake_walk fuel a n pp ret (hb_set_lock b l k) =
     map_option (\<lambda>(r, k). (r, hb_set_lock b l k)) (wake_walk fuel a n pp ret k)"
  by (induction fuel a n pp ret k rule: wake_walk.induct)
     (auto simp: hb_set_lock_ops [symmetric] hb_set_lock_commute [symmetric] split: option.splits)

lemma wake_walk_keeps_lock:
  "wake_walk fuel a n pp ret k = Some (r, k') \<Longrightarrow> hb_lock (buckets k' b) = hb_lock (buckets k b)"
  by (induction fuel a n pp ret k rule: wake_walk.induct) (auto split: option.splits if_splits)

section \<open>The operations\<close>

lemma wake_walk_steps:
  "wake_walk fuel a n pp ret k = Some (r, k') \<Longrightarrow>
     ksolo t (kernel_at s t (V_loop a n pp ret) k) (kernel_at s t (V_unlock a r) k')"
proof (induction fuel a n pp ret k rule: wake_walk.induct)
  case (2 fuel a n pp ret k)
  note IH = "2.IH" and prem = "2.prems"
  show ?case
  proof (cases "deref k pp")
    case None
    with prem show ?thesis by (intro ksolo_step [OF _ ksolo_refl]) (simp add: kernel_step_def)
  next
    case (Some q)
    consider (stop) "\<not> ret < n" | (other) "ret < n" "q_uaddr (futex_qs k q) \<noteq> a"
      | (match) "ret < n" "q_uaddr (futex_qs k q) = a" by blast
    then show ?thesis
    proof cases
      case stop
      with prem Some show ?thesis by (intro ksolo_step [OF _ ksolo_refl]) (simp add: kernel_step_def)
    next
      case other
      with IH(1) [OF Some other] prem Some show ?thesis
        by (intro ksolo_step [where s = "kernel_at s t (V_loop a n pp ret) k"]) (auto simp: kernel_step_def)
    next
      case match
      have step1: "kernel_step t False (kernel_at s t (V_loop a n pp ret) k) =
          Some (kernel_at s t (V_count a n pp ret q) (dequeue pp q k))"
        using match Some by (simp add: kernel_step_def)
      have step2: "kernel_step t False (kernel_at s t (V_count a n pp ret q) k) =
          Some (kernel_at s t (V_wake a n pp ret q) (waiters_dec (hash_futex a) k))" for k
        by (simp add: kernel_step_def)
      have step3: "kernel_step t False (kernel_at s t (V_wake a n pp ret q) k) =
          Some (kernel_at s t (V_loop a n pp (ret + 1)) (wake_task q k))" for k
        by (simp add: kernel_step_def)
      from prem Some match
      have "wake_walk fuel a n pp (ret + 1) (wake_task q (waiters_dec (hash_futex a) (dequeue pp q k))) = Some (r, k')"
        by simp
      with IH(2) [OF Some] match show ?thesis
        by (intro ksolo_step [OF step1] ksolo_step [OF step2] ksolo_step [OF step3]) simp
    qed
  qed
qed simp

lemma lock_step:
  assumes "hb_lock (buckets k b) = 0"
  shows "lock_bucket t False b p (kernel_at s t q k) = kernel_at s t p (hb_set_lock b 1 k)"
  using assms by (simp add: lock_bucket_def spin_lock_def atomic_compare_exchange_weak_def)

lemma unlock_step: "unlock_bucket t b p (kernel_at s t q k) = kernel_at s t p (hb_set_lock b 0 k)"
  by (simp add: unlock_bucket_def spin_unlock_def)

lemma kernel_futex_wake_steps:
  assumes free: "hb_lock (buckets k (hash_futex a)) = 0" and run: "kernel_futex_wake fuel a n k = Some (r, k')"
  shows "ksolo t (kernel_at s t (V_fast a n) k) (kernel_at s t (K_return r) k')"
proof (cases "hb_waiters (buckets k (hash_futex a)) = 0")
  case True
  with run show ?thesis
    by (intro ksolo_step [OF _ ksolo_refl]) (simp add: kernel_futex_wake_def kernel_step_def)
next
  case False
  let ?b = "hash_futex a"
  from False run have walk: "wake_walk fuel a n (Chain_of ?b) 0 k = Some (r, k')"
    by (simp add: kernel_futex_wake_def Let_def)
  then have locked: "wake_walk fuel a n (Chain_of ?b) 0 (hb_set_lock ?b 1 k) = Some (r, hb_set_lock ?b 1 k')"
    by (simp add: wake_walk_lock)
  have "hb_lock (buckets k' ?b) = 0" using wake_walk_keeps_lock [OF walk] free by simp
  then have released: "hb_set_lock ?b 0 (hb_set_lock ?b 1 k') = k'" by (simp add: hb_set_lock_same)
  have fast: "kernel_step t False (kernel_at s t (V_fast a n) k) = Some (kernel_at s t (V_lock a n) k)"
    using False by (simp add: kernel_step_def)
  have lock: "kernel_step t False (kernel_at s t (V_lock a n) k) =
      Some (kernel_at s t (V_loop a n (Chain_of ?b) 0) (hb_set_lock ?b 1 k))"
    using free by (simp add: kernel_step_def lock_step)
  have unlock: "kernel_step t False (kernel_at s t (V_unlock a r) (hb_set_lock ?b 1 k')) =
      Some (kernel_at s t (K_return r) k')"
    using released by (simp add: kernel_step_def unlock_step)
  from wake_walk_steps [OF locked] ksolo_step [OF unlock ksolo_refl]
  have "ksolo t (kernel_at s t (V_loop a n (Chain_of ?b) 0) (hb_set_lock ?b 1 k)) (kernel_at s t (K_return r) k')"
    by (rule ksolo_trans)
  with ksolo_step [OF fast] ksolo_step [OF lock] show ?thesis by blast
qed

lemma kernel_futex_wait_steps:
  assumes free: "hb_lock (buckets k (hash_futex a)) = 0" and run: "kernel_futex_wait t a val k = (res, k')"
  shows "ksolo t (kernel_at s t (W_lock a val) (set_q t (futex_q_init a) k))
    (kernel_at s t (case res of None \<Rightarrow> W_sleep | Some r \<Rightarrow> K_return r) k')"
proof -
  let ?b = "hash_futex a" and ?k = "set_q t (futex_q_init a) k"
  let ?l = "hb_set_lock ?b 1 ?k"
  have lock: "kernel_step t False (kernel_at s t (W_lock a val) ?k) = Some (kernel_at s t (W_check a val) ?l)"
    using free by (simp add: kernel_step_def lock_step)
  have free': "hb_set_lock ?b 0 (hb_set_lock ?b 1 k1) = k1" if "hb_lock (buckets k1 ?b) = 0" for k1
    using that by (simp add: hb_set_lock_same)
  show ?thesis
  proof (cases "user_mem k a = val")
    case False
    have check: "kernel_step t False (kernel_at s t (W_check a val) ?l) = Some (kernel_at s t (W_refuse a) ?l)"
      using False by (simp add: kernel_step_def)
    have refuse: "kernel_step t False (kernel_at s t (W_refuse a) ?l) = Some (kernel_at s t (K_return (- EWOULDBLOCK)) ?k)"
      using free free' [of ?k] by (simp add: kernel_step_def unlock_step)
    from False run have "res = Some (- EWOULDBLOCK)" "k' = ?k" by (simp_all add: kernel_futex_wait_def Let_def)
    with ksolo_step [OF lock] ksolo_step [OF check] ksolo_step [OF refuse] show ?thesis by simp
  next
    case True
    have check: "kernel_step t False (kernel_at s t (W_check a val) ?l) = Some (kernel_at s t (W_enqueue a) ?l)"
      using True by (simp add: kernel_step_def)
    have enq: "kernel_step t False (kernel_at s t (W_enqueue a) ?l) =
        Some (kernel_at s t (W_count a) (hb_set_lock ?b 1 (enqueue ?b t ?k)))"
      by (simp add: kernel_step_def hb_set_lock_ops)
    have cnt: "kernel_step t False (kernel_at s t (W_count a) (hb_set_lock ?b 1 (enqueue ?b t ?k))) =
        Some (kernel_at s t (W_unlock a) (hb_set_lock ?b 1 (waiters_inc ?b (enqueue ?b t ?k))))"
      by (simp add: kernel_step_def hb_set_lock_commute)
    have unlock: "kernel_step t False (kernel_at s t (W_unlock a) (hb_set_lock ?b 1 (waiters_inc ?b (enqueue ?b t ?k)))) =
        Some (kernel_at s t W_sleep (waiters_inc ?b (enqueue ?b t ?k)))"
      using free free' [of "waiters_inc ?b (enqueue ?b t ?k)"] by (simp add: kernel_step_def unlock_step)
    from True run have "res = None" "k' = waiters_inc ?b (enqueue ?b t ?k)"
      by (simp_all add: kernel_futex_wait_def Let_def)
    with ksolo_step [OF lock] ksolo_step [OF check] ksolo_step [OF enq] ksolo_step [OF cnt] ksolo_step [OF unlock]
    show ?thesis by simp
  qed
qed

text \<open>A sleeper that no wake has reached sleeps on; one that a wake has reached returns 0 at its next step.\<close>

lemma sleeper_step:
  assumes "kpcs s u = W_sleep"
  shows "\<exists>s'. kernel_act (Kernel_step u sp) s = Some s' \<and>
    (if wake_pending (q_task (futex_qs (kern s) u)) then kpcs s' u = K_return 0 else s' = s)"
  using assms by (cases "wake_pending (q_task (futex_qs (kern s) u))") (simp_all add: kernel_step_def schedule_eq)

lemma kernel_futex_wait_pending:
  "kernel_futex_wait t a val k = (res, k') \<Longrightarrow> \<not> wake_pending (q_task (futex_qs k' t))"
  by (auto simp: kernel_futex_wait_def Let_def enqueue_def futex_q_init_def set_current_state_def split: if_splits)

section \<open>Property\<close>

text \<open>C37: the kernel operations step by step. A thread that enters \<^verbatim>\<open>kernel_futex_wake\<close> or
  \<^verbatim>\<open>kernel_futex_wait\<close> while the bucket is free, and moves alone, comes to its return, or to sleep,
  with the result and the kernel that the operation in one piece gives, the bucket free again; the
  wake always comes to its return, as its loop ends with the chain. After the wait the thread does
  not leave its sleep by itself. After the wake exactly the first \<open>n\<close> threads on the chain that wait
  on this word leave theirs, of all those that no earlier wake has reached: at its next step each of
  them returns 0, and any other sleeper sleeps on.\<close>

theorem kernel_operations_step_by_step:
  fixes n :: int
  assumes user: "kpcs s t = K_user" and free: "hb_lock (buckets (kern s) (hash_futex a)) = 0"
    and ok: "bucket_ok (kern s) (hash_futex a) xs" and fuel: "length xs < fuel"
  defines "W \<equiv> take (nat n) (filter (\<lambda>q. q_uaddr (futex_qs (kern s) q) = a) xs)"
  shows "(\<exists>s1 k'. kernel_futex_wake fuel a n (kern s) = Some (int (length W), k') \<and>
      kernel_act (Enter_wake t a n) s = Some s1 \<and> ksolo t s1 (kernel_at s t (K_return (int (length W))) k') \<and>
      (\<forall>u sp. kpcs s u = W_sleep \<and> \<not> wake_pending (q_task (futex_qs (kern s) u)) \<longrightarrow>
        (\<exists>s2. kernel_act (Kernel_step u sp) (kernel_at s t (K_return (int (length W))) k') = Some s2 \<and>
           kpcs s2 u = (if u \<in> set W then K_return 0 else W_sleep)))) \<and>
    (\<exists>s1 res k' p. kernel_futex_wait t a val (kern s) = (res, k') \<and>
      p = (case res of None \<Rightarrow> W_sleep | Some r \<Rightarrow> K_return r) \<and>
      kernel_act (Enter_wait t a val) s = Some s1 \<and> ksolo t s1 (kernel_at s t p k') \<and>
      (res = None \<longrightarrow> kernel_act (Kernel_step t sp) (kernel_at s t p k') = Some (kernel_at s t p k')))"
proof (rule conjI)
  from kernel_futex_wake_post [OF ok fuel, of n] obtain k' where
    run: "kernel_futex_wake fuel a n (kern s) = Some (int (length W), k')" and
    node: "\<And>q. if q \<in> set W then woken_node (futex_qs (kern s) q) (futex_qs k' q)
      else same_node (futex_qs (kern s) q) (futex_qs k' q)"
    unfolding W_def Let_def by blast
  let ?s = "kernel_at s t (K_return (int (length W))) k'"
  have "ksolo t (kernel_at s t (V_fast a n) (kern s)) ?s"
    using free run by (rule kernel_futex_wake_steps)
  moreover have "kernel_act (Enter_wake t a n) s = Some (kernel_at s t (V_fast a n) (kern s))"
    using user by (simp add: kernel_at_def kmove_def)
  moreover have "\<exists>s2. kernel_act (Kernel_step u sp) ?s = Some s2 \<and>
      kpcs s2 u = (if u \<in> set W then K_return 0 else W_sleep)"
    if u: "kpcs s u = W_sleep \<and> \<not> wake_pending (q_task (futex_qs (kern s) u))" for u sp
  proof -
    have pc: "kpcs ?s u = W_sleep" using u user by auto
    have "wake_pending (q_task (futex_qs k' u)) \<longleftrightarrow> u \<in> set W"
      using node [of u] u by (auto simp: woken_node_def same_node_def split: if_splits)
    with sleeper_step [OF pc, of sp] pc show ?thesis by (auto split: if_splits)
  qed
  ultimately show "\<exists>s1 k'. kernel_futex_wake fuel a n (kern s) = Some (int (length W), k') \<and>
      kernel_act (Enter_wake t a n) s = Some s1 \<and> ksolo t s1 (kernel_at s t (K_return (int (length W))) k') \<and>
      (\<forall>u sp. kpcs s u = W_sleep \<and> \<not> wake_pending (q_task (futex_qs (kern s) u)) \<longrightarrow>
        (\<exists>s2. kernel_act (Kernel_step u sp) (kernel_at s t (K_return (int (length W))) k') = Some s2 \<and>
           kpcs s2 u = (if u \<in> set W then K_return 0 else W_sleep)))"
    using run by blast
next
  obtain res k' where run: "kernel_futex_wait t a val (kern s) = (res, k')" by (cases "kernel_futex_wait t a val (kern s)")
  let ?p = "case res of None \<Rightarrow> W_sleep | Some r \<Rightarrow> K_return r"
  have "ksolo t (kernel_at s t (W_lock a val) (set_q t (futex_q_init a) (kern s))) (kernel_at s t ?p k')"
    using free run by (rule kernel_futex_wait_steps)
  moreover have "kernel_act (Enter_wait t a val) s = Some (kernel_at s t (W_lock a val) (set_q t (futex_q_init a) (kern s)))"
    using user by (simp add: kernel_at_def kmove_def)
  moreover have "res = None \<longrightarrow> kernel_act (Kernel_step t sp) (kernel_at s t ?p k') = Some (kernel_at s t ?p k')"
    using sleeper_step [of "kernel_at s t ?p k'" t sp] kernel_futex_wait_pending [OF run] by auto
  ultimately show "\<exists>s1 res k' p. kernel_futex_wait t a val (kern s) = (res, k') \<and>
      p = (case res of None \<Rightarrow> W_sleep | Some r \<Rightarrow> K_return r) \<and>
      kernel_act (Enter_wait t a val) s = Some s1 \<and> ksolo t s1 (kernel_at s t p k') \<and>
      (res = None \<longrightarrow> kernel_act (Kernel_step t sp) (kernel_at s t p k') = Some (kernel_at s t p k'))"
    using run by blast
qed

text \<open>With the three sleepers of \<open>kernel_three\<close>, a wake of one thread on the word at 4.\<close>

theorem kernel_operations_step_by_step_witness:
  "\<exists>s1 k'. kernel_act (Enter_wake 9 4 1) \<lparr>kern = kernel_three, kpcs = (\<lambda>_. W_sleep)(9 := K_user)\<rparr> = Some s1 \<and>
     kernel_futex_wake 4 4 1 kernel_three = Some (1, k') \<and>
     ksolo 9 s1 \<lparr>kern = k', kpcs = (\<lambda>_. W_sleep)(9 := K_return 1)\<rparr> \<and>
     (\<exists>s2. kernel_act (Kernel_step 3 False) \<lparr>kern = k', kpcs = (\<lambda>_. W_sleep)(9 := K_return 1)\<rparr> = Some s2 \<and>
       kpcs s2 3 = K_return 0) \<and>
     (\<exists>s2. kernel_act (Kernel_step 1 False) \<lparr>kern = k', kpcs = (\<lambda>_. W_sleep)(9 := K_return 1)\<rparr> = Some s2 \<and>
       kpcs s2 1 = W_sleep)"
proof -
  let ?s = "\<lparr>kern = kernel_three, kpcs = (\<lambda>_. W_sleep)(9 := K_user)\<rparr>"
  have b: "hash_futex 4 = 1" by (simp add: hash_futex_def N_BUCKETS_def)
  have free: "hb_lock (buckets (kern ?s) (hash_futex 4)) = 0" by (simp add: kernel_eval)
  have ok: "bucket_ok (kern ?s) (hash_futex 4) [3, 2, 1]" unfolding b using kernel_three_ok by simp
  have at: "kernel_at ?s 9 p k = \<lparr>kern = k, kpcs = (\<lambda>_. W_sleep)(9 := p)\<rparr>" for p k by (simp add: kernel_at_def)
  have W: "take (nat 1) (filter (\<lambda>q. q_uaddr (futex_qs (kern ?s) q) = 4) [3, 2, 1]) = [3]"
    by (simp add: kernel_three_uaddr)
  have pc: "kpcs ?s 3 = W_sleep" "kpcs ?s 1 = W_sleep" by simp_all
  have pending: "\<not> wake_pending (q_task (futex_qs (kern ?s) 3))" "\<not> wake_pending (q_task (futex_qs (kern ?s) 1))"
    by (simp_all add: kernel_eval)
  from kernel_operations_step_by_step [of ?s 9 4, OF _ free ok, of 4 1 0 False] obtain s1 k' where
    "kernel_futex_wake 4 4 1 kernel_three = Some (1, k')" "kernel_act (Enter_wake 9 4 1) ?s = Some s1"
    "ksolo 9 s1 (kernel_at ?s 9 (K_return 1) k')"
    and sleep: "\<And>u. kpcs ?s u = W_sleep \<Longrightarrow> \<not> wake_pending (q_task (futex_qs (kern ?s) u)) \<Longrightarrow>
      \<exists>s2. kernel_act (Kernel_step u False) (kernel_at ?s 9 (K_return 1) k') = Some s2 \<and>
        kpcs s2 u = (if u \<in> set [3] then K_return 0 else W_sleep)"
    unfolding W by auto
  then show ?thesis
    using sleep [OF pc(1) pending(1)] sleep [OF pc(2) pending(2)] unfolding at
    by (intro exI [of _ s1] exI [of _ k']) simp
qed

end
