(* ===== verification/Kernel_Linear.thy ===== *)
theory Kernel_Linear
  imports Kernel_Conc
begin

text \<open>
  What the concurrent kernel of \<open>Kernel_Conc\<close> promises to userspace. \<^verbatim>\<open>kernel_futex_wait\<close> and
  \<^verbatim>\<open>kernel_futex_wake\<close> run in many small steps by many threads at once; every history of their calls
  and returns is one of a specification in which each call takes effect in one step: a wait compares
  the word and queues the thread, a wake takes its threads off the queue. The one exception is the
  fast path of the wake, which may miss waiters, but only such as are just arriving: that a thread
  has given the lock of its bucket back and goes to sleep is an event of the history too, and from
  then on no wake may miss it.
\<close>

section \<open>The specification\<close>

text \<open>
  Calls, returns with their results, stores of userspace, and threads going to sleep, which the
  kernel does where it leaves the lock with the thread queued.
\<close>

datatype futex_event =
    Ev_wait tid addr u32
  | Ev_wake tid addr int
  | Ev_return tid int
  | Ev_store addr u32
  | Ev_sleep tid

text \<open>
  A thread in a call of wait or wake that has not taken effect, queued on a word and not yet asleep
  (\<open>Fs_arriving\<close>), asleep, or with the result it will return.
\<close>

datatype futex_phase =
    Fs_user
  | Fs_wait addr u32
  | Fs_arriving addr
  | Fs_asleep addr
  | Fs_wake addr int
  | Fs_return int

text \<open>\<open>fs_queue A a\<close> are the threads that wait on the word \<open>a\<close>, the latest first.\<close>

record futex_spec =
  fs_mem :: "addr \<Rightarrow> u32"
  fs_queue :: "addr \<Rightarrow> tid list"
  fs_phase :: "tid \<Rightarrow> futex_phase"

datatype futex_spec_action =
    Fs_event futex_event
  | Fs_compare tid
  | Fs_deliver tid
  | Fs_miss tid

definition fs_goto :: "tid \<Rightarrow> futex_phase \<Rightarrow> futex_spec \<Rightarrow> futex_spec" where
  "fs_goto t p A = A\<lparr>fs_phase := (fs_phase A)(t := p)\<rparr>"

fun fs_event :: "futex_event \<Rightarrow> futex_spec \<Rightarrow> futex_spec option" where
  "fs_event (Ev_wait t a val) A =
     (if fs_phase A t = Fs_user then Some (fs_goto t (Fs_wait a val) A) else None)"
| "fs_event (Ev_wake t a n) A =
     (if fs_phase A t = Fs_user then Some (fs_goto t (Fs_wake a n) A) else None)"
| "fs_event (Ev_return t r) A =
     (if fs_phase A t = Fs_return r then Some (fs_goto t Fs_user A) else None)"
| "fs_event (Ev_store a val) A = Some (A\<lparr>fs_mem := (fs_mem A)(a := val)\<rparr>)"
| "fs_event (Ev_sleep t) A =
     (case fs_phase A t of Fs_arriving a \<Rightarrow> Some (fs_goto t (Fs_asleep a) A) | _ \<Rightarrow> None)"

text \<open>The wake of \<open>t\<close> takes effect: the first \<open>n\<close> threads of the queue will return 0.\<close>

definition fs_deliver :: "tid \<Rightarrow> addr \<Rightarrow> int \<Rightarrow> futex_spec \<Rightarrow> futex_spec" where
  "fs_deliver t a n A =
     (let W = take (nat n) (fs_queue A a) in
      A\<lparr>fs_queue := (fs_queue A)(a := drop (nat n) (fs_queue A a)),
        fs_phase := (\<lambda>u. if u \<in> set W then Fs_return 0 else fs_phase A u)(t := Fs_return (int (length W)))\<rparr>)"

fun futex_spec_act :: "futex_spec_action \<Rightarrow> futex_spec \<Rightarrow> futex_spec option" where
  "futex_spec_act (Fs_event e) A = fs_event e A"
| "futex_spec_act (Fs_compare t) A =
     (case fs_phase A t of
        Fs_wait a val \<Rightarrow>
          Some (if fs_mem A a = val
                then fs_goto t (Fs_arriving a) (A\<lparr>fs_queue := (fs_queue A)(a := t # fs_queue A a)\<rparr>)
                else fs_goto t (Fs_return (- EWOULDBLOCK)) A)
      | _ \<Rightarrow> None)"
| "futex_spec_act (Fs_deliver t) A =
     (case fs_phase A t of Fs_wake a n \<Rightarrow> Some (fs_deliver t a n A) | _ \<Rightarrow> None)"
| "futex_spec_act (Fs_miss t) A =
     (case fs_phase A t of
        Fs_wake a n \<Rightarrow>
          if list_all (\<lambda>u. fs_phase A u = Fs_arriving a) (fs_queue A a)
          then Some (fs_goto t (Fs_return 0) A) else None
      | _ \<Rightarrow> None)"

fun spec_events :: "futex_spec_action \<Rightarrow> futex_event list" where
  "spec_events (Fs_event e) = [e]"
| "spec_events _ = []"

definition futex_spec_init :: "(addr \<Rightarrow> u32) \<Rightarrow> futex_spec" where
  "futex_spec_init mem = \<lparr>fs_mem = mem, fs_queue = (\<lambda>_. []), fs_phase = (\<lambda>_. Fs_user)\<rparr>"

section \<open>The histories of the kernel\<close>

definition kernel_events :: "ksys \<Rightarrow> kaction \<Rightarrow> futex_event list" where
  "kernel_events s c =
     (case c of
        Enter_wait t a val \<Rightarrow> [Ev_wait t a val]
      | Enter_wake t a n \<Rightarrow> [Ev_wake t a n]
      | Leave t \<Rightarrow> (case kpcs s t of K_return r \<Rightarrow> [Ev_return t r] | _ \<Rightarrow> [])
      | Store a val \<Rightarrow> [Ev_store a val]
      | Kernel_step t spurious \<Rightarrow> (case kpcs s t of W_unlock a \<Rightarrow> [Ev_sleep t] | _ \<Rightarrow> []))"

text \<open>The threads below \<open>N\<close> call the kernel.\<close>

fun kaction_below :: "nat \<Rightarrow> kaction \<Rightarrow> bool" where
  "kaction_below N (Enter_wait t a val) \<longleftrightarrow> t < N"
| "kaction_below N (Enter_wake t a n) \<longleftrightarrow> t < N"
| "kaction_below N _ \<longleftrightarrow> True"

definition kernel_act_below :: "nat \<Rightarrow> kaction \<Rightarrow> ksys \<Rightarrow> ksys option" where
  "kernel_act_below N c s = (if kaction_below N c then kernel_act c s else None)"

section \<open>The simulation\<close>

definition on_word :: "kernel \<Rightarrow> addr \<Rightarrow> tid list \<Rightarrow> tid list" where
  "on_word k a xs = filter (\<lambda>q. q_uaddr (futex_qs k q) = a) xs"

text \<open>
  The specification is ahead of the kernel by what the thread in the bucket lock still has to do: a
  waiter that has compared is not on the chain, a waker has not unlinked all it will wake.
\<close>

fun joining :: "tid \<Rightarrow> kpc \<Rightarrow> addr \<Rightarrow> tid list" where
  "joining t (W_enqueue a) a' = (if a' = a then [t] else [])"
| "joining t _ a' = []"

fun to_wake :: "kpc \<Rightarrow> addr \<Rightarrow> nat" where
  "to_wake (V_loop a n pp ret) a' = (if a' = a then nat (n - ret) else 0)"
| "to_wake (V_count a n pp ret q) a' = (if a' = a then nat (n - (ret + 1)) else 0)"
| "to_wake (V_wake a n pp ret q) a' = (if a' = a then nat (n - (ret + 1)) else 0)"
| "to_wake _ a' = 0"

definition spec_part :: "kernel \<Rightarrow> (nat \<Rightarrow> tid list) \<Rightarrow> tid \<Rightarrow> kpc \<Rightarrow> addr \<Rightarrow> tid list" where
  "spec_part k Q t p a = joining t p a @ drop (to_wake p a) (on_word k a (Q (hash_futex a)))"

definition queue_rel :: "ksys \<Rightarrow> (nat \<Rightarrow> tid list) \<Rightarrow> futex_spec \<Rightarrow> bool" where
  "queue_rel s Q A \<longleftrightarrow> (\<forall>a.
     (\<forall>h. crit (kpcs s h) = Some (hash_futex a) \<longrightarrow> fs_queue A a = spec_part (kern s) Q h (kpcs s h) a) \<and>
     ((\<forall>h. crit (kpcs s h) \<noteq> Some (hash_futex a)) \<longrightarrow> fs_queue A a = on_word (kern s) a (Q (hash_futex a))))"

text \<open>How many threads the waker will have woken in all.\<close>

definition wake_result :: "kernel \<Rightarrow> (nat \<Rightarrow> tid list) \<Rightarrow> addr \<Rightarrow> int \<Rightarrow> int \<Rightarrow> int" where
  "wake_result k Q a n ret = ret + int (length (take (nat (n - ret)) (on_word k a (Q (hash_futex a)))))"

definition phase_rel :: "ksys \<Rightarrow> (nat \<Rightarrow> tid list) \<Rightarrow> futex_spec \<Rightarrow> tid \<Rightarrow> bool" where
  "phase_rel s Q A t \<longleftrightarrow> fs_phase A t =
     (case kpcs s t of
        K_user \<Rightarrow> Fs_user
      | W_lock a val \<Rightarrow> Fs_wait a val
      | W_check a val \<Rightarrow> Fs_wait a val
      | W_refuse a \<Rightarrow> Fs_return (- EWOULDBLOCK)
      | W_enqueue a \<Rightarrow> Fs_arriving a
      | W_count a \<Rightarrow> Fs_arriving a
      | W_unlock a \<Rightarrow> Fs_arriving a
      | W_sleep \<Rightarrow>
          (let a = q_uaddr (futex_qs (kern s) t) in
           if t \<in> set (fs_queue A a) then Fs_asleep a else Fs_return 0)
      | V_fast a n \<Rightarrow> Fs_wake a n
      | V_lock a n \<Rightarrow> Fs_wake a n
      | V_loop a n pp ret \<Rightarrow> Fs_return (wake_result (kern s) Q a n ret)
      | V_count a n pp ret q \<Rightarrow> Fs_return (wake_result (kern s) Q a n (ret + 1))
      | V_wake a n pp ret q \<Rightarrow> Fs_return (wake_result (kern s) Q a n (ret + 1))
      | V_unlock a ret \<Rightarrow> Fs_return ret
      | K_return r \<Rightarrow> Fs_return r)"

text \<open>A walk has passed nodes of other words only.\<close>

definition walked :: "kernel \<Rightarrow> addr \<Rightarrow> link \<Rightarrow> tid list \<Rightarrow> bool" where
  "walked k a pp xs \<longleftrightarrow> (\<exists>ys zs. xs = ys @ zs \<and>
     pp = (if ys = [] then Chain_of (hash_futex a) else Next_of (last ys)) \<and> on_word k a ys = [])"

definition walk_rel :: "ksys \<Rightarrow> (nat \<Rightarrow> tid list) \<Rightarrow> tid \<Rightarrow> bool" where
  "walk_rel s Q t \<longleftrightarrow>
     (case kpcs s t of
        V_loop a n pp ret \<Rightarrow> walked (kern s) a pp (Q (hash_futex a))
      | V_count a n pp ret q \<Rightarrow> walked (kern s) a pp (Q (hash_futex a))
      | V_wake a n pp ret q \<Rightarrow> walked (kern s) a pp (Q (hash_futex a))
      | _ \<Rightarrow> True)"

definition futex_rel :: "ksys \<Rightarrow> (nat \<Rightarrow> tid list) \<Rightarrow> futex_spec \<Rightarrow> bool" where
  "futex_rel s Q A \<longleftrightarrow> (\<forall>b. queue_ok s b (Q b)) \<and> fs_mem A = user_mem (kern s) \<and> queue_rel s Q A \<and>
     (\<forall>t. phase_rel s Q A t \<and> walk_rel s Q t)"

lemma queue_rel_move:
  assumes rel: "queue_rel s Q A" and m: "mutex_ok s" "mutex_ok s'" and pcs: "kpcs s' = (kpcs s)(t := p)"
    and mine: "\<And>a. crit p = Some (hash_futex a) \<Longrightarrow> fs_queue A' a = spec_part (kern s') Q' t p a"
    and freed: "\<And>a. crit (kpcs s t) = Some (hash_futex a) \<Longrightarrow> crit p \<noteq> Some (hash_futex a) \<Longrightarrow>
      fs_queue A' a = on_word (kern s') a (Q' (hash_futex a))"
    and other: "\<And>a. crit (kpcs s t) \<noteq> Some (hash_futex a) \<Longrightarrow> crit p \<noteq> Some (hash_futex a) \<Longrightarrow>
      fs_queue A' a = fs_queue A a \<and>
      on_word (kern s') a (Q' (hash_futex a)) = on_word (kern s) a (Q (hash_futex a))"
  shows "queue_rel s' Q' A'"
  unfolding queue_rel_def
proof (intro allI conjI impI)
  fix a h assume h: "crit (kpcs s' h) = Some (hash_futex a)"
  show "fs_queue A' a = spec_part (kern s') Q' h (kpcs s' h) a"
  proof (cases "h = t")
    case True
    with h mine pcs show ?thesis by simp
  next
    case False
    with h pcs have hs: "crit (kpcs s h) = Some (hash_futex a)" by simp
    have "crit (kpcs s t) \<noteq> Some (hash_futex a)" using crit_unique [OF m(1) hs] False by blast
    moreover have "crit p \<noteq> Some (hash_futex a)" using crit_unique [OF m(2) h, of t] False pcs by auto
    ultimately show ?thesis using other rel hs False pcs by (simp add: queue_rel_def spec_part_def)
  qed
next
  fix a assume none: "\<forall>h. crit (kpcs s' h) \<noteq> Some (hash_futex a)"
  then have p: "crit p \<noteq> Some (hash_futex a)" using pcs by (metis fun_upd_same)
  show "fs_queue A' a = on_word (kern s') a (Q' (hash_futex a))"
  proof (cases "crit (kpcs s t) = Some (hash_futex a)")
    case True
    with p freed show ?thesis by simp
  next
    case False
    then have "\<forall>h. crit (kpcs s h) \<noteq> Some (hash_futex a)" using none pcs by (metis fun_upd_other)
    with rel other [OF False p] show ?thesis by (simp add: queue_rel_def)
  qed
qed

subsection \<open>Chains and words\<close>

lemma on_word_simps [simp]:
  "on_word k a [] = []"
  "on_word k a (x # xs) = (if q_uaddr (futex_qs k x) = a then x # on_word k a xs else on_word k a xs)"
  "on_word k a (xs @ ys) = on_word k a xs @ on_word k a ys"
  "set (on_word k a xs) = {q \<in> set xs. q_uaddr (futex_qs k q) = a}"
  by (simp_all add: on_word_def)

lemma on_word_cong:
  "(\<And>q. q \<in> set xs \<Longrightarrow> q_uaddr (futex_qs k' q) = q_uaddr (futex_qs k q)) \<Longrightarrow>
    on_word k' a xs = on_word k a xs"
  by (auto simp: on_word_def intro: filter_cong)

lemma distinct_on_word: "distinct xs \<Longrightarrow> distinct (on_word k a xs)"
  by (simp add: on_word_def)

lemma lseg_target:
  "lseg k p (ys @ zs) \<Longrightarrow> ys \<noteq> [] \<Longrightarrow>
    deref k (Next_of (last ys)) = (case zs of [] \<Rightarrow> None | z # _ \<Rightarrow> Some z)"
proof (induction ys arbitrary: p)
  case (Cons y ys)
  show ?case
  proof (cases "ys = []")
    case True
    with Cons.prems show ?thesis by (cases zs) simp_all
  next
    case False
    with Cons.prems(1) Cons.IH [OF _ False] show ?thesis by auto
  qed
qed simp

text \<open>Where a walk stands: the node its link leads to is the first of the rest.\<close>

lemma walked_target:
  assumes "walked k a pp xs" and "queue k (hash_futex a) xs" and "distinct xs"
  obtains (ended) "deref k pp = None" "on_word k a xs = []"
    | (found) q zs where "deref k pp = Some q" "q_uaddr (futex_qs k q) = a" "on_word k a xs = q # on_word k a zs"
        "walked k a pp (remove1 q xs)" "on_word k a (remove1 q xs) = on_word k a zs" "q \<in> set xs"
    | (other) q where "deref k pp = Some q" "q_uaddr (futex_qs k q) \<noteq> a" "walked k a (Next_of q) xs" "q \<in> set xs"
proof -
  from assms(1) obtain ys zs where xs: "xs = ys @ zs"
    and pp: "pp = (if ys = [] then Chain_of (hash_futex a) else Next_of (last ys))" and none: "on_word k a ys = []"
    unfolding walked_def by blast
  have d: "deref k pp = (case zs of [] \<Rightarrow> None | z # _ \<Rightarrow> Some z)"
  proof (cases "ys = []")
    case True
    with assms(2) xs pp show ?thesis by (cases zs) simp_all
  next
    case False
    with lseg_target [OF assms(2) [unfolded xs] False] pp show ?thesis by simp
  qed
  show thesis
  proof (cases zs)
    case Nil
    with d xs none show thesis by (intro ended) simp_all
  next
    case (Cons q zs')
    show thesis
    proof (cases "q_uaddr (futex_qs k q) = a")
      case True
      have "remove1 q xs = ys @ zs'" using assms(3) xs Cons by (simp add: remove1_append)
      moreover from this pp none have "walked k a pp (remove1 q xs)" by (auto simp: walked_def)
      ultimately show thesis using d xs none Cons True by (intro found [of q zs']) simp_all
    next
      case False
      have "walked k a (Next_of q) xs"
        unfolding walked_def by (rule exI [of _ "ys @ [q]"], rule exI [of _ zs']) (use xs Cons False none in simp)
      with d xs Cons False show thesis by (intro other [of q]) simp_all
    qed
  qed
qed

lemma walked_cong:
  assumes "walked k a pp xs" and "\<And>q. q \<in> set xs \<Longrightarrow> q_uaddr (futex_qs k' q) = q_uaddr (futex_qs k q)"
  shows "walked k' a pp xs"
proof -
  from assms(1) obtain ys zs where xs: "xs = ys @ zs"
    and pp: "pp = (if ys = [] then Chain_of (hash_futex a) else Next_of (last ys))" and none: "on_word k a ys = []"
    unfolding walked_def by blast
  have "on_word k' a ys = on_word k a ys" by (rule on_word_cong) (use assms(2) xs in simp)
  with xs pp none show ?thesis unfolding walked_def by metis
qed

subsection \<open>Steps\<close>

lemma futex_relD:
  assumes "futex_rel s Q A"
  shows "queue_ok s b (Q b)" and "fs_mem A = user_mem (kern s)" and "queue_rel s Q A"
    and "phase_rel s Q A t" and "walk_rel s Q t"
  using assms by (simp_all add: futex_rel_def)

text \<open>A thread that does not move, when nothing it looks at has changed.\<close>

lemma phase_rel_keep:
  assumes "phase_rel s Q A u" and "kpcs s' u = kpcs s u" and "fs_phase A' u = fs_phase A u"
    and "q_uaddr (futex_qs (kern s') u) = q_uaddr (futex_qs (kern s) u)"
    and "\<And>a. kpcs s u = W_sleep \<Longrightarrow> u \<in> set (fs_queue A' a) \<longleftrightarrow> u \<in> set (fs_queue A a)"
    and "\<And>a. crit (kpcs s u) = Some (hash_futex a) \<Longrightarrow>
      on_word (kern s') a (Q' (hash_futex a)) = on_word (kern s) a (Q (hash_futex a))"
  shows "phase_rel s' Q' A' u"
  using assms by (cases "kpcs s u") (simp_all add: phase_rel_def wake_result_def Let_def)

lemma walk_rel_keep:
  assumes "walk_rel s Q u" and "kpcs s' u = kpcs s u"
    and "\<And>b q. crit (kpcs s u) = Some b \<Longrightarrow> Q' b = Q b"
    and "\<And>b q. q \<in> set (Q b) \<Longrightarrow> q_uaddr (futex_qs (kern s') q) = q_uaddr (futex_qs (kern s) q)"
  shows "walk_rel s' Q' u"
  using assms by (cases "kpcs s u") (auto simp: walk_rel_def intro: walked_cong)

lemma futex_rel_move:
  assumes rel: "futex_rel s Q A" and m: "mutex_ok s" "mutex_ok s'" and pcs: "kpcs s' = (kpcs s)(t := p)"
    and queues: "\<And>b. queue_ok s' b (Q' b)" and mem: "fs_mem A' = user_mem (kern s')"
    and nodes: "\<And>q b. q \<noteq> t \<or> q \<in> set (Q b) \<Longrightarrow> q_uaddr (futex_qs (kern s') q) = q_uaddr (futex_qs (kern s) q)"
    and Qs: "\<And>b. crit (kpcs s t) \<noteq> Some b \<Longrightarrow> crit p \<noteq> Some b \<Longrightarrow> Q' b = Q b"
    and fqs: "\<And>a. crit (kpcs s t) \<noteq> Some (hash_futex a) \<Longrightarrow> crit p \<noteq> Some (hash_futex a) \<Longrightarrow>
      fs_queue A' a = fs_queue A a"
    and mine: "\<And>a. crit p = Some (hash_futex a) \<Longrightarrow> fs_queue A' a = spec_part (kern s') Q' t p a"
    and freed: "\<And>a. crit (kpcs s t) = Some (hash_futex a) \<Longrightarrow> crit p \<noteq> Some (hash_futex a) \<Longrightarrow>
      fs_queue A' a = on_word (kern s') a (Q' (hash_futex a))"
    and own: "phase_rel s' Q' A' t" "walk_rel s' Q' t"
    and awake: "\<And>u. u \<noteq> t \<Longrightarrow> kpcs s u \<noteq> W_sleep \<Longrightarrow> fs_phase A' u = fs_phase A u"
    and asleep: "\<And>u. u \<noteq> t \<Longrightarrow> kpcs s u = W_sleep \<Longrightarrow> phase_rel s' Q' A' u"
  shows "futex_rel s' Q' A'"
proof -
  note R = futex_relD [OF rel]
  have words: "on_word (kern s') a (Q' (hash_futex a)) = on_word (kern s) a (Q (hash_futex a))"
    if "crit (kpcs s t) \<noteq> Some (hash_futex a)" "crit p \<noteq> Some (hash_futex a)" for a
    unfolding Qs [OF that] by (rule on_word_cong) (use nodes in blast)
  have apart: "crit (kpcs s t) \<noteq> Some b" "crit p \<noteq> Some b" if "u \<noteq> t" "crit (kpcs s u) = Some b" for u b
  proof -
    show "crit (kpcs s t) \<noteq> Some b" using crit_unique [OF m(1) that(2)] that(1) by blast
    have "crit (kpcs s' u) = Some b" using that pcs by simp
    with crit_unique [OF m(2) this, of t] that(1) pcs show "crit p \<noteq> Some b" by auto
  qed
  have qrel: "queue_rel s' Q' A'"
    by (rule queue_rel_move [OF R(3) m pcs mine freed]) (use fqs words in blast)+
  have "phase_rel s' Q' A' u \<and> walk_rel s' Q' u" for u
  proof (cases "u = t")
    case True
    with own show ?thesis by simp
  next
    case False
    have "phase_rel s' Q' A' u"
    proof (cases "kpcs s u = W_sleep")
      case True
      with asleep False show ?thesis by blast
    next
      case no: False
      show ?thesis
        by (rule phase_rel_keep [OF R(4)]) (use False no pcs awake nodes words apart [OF False] in auto)
    qed
    moreover have "walk_rel s' Q' u"
      by (rule walk_rel_keep [OF R(5)]) (use False pcs in simp, use Qs apart [OF False] in blast, use nodes in blast)
    ultimately show ?thesis ..
  qed
  with queues mem qrel show ?thesis by (simp add: futex_rel_def)
qed

text \<open>A step after which the queues of the specification have the same other threads on them.\<close>

lemma futex_rel_own:
  assumes rel: "futex_rel s Q A" and m: "mutex_ok s" "mutex_ok s'" and pcs: "kpcs s' = (kpcs s)(t := p)"
    and queues: "\<And>b. queue_ok s' b (Q' b)" and mem: "fs_mem A' = user_mem (kern s')"
    and nodes: "\<And>q b. q \<noteq> t \<or> q \<in> set (Q b) \<Longrightarrow> q_uaddr (futex_qs (kern s') q) = q_uaddr (futex_qs (kern s) q)"
    and Qs: "\<And>b. crit (kpcs s t) \<noteq> Some b \<Longrightarrow> crit p \<noteq> Some b \<Longrightarrow> Q' b = Q b"
    and fqs: "\<And>a. crit (kpcs s t) \<noteq> Some (hash_futex a) \<Longrightarrow> crit p \<noteq> Some (hash_futex a) \<Longrightarrow>
      fs_queue A' a = fs_queue A a"
    and mine: "\<And>a. crit p = Some (hash_futex a) \<Longrightarrow> fs_queue A' a = spec_part (kern s') Q' t p a"
    and freed: "\<And>a. crit (kpcs s t) = Some (hash_futex a) \<Longrightarrow> crit p \<noteq> Some (hash_futex a) \<Longrightarrow>
      fs_queue A' a = on_word (kern s') a (Q' (hash_futex a))"
    and own: "phase_rel s' Q' A' t" "walk_rel s' Q' t"
    and others: "\<And>u a. u \<noteq> t \<Longrightarrow> fs_phase A' u = fs_phase A u \<and> (u \<in> set (fs_queue A' a) \<longleftrightarrow> u \<in> set (fs_queue A a))"
  shows "futex_rel s' Q' A'"
proof (rule futex_rel_move [OF rel m pcs queues mem nodes Qs fqs mine freed own])
  fix u assume "u \<noteq> t" "kpcs s u = W_sleep"
  then show "phase_rel s' Q' A' u"
    using others nodes pcs by (intro phase_rel_keep [OF futex_relD(4) [OF rel]]) auto
qed (use others in auto)

lemma not_ahead: "crit p \<noteq> Some (hash_futex a) \<Longrightarrow> joining t p a = [] \<and> to_wake p a = 0"
  by (cases p) auto

text \<open>A thread with the bucket lock knows how far the specification is ahead; so does one that gets it.\<close>

lemma queue_rel_own:
  assumes rel: "queue_rel s Q A" and m: "mutex_ok s" "mutex_ok (kmove t p f s)"
    and c: "crit (kpcs s t) = Some (hash_futex a) \<or> crit p = Some (hash_futex a)"
  shows "fs_queue A a = spec_part (kern s) Q t (kpcs s t) a"
proof (cases "crit (kpcs s t) = Some (hash_futex a)")
  case True
  with rel show ?thesis by (simp add: queue_rel_def)
next
  case False
  with c have p: "crit (kpcs (kmove t p f s) t) = Some (hash_futex a)" by simp
  have "crit (kpcs s h) \<noteq> Some (hash_futex a)" for h
    using crit_unique [OF m(2) p, of h] False by (cases "h = t") auto
  with rel not_ahead [OF False] show ?thesis by (simp add: queue_rel_def spec_part_def)
qed

lemma kmove_pcs: "kpcs (kmove t p f s) = (kpcs s)(t := p)"
  by (simp add: kmove_def)

text \<open>Steps that neither queue nor unlink and leave the specification's queues alone.\<close>

lemma futex_rel_goto:
  assumes rel: "futex_rel s Q A" and m: "mutex_ok s" "mutex_ok (kmove t p f s)"
    and queues: "\<And>b. queue_ok (kmove t p f s) b (Q b)" and mem: "user_mem (f (kern s)) = user_mem (kern s)"
    and nodes: "\<And>q b. q \<noteq> t \<or> q \<in> set (Q b) \<Longrightarrow> q_uaddr (futex_qs (f (kern s)) q) = q_uaddr (futex_qs (kern s) q)"
    and ahead: "\<And>a. crit p = Some (hash_futex a) \<or> crit (kpcs s t) = Some (hash_futex a) \<Longrightarrow>
      spec_part (kern s) Q t p a = spec_part (kern s) Q t (kpcs s t) a"
    and own: "phase_rel (kmove t p f s) Q (fs_goto t ph A) t" "walk_rel (kmove t p f s) Q t"
  shows "futex_rel (kmove t p f s) Q (fs_goto t ph A)"
proof (rule futex_rel_own [OF rel m kmove_pcs queues])
  note R = futex_relD [OF rel]
  have words: "on_word (f (kern s)) a (Q b) = on_word (kern s) a (Q b)" for a b
    by (rule on_word_cong) (use nodes in blast)
  show "fs_mem (fs_goto t ph A) = user_mem (kern (kmove t p f s))" using mem R(2) by (simp add: fs_goto_def)
  show "q_uaddr (futex_qs (kern (kmove t p f s)) q) = q_uaddr (futex_qs (kern s) q)" if "q \<noteq> t \<or> q \<in> set (Q b)" for q b
    using nodes that by simp
  show "fs_queue (fs_goto t ph A) a = spec_part (kern (kmove t p f s)) Q t p a" if "crit p = Some (hash_futex a)" for a
    using queue_rel_own [OF R(3) m, of a] ahead [of a] that by (simp add: fs_goto_def spec_part_def words)
  show "fs_queue (fs_goto t ph A) a = on_word (kern (kmove t p f s)) a (Q (hash_futex a))"
    if "crit (kpcs s t) = Some (hash_futex a)" "crit p \<noteq> Some (hash_futex a)" for a
    using queue_rel_own [OF R(3) m, of a] ahead [of a] not_ahead [OF that(2)] that
    by (simp add: fs_goto_def spec_part_def words)
qed (use own in \<open>auto simp: fs_goto_def\<close>)

lemma fs_goto_same [simp]: "fs_goto t (fs_phase A t) A = A"
  by (simp add: fs_goto_def)

lemma fs_goto_simps [simp]:
  "fs_mem (fs_goto t p A) = fs_mem A" "fs_queue (fs_goto t p A) = fs_queue A"
  "fs_phase (fs_goto t p A) u = (if u = t then p else fs_phase A u)"
  by (simp_all add: fs_goto_def)

lemmas futex_rel_stay = futex_rel_goto [where ph = "fs_phase A t" and A = A and t = t for A t, unfolded fs_goto_same]

lemma unlock_bucket_eq: "unlock_bucket t b p s = kmove t p (hb_set_lock b 0) s"
  by (simp add: unlock_bucket_def spin_unlock_def atomic_store_def)

lemma lock_bucket_cases:
  obtains "lock_bucket t sp b p s = s" | "lock_bucket t sp b p s = kmove t p (hb_set_lock b 1) s"
  by (cases "spin_lock sp (hb_lock (buckets (kern s) b))") (auto simp: lock_bucket_def spin_lock_Some)

definition matched :: "futex_event list \<Rightarrow> ksys \<Rightarrow> futex_spec \<Rightarrow> bool" where
  "matched es s' A \<longleftrightarrow> (\<exists>ds A' Q'. run_sched futex_spec_act ds A = Some A' \<and>
     concat (map spec_events ds) = es \<and> futex_rel s' Q' A')"

lemma matched_stay: "futex_rel s' Q' A \<Longrightarrow> matched [] s' A"
  unfolding matched_def by (intro exI [of _ "[]"] exI) simp

lemma matched_one: "futex_spec_act d A = Some A' \<Longrightarrow> futex_rel s' Q' A' \<Longrightarrow> matched (spec_events d) s' A"
  unfolding matched_def by (intro exI [of _ "[d]"] exI conjI) auto

lemma matched_silent: "futex_rel s' Q' A' \<Longrightarrow> futex_spec_act d A = Some A' \<Longrightarrow> spec_events d = [] \<Longrightarrow> matched [] s' A"
  using matched_one by metis

lemmas rel_defs = phase_rel_def walk_rel_def spec_part_def wake_result_def

text \<open>A thread goes on and neither the queues, nor the counts, nor the locks change.\<close>

lemma plain_move:
  assumes inv: "kernel_inv s" and rel: "futex_rel s Q A"
    and p: "crit p = crit (kpcs s t)" "lag p = lag (kpcs s t)"
    and own: "phase_rel (kmove t p f s) Q (fs_goto t ph A) t" "walk_rel (kmove t p f s) Q t"
    and ahead: "\<And>a. spec_part (kern s) Q t p a = spec_part (kern s) Q t (kpcs s t) a"
    and f: "\<And>l. deref (f (kern s)) l = deref (kern s) l"
      "\<And>q. q_lock_ptr (futex_qs (f (kern s)) q) = q_lock_ptr (futex_qs (kern s) q)"
      "\<And>b. hb_waiters (buckets (f (kern s)) b) = hb_waiters (buckets (kern s) b)"
      "\<And>b. hb_lock (buckets (f (kern s)) b) = hb_lock (buckets (kern s) b)"
      "user_mem (f (kern s)) = user_mem (kern s)"
      "\<And>q. q_uaddr (futex_qs (f (kern s)) q) = q_uaddr (futex_qs (kern s) q)"
  shows "futex_rel (kmove t p f s) Q (fs_goto t ph A)"
proof -
  have "mutex_ok (kmove t p f s)" by (rule mutex_ok_keep [OF kernel_invD(1) [OF inv] p(1)]) (rule f(4))
  moreover have "queue_ok (kmove t p f s) c (Q c)" for c
    by (rule queue_ok_keep [OF futex_relD(1) [OF rel] p]) (rule f(1-3))+
  ultimately show ?thesis
    by (intro futex_rel_goto [OF rel kernel_invD(1) [OF inv]] own ahead f(5,6))
qed

lemmas plain_stay = plain_move [where ph = "fs_phase A t" and A = A and t = t for A t, unfolded fs_goto_same]

text \<open>Taking and giving back the lock of the bucket.\<close>

lemma unlock_goto:
  assumes inv: "kernel_inv s" and rel: "futex_rel s Q A"
    and t: "crit (kpcs s t) = Some b" "lag (kpcs s t) = 0" "crit p = None"
    and quiet: "\<And>a. joining t (kpcs s t) a = [] \<and> to_wake (kpcs s t) a = 0"
    and own: "phase_rel (kmove t p (hb_set_lock b 0) s) Q (fs_goto t ph A) t"
      "walk_rel (kmove t p (hb_set_lock b 0) s) Q t"
  shows "futex_rel (unlock_bucket t b p s) Q (fs_goto t ph A)"
proof -
  note m = kernel_invD(1) [OF inv]
  have "mutex_ok (kmove t p (hb_set_lock b 0) s)" by (rule mutex_ok_unlock [OF m t(1,3)])
  moreover have "queue_ok (kmove t p (hb_set_lock b 0) s) c (Q c)" for c
    using queue_ok_unlock_bucket [OF futex_relD(1) [OF rel] m t] by (simp add: unlock_bucket_eq)
  ultimately show ?thesis
    unfolding unlock_bucket_eq
    by (intro futex_rel_goto [OF rel m]) (use own t quiet not_ahead [of p] in \<open>simp_all add: spec_part_def\<close>)
qed

lemmas unlock_rel = unlock_goto [where ph = "fs_phase A t" and A = A and t = t for A t, unfolded fs_goto_same,
    THEN matched_stay]

lemma on_word_ops [simp]:
  "on_word (hb_set_lock b l k) a xs = on_word k a xs" "on_word (waiters_inc b k) a xs = on_word k a xs"
  "on_word (waiters_dec b k) a xs = on_word k a xs" "on_word (wake_task q k) a xs = on_word k a xs"
  "on_word (dequeue pp q k) a xs = on_word k a xs" "on_word (enqueue b q k) a xs = on_word k a xs"
  by (rule on_word_cong, simp)+

lemma walked_ops [simp]:
  "walked (hb_set_lock b l k) a pp xs = walked k a pp xs" "walked (waiters_dec b k) a pp xs = walked k a pp xs"
  "walked (wake_task q k) a pp xs = walked k a pp xs" "walked (dequeue pp' q k) a pp xs = walked k a pp xs"
  by (simp_all add: walked_def)

lemma step_W_lock:
  assumes inv: "kernel_inv s" and rel: "futex_rel s Q A" and pc: "kpcs s t = W_lock a val"
  shows "matched [] (lock_bucket t sp (hash_futex a) (W_check a val) s) A"
proof (cases t sp "hash_futex a" "W_check a val" s rule: lock_bucket_cases)
  case 1
  with rel show ?thesis by (auto intro: matched_stay)
next
  case 2
  note m = kernel_invD(1) [OF inv]
  let ?s = "kmove t (W_check a val) (hb_set_lock (hash_futex a) 1) s"
  have mm: "mutex_ok ?s" using mutex_ok_lock_bucket [OF m, of t "W_check a val" "hash_futex a" sp] pc 2 by simp
  have qq: "queue_ok ?s c (Q c)" for c
    using queue_ok_lock_bucket [where t = t and p = "W_check a val" and b' = "hash_futex a" and sp = sp, OF futex_relD(1) [OF rel] m] pc 2
    by simp
  have "futex_rel ?s Q A"
    by (rule futex_rel_stay [OF rel m mm qq])
      (use pc futex_relD(4) [OF rel, of t] in \<open>simp_all add: rel_defs\<close>)
  with 2 show ?thesis by (simp add: matched_stay)
qed

lemma step_mutex: "kernel_inv s \<Longrightarrow> kernel_step t sp s = Some s' \<Longrightarrow> mutex_ok s'"
  using kernel_act_mutex_ok [of s "Kernel_step t sp" s'] by (simp add: kernel_inv_def)

lemma own_queue:
  "kernel_inv s \<Longrightarrow> futex_rel s Q A \<Longrightarrow> crit (kpcs s t) = Some (hash_futex a) \<Longrightarrow>
    fs_queue A a = spec_part (kern s) Q t (kpcs s t) a"
  by (metis futex_relD(3) queue_rel_def)

text \<open>Who is on a queue of the specification is on the chain, or about to be.\<close>

lemma fs_queue_subset:
  assumes "futex_rel s Q A"
  shows "u \<in> set (fs_queue A a) \<Longrightarrow> u \<in> set (Q (hash_futex a)) \<and> q_uaddr (futex_qs (kern s) u) = a \<or>
    kpcs s u = W_enqueue a"
proof -
  assume u: "u \<in> set (fs_queue A a)"
  show ?thesis
  proof (cases "\<exists>h. crit (kpcs s h) = Some (hash_futex a)")
    case True
    then obtain h where "fs_queue A a = spec_part (kern s) Q h (kpcs s h) a"
      using futex_relD(3) [OF assms] by (auto simp: queue_rel_def)
    with u have "u \<in> set (joining h (kpcs s h) a) \<or> u \<in> set (on_word (kern s) a (Q (hash_futex a)))"
      by (auto simp: spec_part_def simp del: on_word_simps dest: in_set_dropD)
    then show ?thesis by (cases "kpcs s h") (auto split: if_splits)
  next
    case False
    with futex_relD(3) [OF assms] have "fs_queue A a = on_word (kern s) a (Q (hash_futex a))"
      by (auto simp: queue_rel_def)
    with u show ?thesis by simp
  qed
qed

lemma step_W_refuse:
  assumes inv: "kernel_inv s" and rel: "futex_rel s Q A" and pc: "kpcs s t = W_refuse a"
  shows "matched [] (unlock_bucket t (hash_futex a) (K_return (- EWOULDBLOCK)) s) A"
  by (rule unlock_rel [OF inv rel]) (use pc futex_relD(4) [OF rel, of t] in \<open>simp_all add: rel_defs\<close>)

lemma step_V_unlock:
  assumes inv: "kernel_inv s" and rel: "futex_rel s Q A" and pc: "kpcs s t = V_unlock a ret"
  shows "matched [] (unlock_bucket t (hash_futex a) (K_return ret) s) A"
  by (rule unlock_rel [OF inv rel]) (use pc futex_relD(4) [OF rel, of t] in \<open>simp_all add: rel_defs\<close>)

lemma step_W_unlock:
  assumes inv: "kernel_inv s" and rel: "futex_rel s Q A" and pc: "kpcs s t = W_unlock a"
  shows "matched [Ev_sleep t] (unlock_bucket t (hash_futex a) W_sleep s) A"
proof -
  from kernel_invD(2) [OF inv, of t] pc have t: "node_is (futex_qs (kern s) t) a (Some (hash_futex a))"
    by (simp add: thread_ok_def Let_def)
  with futex_relD(1) [OF rel, of "hash_futex a"] have "t \<in> set (Q (hash_futex a))"
    by (simp add: queue_ok_def node_is_def)
  with own_queue [OF inv rel, of t a] pc t have "t \<in> set (fs_queue A a)"
    by (simp add: spec_part_def node_is_def)
  with t have "phase_rel (kmove t W_sleep (hb_set_lock (hash_futex a) 0) s) Q (fs_goto t (Fs_asleep a) A) t"
    by (simp add: phase_rel_def node_is_def Let_def)
  then have "futex_rel (unlock_bucket t (hash_futex a) W_sleep s) Q (fs_goto t (Fs_asleep a) A)"
    by (intro unlock_goto [OF inv rel]) (use pc in \<open>simp_all add: walk_rel_def\<close>)
  then show ?thesis
    using matched_one [of "Fs_event (Ev_sleep t)"] futex_relD(4) [OF rel, of t] pc by (simp add: phase_rel_def)
qed

lemma step_W_count:
  assumes inv: "kernel_inv s" and rel: "futex_rel s Q A" and pc: "kpcs s t = W_count a"
  shows "matched [] (kmove t (W_unlock a) (waiters_inc (hash_futex a)) s) A"
proof -
  let ?s = "kmove t (W_unlock a) (waiters_inc (hash_futex a)) s"
  note m = kernel_invD(1) [OF inv]
  have step: "kernel_step t False s = Some ?s" using pc by (simp add: kernel_step_def)
  have qq: "queue_ok ?s c (Q c)" for c
    by (rule queue_ok_count [OF futex_relD(1) [OF rel] m]) (use pc in simp_all)
  have "futex_rel ?s Q A"
    by (rule futex_rel_stay [OF rel m step_mutex [OF inv step] qq])
      (use pc futex_relD(4) [OF rel, of t] in \<open>simp_all add: rel_defs\<close>)
  then show ?thesis by (rule matched_stay)
qed

lemma step_V_count:
  assumes inv: "kernel_inv s" and rel: "futex_rel s Q A" and pc: "kpcs s t = V_count a n pp ret q"
  shows "matched [] (kmove t (V_wake a n pp ret q) (waiters_dec (hash_futex a)) s) A"
proof -
  let ?p = "V_wake a n pp ret q" and ?f = "waiters_dec (hash_futex a)"
  let ?s = "kmove t ?p ?f s"
  note m = kernel_invD(1) [OF inv]
  have step: "kernel_step t False s = Some ?s" using pc by (simp add: kernel_step_def)
  have qq: "queue_ok ?s c (Q c)" for c
    by (rule queue_ok_count [OF futex_relD(1) [OF rel] m]) (use pc in simp_all)
  have "futex_rel ?s Q A"
  proof (rule futex_rel_stay [OF rel m step_mutex [OF inv step] qq])
    show "phase_rel ?s Q A t"
      using futex_relD(4) [OF rel, of t] pc by (simp add: phase_rel_def wake_result_def)
    show "walk_rel ?s Q t" using futex_relD(5) [OF rel, of t] pc by (simp add: walk_rel_def)
    show "user_mem (?f (kern s)) = user_mem (kern s)" by simp
    show "q_uaddr (futex_qs (?f (kern s)) r) = q_uaddr (futex_qs (kern s) r)" for r by simp
    show "spec_part (kern s) Q t ?p a' = spec_part (kern s) Q t (kpcs s t) a'" for a'
      using pc by (simp add: spec_part_def)
  qed
  then show ?thesis by (rule matched_stay)
qed

lemma step_V_wake:
  assumes inv: "kernel_inv s" and rel: "futex_rel s Q A" and pc: "kpcs s t = V_wake a n pp ret q"
  shows "matched [] (kmove t (V_loop a n pp (ret + 1)) (wake_task q) s) A"
proof -
  have "futex_rel (kmove t (V_loop a n pp (ret + 1)) (wake_task q) s) Q A"
    by (rule plain_stay [OF inv rel]) (use futex_relD(4,5) [OF rel, of t] pc in \<open>simp_all add: rel_defs\<close>)
  then show ?thesis by (rule matched_stay)
qed


lemma check_facts:
  assumes inv: "kernel_inv s" and rel: "futex_rel s Q A" and pc: "kpcs s t = W_check a val"
    and p: "crit p = Some (hash_futex a)" "lag p = 0"
  shows "mutex_ok (kmove t p id s)" and "queue_ok (kmove t p id s) c (Q c)"
    and "fs_phase A t = Fs_wait a val"
    and "hash_futex a' = hash_futex a \<Longrightarrow> fs_queue A a' = on_word (kern s) a' (Q (hash_futex a'))"
proof -
  show "mutex_ok (kmove t p id s)"
    by (rule mutex_ok_keep [OF kernel_invD(1) [OF inv]]) (use pc p in simp_all)
  show "queue_ok (kmove t p id s) c (Q c)"
    by (rule queue_ok_keep [OF futex_relD(1) [OF rel]]) (use pc p in simp_all)
  show "fs_phase A t = Fs_wait a val" using futex_relD(4) [OF rel, of t] pc by (simp add: phase_rel_def)
  show "fs_queue A a' = on_word (kern s) a' (Q (hash_futex a'))" if "hash_futex a' = hash_futex a"
    using own_queue [OF inv rel, of t a'] pc that by (simp add: spec_part_def)
qed

lemma step_W_check_refuse:
  assumes inv: "kernel_inv s" and rel: "futex_rel s Q A" and pc: "kpcs s t = W_check a val"
    and val: "user_mem (kern s) a \<noteq> val"
  shows "matched [] (kmove t (W_refuse a) id s) A"
proof -
  have "futex_rel (kmove t (W_refuse a) id s) Q (fs_goto t (Fs_return (- EWOULDBLOCK)) A)"
    by (rule plain_move [OF inv rel]) (use pc in \<open>simp_all add: rel_defs\<close>)
  moreover have "futex_spec_act (Fs_compare t) A = Some (fs_goto t (Fs_return (- EWOULDBLOCK)) A)"
    using futex_relD(4) [OF rel, of t] pc futex_relD(2) [OF rel] val by (simp add: phase_rel_def)
  ultimately show ?thesis by (rule matched_silent) simp
qed

lemma step_W_check_queue:
  assumes inv: "kernel_inv s" and rel: "futex_rel s Q A" and pc: "kpcs s t = W_check a (user_mem (kern s) a)"
  shows "matched [] (kmove t (W_enqueue a) id s) A"
proof -
  note F = check_facts [OF inv rel pc, of "W_enqueue a", simplified]
  let ?s = "kmove t (W_enqueue a) id s"
  let ?A = "fs_goto t (Fs_arriving a) (A\<lparr>fs_queue := (fs_queue A)(a := t # fs_queue A a)\<rparr>)"
  have "futex_rel ?s Q ?A"
  proof (rule futex_rel_own [OF rel kernel_invD(1) [OF inv] F(1) kmove_pcs F(2)])
    show "fs_queue ?A a' = spec_part (kern ?s) Q t (W_enqueue a) a'" if "crit (W_enqueue a) = Some (hash_futex a')" for a'
    proof -
      have "fs_queue A a' = on_word (kern s) a' (Q (hash_futex a'))" by (rule F(4)) (use that in simp)
      then show ?thesis by (auto simp: spec_part_def)
    qed
    show "fs_queue ?A a' = fs_queue A a'" if "crit (kpcs s t) \<noteq> Some (hash_futex a')" for a'
      using that pc by auto
    show "fs_queue ?A a' = on_word (kern ?s) a' (Q (hash_futex a'))"
      if "crit (kpcs s t) = Some (hash_futex a')" "crit (W_enqueue a) \<noteq> Some (hash_futex a')" for a'
      using that pc by simp
    show "phase_rel ?s Q ?A t" by (simp add: phase_rel_def)
    show "walk_rel ?s Q t" by (simp add: walk_rel_def)
    show "fs_mem ?A = user_mem (kern ?s)" using futex_relD(2) [OF rel] by simp
    show "fs_phase ?A u = fs_phase A u \<and> (u \<in> set (fs_queue ?A a') \<longleftrightarrow> u \<in> set (fs_queue A a'))"
      if "u \<noteq> t" for u a' using that by simp
  qed simp_all
  moreover have "futex_spec_act (Fs_compare t) A = Some ?A" using F(3) futex_relD(2) [OF rel] by simp
  ultimately show ?thesis by (rule matched_silent) simp
qed

lemma step_W_enqueue:
  assumes inv: "kernel_inv s" and rel: "futex_rel s Q A" and pc: "kpcs s t = W_enqueue a"
  shows "matched [] (kmove t (W_count a) (enqueue (hash_futex a) t) s) A"
proof -
  let ?s = "kmove t (W_count a) (enqueue (hash_futex a) t) s"
  let ?Q = "\<lambda>b. if b = hash_futex a then t # Q b else Q b"
  note m = kernel_invD(1) [OF inv]
  have step: "kernel_step t False s = Some ?s" using pc by (simp add: kernel_step_def Let_def)
  have t: "q_uaddr (futex_qs (kern s) t) = a"
    using kernel_invD(2) [OF inv, of t] pc by (simp add: thread_defs)
  have qq: "queue_ok ?s b (?Q b)" for b
    using queue_ok_enqueue [OF futex_relD(1) [OF rel] m kernel_invD(2) [OF inv] pc, of b] by (simp split: if_splits)
  have "futex_rel ?s ?Q A"
  proof (rule futex_rel_own [OF rel m step_mutex [OF inv step] kmove_pcs qq])
    show "fs_queue A a' = spec_part (kern ?s) ?Q t (W_count a) a'" if "crit (W_count a) = Some (hash_futex a')" for a'
    proof -
      have "fs_queue A a' = spec_part (kern s) Q t (W_enqueue a) a'"
        using own_queue [OF inv rel, of t a'] pc that by simp
      with that t show ?thesis by (auto simp: spec_part_def)
    qed
    show "fs_queue A a' = on_word (kern ?s) a' (?Q (hash_futex a'))"
      if "crit (kpcs s t) = Some (hash_futex a')" "crit (W_count a) \<noteq> Some (hash_futex a')" for a'
      using that pc by simp
    show "phase_rel ?s ?Q A t" using futex_relD(4) [OF rel, of t] pc by (simp add: phase_rel_def)
    show "walk_rel ?s ?Q t" by (simp add: walk_rel_def)
    show "fs_mem A = user_mem (kern ?s)" using futex_relD(2) [OF rel] by simp
    show "?Q b = Q b" if "crit (W_count a) \<noteq> Some b" for b using that by simp
  qed simp_all
  then show ?thesis by (rule matched_stay)
qed

lemma woken_not_queued:
  assumes inv: "kernel_inv s" and rel: "futex_rel s Q A" and pc: "kpcs s t = W_sleep"
    and off: "q_lock_ptr (futex_qs (kern s) t) = None"
  shows "t \<notin> set (fs_queue A b)"
  using fs_queue_subset [OF rel, of t b] futex_relD(1) [OF rel, of "hash_futex b"] pc off
  by (auto simp: queue_ok_def)

lemma step_W_sleep:
  assumes inv: "kernel_inv s" and rel: "futex_rel s Q A" and pc: "kpcs s t = W_sleep"
    and task: "schedule (q_task (futex_qs (kern s) t)) = Some task"
  shows "matched [] (kmove t (K_return 0) (set_q t (\<lambda>n. n\<lparr>q_task := task\<rparr>)) s) A"
proof -
  let ?f = "set_q t (\<lambda>n. n\<lparr>q_task := task\<rparr>)"
  let ?s = "kmove t (K_return 0) ?f s"
  from task have "wake_pending (q_task (futex_qs (kern s) t))" by (simp add: schedule_eq split: if_splits)
  with kernel_invD(2) [OF inv, of t] pc have "q_lock_ptr (futex_qs (kern s) t) = None"
    by (simp add: thread_defs sleeper_ok_def)
  note off = woken_not_queued [OF inv rel pc this]
  have "futex_rel ?s Q A"
    by (rule plain_stay [OF inv rel])
      (use pc off futex_relD(4) [OF rel, of t] in \<open>simp_all add: phase_rel_def walk_rel_def spec_part_def Let_def\<close>)
  then show ?thesis by (rule matched_stay)
qed

lemma step_V_loop_end:
  assumes inv: "kernel_inv s" and rel: "futex_rel s Q A" and pc: "kpcs s t = V_loop a n pp ret"
    and ended: "deref (kern s) pp = None \<or> \<not> ret < n"
  shows "matched [] (kmove t (V_unlock a ret) id s) A"
proof -
  let ?s = "kmove t (V_unlock a ret) id s"
  note q = futex_relD(1) [OF rel, of "hash_futex a"]
  have none: "on_word (kern s) a (Q (hash_futex a)) = [] \<or> nat (n - ret) = 0"
  proof (cases "ret < n")
    case True
    with ended have nil: "deref (kern s) pp = None" by simp
    have "walked (kern s) a pp (Q (hash_futex a))"
      using futex_relD(5) [OF rel, of t] pc by (simp add: walk_rel_def)
    moreover have "queue (kern s) (hash_futex a) (Q (hash_futex a))" "distinct (Q (hash_futex a))"
      using q unfolding queue_ok_def by blast+
    ultimately show ?thesis by (rule walked_target) (use nil in simp_all)
  qed simp
  have "futex_rel ?s Q A"
  proof (rule plain_stay [OF inv rel])
    show "phase_rel ?s Q A t"
      using futex_relD(4) [OF rel, of t] pc none by (auto simp: phase_rel_def wake_result_def)
    show "walk_rel ?s Q t" by (simp add: walk_rel_def)
    show "spec_part (kern s) Q t (V_unlock a ret) a' = spec_part (kern s) Q t (kpcs s t) a'" for a'
      using pc none by (auto simp: spec_part_def)
  qed (use pc in simp_all)
  then show ?thesis by (rule matched_stay)
qed

lemma loop_facts:
  assumes inv: "kernel_inv s" and rel: "futex_rel s Q A" and pc: "kpcs s t = V_loop a n pp ret"
  shows "walked (kern s) a pp (Q (hash_futex a))" and "queue (kern s) (hash_futex a) (Q (hash_futex a))"
    and "distinct (Q (hash_futex a))" and "link_ok (kern s) a pp"
proof -
  show "walked (kern s) a pp (Q (hash_futex a))"
    using futex_relD(5) [OF rel, of t] pc by (simp add: walk_rel_def)
  show "queue (kern s) (hash_futex a) (Q (hash_futex a))" "distinct (Q (hash_futex a))"
    using futex_relD(1) [OF rel, of "hash_futex a"] unfolding queue_ok_def by blast+
  show "link_ok (kern s) a pp" using kernel_invD(2) [OF inv, of t] pc by (simp add: thread_defs)
qed

lemma step_V_loop_next:
  assumes inv: "kernel_inv s" and rel: "futex_rel s Q A" and pc: "kpcs s t = V_loop a n pp ret"
    and q: "deref (kern s) pp = Some q" "q_uaddr (futex_qs (kern s) q) \<noteq> a"
  shows "matched [] (kmove t (V_loop a n (Next_of q) ret) id s) A"
proof -
  have rest: "walked (kern s) a (Next_of q) (Q (hash_futex a))"
    by (rule walked_target [OF loop_facts(1-3) [OF inv rel pc]]) (use q in simp_all)
  have "futex_rel (kmove t (V_loop a n (Next_of q) ret) id s) Q A"
    by (rule plain_stay [OF inv rel]) (use pc rest futex_relD(4) [OF rel, of t] in \<open>simp_all add: rel_defs\<close>)
  then show ?thesis by (rule matched_stay)
qed

text \<open>A node is unlinked: the specification has taken the thread off its queue before.\<close>

lemma step_V_loop_dequeue:
  assumes inv: "kernel_inv s" and rel: "futex_rel s Q A" and pc: "kpcs s t = V_loop a n pp ret"
    and q: "deref (kern s) pp = Some q" "q_uaddr (futex_qs (kern s) q) = a" and ret: "ret < n"
  shows "matched [] (kmove t (V_count a n pp ret q) (dequeue pp q) s) A"
proof -
  let ?s = "kmove t (V_count a n pp ret q) (dequeue pp q) s"
  let ?Q = "\<lambda>b. if b = hash_futex a then remove1 q (Q b) else Q b"
  note m = kernel_invD(1) [OF inv] and L = loop_facts [OF inv rel pc]
  have step: "kernel_step t False s = Some ?s" using pc q ret by (simp add: kernel_step_def Let_def)
  have ptr: "q_lock_ptr (futex_qs (kern s) q) = Some (hash_futex a)"
    by (rule link_target(1) [OF futex_relD(1) [OF rel] L(4) q(1)])
  have qq: "queue_ok ?s b (?Q b)" for b
    using queue_ok_dequeue [OF futex_relD(1) [OF rel] m L(4) pc q(1) ptr, of b] by (simp split: if_splits)
  obtain zs where zs: "on_word (kern s) a (Q (hash_futex a)) = q # zs"
      "on_word (kern s) a (remove1 q (Q (hash_futex a))) = zs" "walked (kern s) a pp (remove1 q (Q (hash_futex a)))"
    by (rule walked_target [OF L(1-3)]) (use q in auto)
  have others: "on_word (kern s) a' (remove1 q xs) = on_word (kern s) a' xs" if "a' \<noteq> a" for a' xs
    using that q(2) unfolding on_word_def by (simp add: filter_remove1 remove1_idem)
  have nat: "nat (n - ret) = Suc (nat (n - (ret + 1)))" using ret by simp
  have "futex_rel ?s ?Q A"
  proof (rule futex_rel_own [OF rel m step_mutex [OF inv step] kmove_pcs qq])
    show "fs_queue A a' = spec_part (kern ?s) ?Q t (V_count a n pp ret q) a'"
      if c: "crit (V_count a n pp ret q) = Some (hash_futex a')" for a'
    proof -
      have "fs_queue A a' = spec_part (kern s) Q t (V_loop a n pp ret) a'"
        using own_queue [OF inv rel, of t a'] pc c by simp
      also have "\<dots> = spec_part (kern ?s) ?Q t (V_count a n pp ret q) a'"
        using c zs(1,2) others [of a'] by (cases "a' = a") (simp_all add: spec_part_def nat)
      finally show ?thesis .
    qed
    show "fs_queue A a' = on_word (kern ?s) a' (?Q (hash_futex a'))"
      if "crit (kpcs s t) = Some (hash_futex a')" "crit (V_count a n pp ret q) \<noteq> Some (hash_futex a')" for a'
      using that pc by simp
    show "phase_rel ?s ?Q A t"
      using futex_relD(4) [OF rel, of t] pc zs(1,2) by (simp add: phase_rel_def wake_result_def nat)
    show "walk_rel ?s ?Q t" using zs(3) by (simp add: walk_rel_def)
    show "fs_mem A = user_mem (kern ?s)" using futex_relD(2) [OF rel] by simp
    show "?Q b = Q b" if "crit (V_count a n pp ret q) \<noteq> Some b" for b using that by simp
  qed simp_all
  then show ?thesis by (rule matched_stay)
qed

text \<open>The lock of the bucket is where a wake takes effect: all of its threads leave the queue at once.\<close>

lemma step_V_lock_deliver:
  assumes inv: "kernel_inv s" and rel: "futex_rel s Q A" and pc: "kpcs s t = V_lock a n"
    and got: "lock_bucket t sp (hash_futex a) (V_loop a n (Chain_of (hash_futex a)) 0) s =
      kmove t (V_loop a n (Chain_of (hash_futex a)) 0) (hb_set_lock (hash_futex a) 1) s"
  shows "futex_rel (kmove t (V_loop a n (Chain_of (hash_futex a)) 0) (hb_set_lock (hash_futex a) 1) s) Q
    (fs_deliver t a n A)"
proof -
  let ?p = "V_loop a n (Chain_of (hash_futex a)) 0" and ?b = "hash_futex a" and ?A = "fs_deliver t a n A"
  let ?s = "kmove t ?p (hb_set_lock ?b 1) s"
  note m = kernel_invD(1) [OF inv] and R = futex_relD [OF rel]
  have mm: "mutex_ok ?s"
    using mutex_ok_lock_bucket [OF m, of t ?p ?b sp] pc got by simp
  have qq: "queue_ok ?s c (Q c)" for c
    using queue_ok_lock_bucket [where t = t and p = ?p and b' = ?b and sp = sp, OF R(1) m] pc got by simp
  have before: "fs_queue A a' = on_word (kern s) a' (Q (hash_futex a'))" if "hash_futex a' = ?b" for a'
    using queue_rel_own [OF R(3) m mm, of a'] pc that by (simp add: spec_part_def)
  let ?L = "on_word (kern s) a (Q ?b)"
  have L: "fs_queue A a = ?L" by (rule before) simp
  have dist: "distinct ?L" using R(1) [of ?b] by (simp add: queue_ok_def distinct_on_word)
  have queue: "fs_queue ?A a' = (if a' = a then drop (nat n) ?L else fs_queue A a')" for a'
    using L by (simp add: fs_deliver_def Let_def)
  have phase: "fs_phase ?A u = (if u \<in> set (take (nat n) ?L) then Fs_return 0 else fs_phase A u)" if "u \<noteq> t" for u
    using L that by (simp add: fs_deliver_def Let_def)
  have sleeper: "kpcs s u = W_sleep \<and> q_uaddr (futex_qs (kern s) u) = a" if "u \<in> set (take (nat n) ?L)" for u
  proof -
    from that have u: "u \<in> set (Q ?b)" "q_uaddr (futex_qs (kern s) u) = a" by (auto dest: in_set_takeD)
    then have "q_lock_ptr (futex_qs (kern s) u) = Some ?b" using R(1) [of ?b] by (simp add: queue_ok_def)
    with queued_thread [OF kernel_invD(2) [OF inv]] have "crit (kpcs s u) = Some ?b \<or> kpcs s u = W_sleep" by blast
    moreover have "crit (kpcs s u) \<noteq> Some ?b"
      using crit_unique [OF mm, of t ?b u] pc by (cases "u = t") auto
    ultimately show ?thesis using u(2) by blast
  qed
  show ?thesis
  proof (rule futex_rel_move [OF rel m mm kmove_pcs qq])
    show "fs_mem ?A = user_mem (kern ?s)" using R(2) by (simp add: fs_deliver_def Let_def)
    show "fs_queue ?A a' = spec_part (kern ?s) Q t ?p a'" if "crit ?p = Some (hash_futex a')" for a'
      using that queue [of a'] before [of a'] by (cases "a' = a") (simp_all add: spec_part_def)
    show "fs_queue ?A a' = fs_queue A a'" if "crit ?p \<noteq> Some (hash_futex a')" for a'
      using that queue [of a'] by auto
    show "phase_rel ?s Q ?A t"
      using L by (simp add: phase_rel_def wake_result_def fs_deliver_def Let_def)
    show "walk_rel ?s Q t" by (auto simp: walk_rel_def walked_def intro: exI [of _ "[]"])
    show "fs_phase ?A u = fs_phase A u" if "u \<noteq> t" "kpcs s u \<noteq> W_sleep" for u
      using phase [OF that(1)] sleeper that(2) by auto
    show "phase_rel ?s Q ?A u" if u: "u \<noteq> t" "kpcs s u = W_sleep" for u
    proof -
      let ?a = "q_uaddr (futex_qs (kern s) u)"
      have old: "fs_phase A u = (if u \<in> set (fs_queue A ?a) then Fs_asleep ?a else Fs_return 0)"
        using R(4) [of u] u by (simp add: phase_rel_def Let_def)
      have "set ?L = set (take (nat n) ?L) \<union> set (drop (nat n) ?L)"
        by (metis append_take_drop_id set_append)
      moreover have "set (take (nat n) ?L) \<inter> set (drop (nat n) ?L) = {}"
        by (rule set_take_disj_set_drop_if_distinct [OF dist order_refl])
      ultimately have "fs_phase ?A u = (if u \<in> set (fs_queue ?A ?a) then Fs_asleep ?a else Fs_return 0)"
        unfolding phase [OF u(1)] old queue using L sleeper [of u] by (cases "?a = a") auto
      with u show ?thesis by (simp add: phase_rel_def Let_def)
    qed
  qed (use pc in simp_all)
qed

lemma step_V_lock:
  assumes inv: "kernel_inv s" and rel: "futex_rel s Q A" and pc: "kpcs s t = V_lock a n"
  shows "matched [] (lock_bucket t sp (hash_futex a) (V_loop a n (Chain_of (hash_futex a)) 0) s) A"
proof (cases t sp "hash_futex a" "V_loop a n (Chain_of (hash_futex a)) 0" s rule: lock_bucket_cases)
  case 1
  with rel show ?thesis by (auto intro: matched_stay)
next
  case 2
  have "fs_phase A t = Fs_wake a n" using futex_relD(4) [OF rel, of t] pc by (simp add: phase_rel_def)
  then have "futex_spec_act (Fs_deliver t) A = Some (fs_deliver t a n A)" by simp
  with step_V_lock_deliver [OF inv rel pc 2] show ?thesis
    unfolding 2 by (rule matched_silent) simp
qed

text \<open>
  The fast path reads the count without the lock. It can be zero with a thread queued: when this thread
  has compared its word but has not counted itself yet, and has the lock.
\<close>

lemma count_small: "m < 2 ^ 32 - 1 \<Longrightarrow> (of_nat m :: u32) = w \<Longrightarrow> m = unat w"
  by (auto simp: unsigned_of_nat take_bit_eq_mod)

lemma fast_path_zero:
  assumes inv: "kernel_inv s" and q: "queue_ok s b xs" and few: "length xs < 2 ^ 32 - 1"
    and zero: "hb_waiters (buckets (kern s) b) = 0"
  obtains "xs = []"
    | h a where "xs = [h]" "kpcs s h = W_count a" "b = hash_futex a" "q_uaddr (futex_qs (kern s) h) = a"
proof (cases "\<exists>h. crit (kpcs s h) = Some b")
  case False
  then have "of_nat (length xs) = (0 :: u32)" using q zero by (simp add: queue_ok_def)
  from count_small [OF few this] have "xs = []" by simp
  then show thesis by (rule that(1))
next
  case True
  then obtain h where h: "crit (kpcs s h) = Some b" by blast
  have count: "lag (kpcs s h) = of_nat (length xs)"
    using queue_ok_own_waiters [OF q h] zero by simp
  consider (quiet) "lag (kpcs s h) = 0" | (joined) a where "kpcs s h = W_count a"
    | (leaving) "lag (kpcs s h) = - 1"
    by (cases "kpcs s h") auto
  then show thesis
  proof cases
    case quiet
    with count have "of_nat (length xs) = (0 :: u32)" by simp
    from count_small [OF few this] have "xs = []" by simp
    then show thesis by (rule that(1))
  next
    case (joined a)
    with count have "of_nat (length xs) = (1 :: u32)" by simp
    from count_small [OF few this] have "length xs = 1" by simp
    moreover have "node_is (futex_qs (kern s) h) a (Some b)"
      using kernel_invD(2) [OF inv, of h] joined h by (simp add: thread_ok_def Let_def)
    then have "h \<in> set xs" "q_uaddr (futex_qs (kern s) h) = a"
      using q by (simp_all add: queue_ok_def node_is_def)
    ultimately show thesis using joined h by (intro that(2) [of h a]) (cases xs; auto)+
  next
    case leaving
    with count have "of_nat (length xs) = (- 1 :: u32)" by simp
    moreover have "unat (- 1 :: u32) = 2 ^ 32 - 1" by (simp add: unsigned_minus_1_eq_mask mask_eq_exp_minus_1)
    ultimately show thesis using count_small [OF few] few by simp
  qed
qed

lemma fast_path_miss:
  assumes inv: "kernel_inv s" and rel: "futex_rel s Q A" and few: "length (Q (hash_futex a)) < 2 ^ 32 - 1"
    and zero: "hb_waiters (buckets (kern s) (hash_futex a)) = 0"
  shows "list_all (\<lambda>u. fs_phase A u = Fs_arriving a) (fs_queue A a)"
proof (cases rule: fast_path_zero [OF inv futex_relD(1) [OF rel] few zero])
  case 1
  have "fs_phase A u = Fs_arriving a" if "u \<in> set (fs_queue A a)" for u
    using fs_queue_subset [OF rel that] futex_relD(4) [OF rel, of u] 1 by (simp add: phase_rel_def)
  then show ?thesis by (simp add: list_all_iff)
next
  case (2 h a')
  have "fs_phase A u = Fs_arriving a" if "u \<in> set (fs_queue A a)" for u
    using fs_queue_subset [OF rel that] futex_relD(4) [OF rel, of u] 2 by (auto simp: phase_rel_def)
  then show ?thesis by (simp add: list_all_iff)
qed

lemma step_V_fast_none:
  assumes inv: "kernel_inv s" and rel: "futex_rel s Q A" and few: "length (Q (hash_futex a)) < 2 ^ 32 - 1"
    and pc: "kpcs s t = V_fast a n" and zero: "hb_waiters (buckets (kern s) (hash_futex a)) = 0"
  shows "matched [] (kmove t (K_return 0) id s) A"
proof -
  have "futex_rel (kmove t (K_return 0) id s) Q (fs_goto t (Fs_return 0) A)"
    by (rule plain_move [OF inv rel]) (use pc in \<open>simp_all add: rel_defs\<close>)
  moreover have "futex_spec_act (Fs_miss t) A = Some (fs_goto t (Fs_return 0) A)"
    using futex_relD(4) [OF rel, of t] pc fast_path_miss [OF inv rel few zero] by (simp add: phase_rel_def)
  ultimately show ?thesis by (rule matched_silent) simp
qed

lemma step_V_fast_some:
  assumes inv: "kernel_inv s" and rel: "futex_rel s Q A" and pc: "kpcs s t = V_fast a n"
  shows "matched [] (kmove t (V_lock a n) id s) A"
proof -
  have "futex_rel (kmove t (V_lock a n) id s) Q A"
    by (rule plain_stay [OF inv rel]) (use pc futex_relD(4) [OF rel, of t] in \<open>simp_all add: rel_defs\<close>)
  then show ?thesis by (rule matched_stay)
qed

lemma kernel_step_silent:
  assumes inv: "kernel_inv s" and rel: "futex_rel s Q A" and few: "\<And>b. length (Q b) < 2 ^ 32 - 1"
    and step: "kernel_step t sp s = Some s'" and pc: "\<And>a. kpcs s t \<noteq> W_unlock a"
  shows "matched [] s' A"
proof (cases "kpcs s t")
  case (W_check a val)
  show ?thesis
  proof (cases "user_mem (kern s) a = val")
    case True
    with W_check step have "s' = kmove t (W_enqueue a) id s" by (simp add: kernel_step_def Let_def atomic_defs)
    with step_W_check_queue [OF inv rel] W_check True show ?thesis by simp
  next
    case False
    with W_check step have "s' = kmove t (W_refuse a) id s" by (simp add: kernel_step_def Let_def atomic_defs)
    with step_W_check_refuse [OF inv rel W_check False] show ?thesis by simp
  qed
next
  case W_sleep
  show ?thesis
  proof (cases "schedule (q_task (futex_qs (kern s) t))")
    case None
    with W_sleep step have "s' = s" by (simp add: kernel_step_def)
    with rel show ?thesis by (auto intro: matched_stay)
  next
    case (Some task)
    with W_sleep step have "s' = kmove t (K_return 0) (set_q t (\<lambda>n. n\<lparr>q_task := task\<rparr>)) s"
      by (simp add: kernel_step_def)
    with step_W_sleep [OF inv rel W_sleep Some] show ?thesis by simp
  qed
next
  case (V_fast a n)
  show ?thesis
  proof (cases "hb_waiters (buckets (kern s) (hash_futex a)) = 0")
    case True
    with V_fast step have "s' = kmove t (K_return 0) id s" by (simp add: kernel_step_def Let_def atomic_defs)
    with step_V_fast_none [OF inv rel few V_fast True] show ?thesis by simp
  next
    case False
    with V_fast step have "s' = kmove t (V_lock a n) id s" by (simp add: kernel_step_def Let_def atomic_defs)
    with step_V_fast_some [OF inv rel V_fast] show ?thesis by simp
  qed
next
  case (V_loop a n pp ret)
  with step consider "deref (kern s) pp = None \<or> \<not> ret < n" "s' = kmove t (V_unlock a ret) id s"
    | q where "deref (kern s) pp = Some q" "q_uaddr (futex_qs (kern s) q) \<noteq> a" "s' = kmove t (V_loop a n (Next_of q) ret) id s"
    | q where "deref (kern s) pp = Some q" "q_uaddr (futex_qs (kern s) q) = a" "ret < n"
        "s' = kmove t (V_count a n pp ret q) (dequeue pp q) s"
    by (auto simp: kernel_step_def Let_def split: option.splits if_splits)
  then show ?thesis
    using step_V_loop_end [OF inv rel V_loop] step_V_loop_next [OF inv rel V_loop]
      step_V_loop_dequeue [OF inv rel V_loop] by cases simp_all
next
  case (W_lock a val)
  with step step_W_lock [OF inv rel W_lock] show ?thesis by (auto simp: kernel_step_def)
next
  case (W_refuse a)
  with step step_W_refuse [OF inv rel W_refuse] show ?thesis by (auto simp: kernel_step_def)
next
  case (W_enqueue a)
  with step step_W_enqueue [OF inv rel W_enqueue] show ?thesis by (auto simp: kernel_step_def)
next
  case (W_count a)
  with step step_W_count [OF inv rel W_count] show ?thesis by (auto simp: kernel_step_def)
next
  case (V_lock a n)
  with step step_V_lock [OF inv rel V_lock] show ?thesis by (auto simp: kernel_step_def)
next
  case (V_count a n pp ret q)
  with step step_V_count [OF inv rel V_count] show ?thesis by (auto simp: kernel_step_def)
next
  case (V_wake a n pp ret q)
  with step step_V_wake [OF inv rel V_wake] show ?thesis by (auto simp: kernel_step_def)
next
  case (V_unlock a ret)
  with step step_V_unlock [OF inv rel V_unlock] show ?thesis by (auto simp: kernel_step_def)
qed (use step pc in \<open>simp_all add: kernel_step_def\<close>)

lemma kernel_step_matched:
  assumes inv: "kernel_inv s" and rel: "futex_rel s Q A" and few: "\<And>b. length (Q b) < 2 ^ 32 - 1"
    and step: "kernel_step t sp s = Some s'"
  shows "matched (kernel_events s (Kernel_step t sp)) s' A"
proof (cases "\<exists>a. kpcs s t = W_unlock a")
  case True
  then obtain a where pc: "kpcs s t = W_unlock a" ..
  with step step_W_unlock [OF inv rel pc] show ?thesis by (simp add: kernel_step_def kernel_events_def)
next
  case False
  then have "kernel_events s (Kernel_step t sp) = []" by (simp add: kernel_events_def split: kpc.splits)
  with kernel_step_silent [OF inv rel few step] False show ?thesis by auto
qed

subsection \<open>Calls, returns and stores\<close>

lemma enter_wait_matched:
  assumes inv: "kernel_inv s" and rel: "futex_rel s Q A" and pc: "kpcs s t = K_user"
    and s': "kmove t (W_lock a val) (set_q t (futex_q_init a)) s = s'"
  shows "matched [Ev_wait t a val] s' A"
proof -
  let ?f = "set_q t (futex_q_init a)"
  note m = kernel_invD(1) [OF inv] and R = futex_relD [OF rel]
  have act: "kernel_act (Enter_wait t a val) s = Some s'" using pc s' by simp
  have free: "q_lock_ptr (futex_qs (kern s) t) = None"
    using kernel_invD(2) [OF inv, of t] pc by (simp add: thread_defs)
  then have off: "t \<notin> set (Q b)" for b using R(1) [of b] by (auto simp: queue_ok_def)
  have qq: "queue_ok s' b (Q b)" for b
  proof -
    obtain xs where xs: "queue_ok s' b xs" using kernel_act_queue_ok [OF inv act] by blast
    have link: "deref (?f (kern s)) l = (if l = Next_of t then None else deref (kern s) l)" for l
      by (cases l) (simp_all add: deref.simps)
    have "lseg (?f (kern s)) l (Q b) \<longleftrightarrow> lseg (kern s) l (Q b)" for l
      by (rule lseg_cong) (use off [of b] link in auto)
    moreover have "queue (kern s) b (Q b)" using R(1) [of b] unfolding queue_ok_def by blast
    ultimately have "queue (?f (kern s)) b (Q b)" by (simp add: link)
    moreover have "queue (?f (kern s)) b xs" using xs s' unfolding queue_ok_def by auto
    ultimately have "xs = Q b" by (rule lseg_unique [rotated])
    with xs show ?thesis by simp
  qed
  have phase: "fs_phase A t = Fs_user" using R(4) [of t] pc by (simp add: phase_rel_def)
  have mm: "mutex_ok s'" by (rule kernel_act_mutex_ok [OF m act])
  have "futex_rel s' Q (fs_goto t (Fs_wait a val) A)" unfolding s' [symmetric]
  proof (rule futex_rel_goto [OF rel m])
    show "q_uaddr (futex_qs (?f (kern s)) q) = q_uaddr (futex_qs (kern s) q)"
      if "q \<noteq> t \<or> q \<in> set (Q b)" for q b using that off [of b] by auto
  qed (use pc mm [folded s'] qq [folded s'] in \<open>simp_all add: rel_defs\<close>)
  then show ?thesis using matched_one [of "Fs_event (Ev_wait t a val)"] phase by simp
qed

lemma enter_wake_matched:
  assumes inv: "kernel_inv s" and rel: "futex_rel s Q A" and pc: "kpcs s t = K_user"
  shows "matched [Ev_wake t a n] (kmove t (V_fast a n) id s) A"
proof -
  have "futex_rel (kmove t (V_fast a n) id s) Q (fs_goto t (Fs_wake a n) A)"
    by (rule plain_move [OF inv rel]) (use pc in \<open>simp_all add: rel_defs\<close>)
  then show ?thesis
    using matched_one [of "Fs_event (Ev_wake t a n)"] futex_relD(4) [OF rel, of t] pc by (simp add: phase_rel_def)
qed

lemma leave_matched:
  assumes inv: "kernel_inv s" and rel: "futex_rel s Q A" and pc: "kpcs s t = K_return r"
  shows "matched [Ev_return t r] (kmove t (K_user) id s) A"
proof -
  have "futex_rel (kmove t (K_user) id s) Q (fs_goto t (Fs_user) A)"
    by (rule plain_move [OF inv rel]) (use pc in \<open>simp_all add: rel_defs\<close>)
  then show ?thesis
    using matched_one [of "Fs_event (Ev_return t r)"] futex_relD(4) [OF rel, of t] pc by (simp add: phase_rel_def)
qed

lemma store_matched:
  assumes rel: "futex_rel s Q A"
  shows "matched [Ev_store a val] (s\<lparr>kern := (kern s)\<lparr>user_mem := (user_mem (kern s))(a := val)\<rparr>\<rparr>) A"
proof -
  let ?k = "(kern s)\<lparr>user_mem := (user_mem (kern s))(a := val)\<rparr>"
  let ?s = "s\<lparr>kern := ?k\<rparr>" and ?A = "A\<lparr>fs_mem := (fs_mem A)(a := val)\<rparr>"
  note R = futex_relD [OF rel]
  have words: "on_word ?k a' xs = on_word (kern s) a' xs" for a' xs by (rule on_word_cong) simp
  have link: "deref ?k l = deref (kern s) l" for l by (cases l) (simp_all add: deref.simps)
  have "lseg ?k l xs \<longleftrightarrow> lseg (kern s) l xs" for l xs by (rule lseg_cong) (simp add: link)
  then have "queue_ok ?s b (Q b)" for b using R(1) [of b] by (simp add: queue_ok_def link)
  moreover have "queue_rel ?s Q ?A" using R(3) by (simp add: queue_rel_def spec_part_def words)
  moreover have "phase_rel ?s Q ?A u" for u
    by (rule phase_rel_keep [OF R(4)]) (simp_all add: words)
  moreover have "walk_rel ?s Q u" for u
    by (rule walk_rel_keep [OF R(5)]) simp_all
  ultimately have "futex_rel ?s Q ?A" using R(2) by (simp add: futex_rel_def)
  then show ?thesis using matched_one [of "Fs_event (Ev_store a val)"] by simp
qed

section \<open>Runs\<close>

text \<open>The threads below \<open>N\<close> are the only ones in the kernel, so no queue is longer than \<open>N\<close>.\<close>

definition threads_below :: "nat \<Rightarrow> ksys \<Rightarrow> bool" where
  "threads_below N s \<longleftrightarrow> N < 2 ^ 32 - 1 \<and> (\<forall>t. N \<le> t \<longrightarrow> kpcs s t = K_user)"

lemma threads_below_in: "threads_below N s \<Longrightarrow> kpcs s t \<noteq> K_user \<Longrightarrow> t < N"
  unfolding threads_below_def by (meson not_le)

lemma threads_below_queue:
  assumes inv: "kernel_inv s" and N: "threads_below N s" and q: "queue_ok s b xs"
  shows "length xs < 2 ^ 32 - 1"
proof -
  have "set xs \<subseteq> {..<N}"
  proof
    fix q assume "q \<in> set xs"
    with q have "q_lock_ptr (futex_qs (kern s) q) = Some b" by (simp add: queue_ok_def)
    with kernel_invD(2) [OF inv, of q] have "kpcs s q \<noteq> K_user" by (auto simp: thread_defs)
    with N show "q \<in> {..<N}" by (simp add: threads_below_in)
  qed
  then have "card (set xs) \<le> N" using card_mono [of "{..<N}"] by simp
  moreover have "distinct xs" using q unfolding queue_ok_def by blast
  ultimately show ?thesis using N by (simp add: distinct_card threads_below_def)
qed

lemma threads_below_act:
  assumes "threads_below N s" and "kernel_act_below N c s = Some s'"
  shows "threads_below N s'"
proof -
  have below: "kaction_below N c" and act: "kernel_act c s = Some s'"
    using assms(2) by (auto simp: kernel_act_below_def split: if_splits)
  have keep: "threads_below N (kmove t p f s)" if "t < N" for t p f
    using assms(1) that by (auto simp: threads_below_def)
  show ?thesis
  proof (cases c)
    case (Kernel_step t sp)
    with act have "kpcs s t \<noteq> K_user" by (auto simp: kernel_step_def)
    with assms(1) have "t < N" by (rule threads_below_in)
    with Kernel_step act assms(1) show ?thesis
      by (cases "kpcs s t")
        (auto simp: kernel_step_def Let_def lock_bucket_def unlock_bucket_def intro: keep split: option.splits if_splits)
  next
    case (Leave t)
    with act have "kpcs s t \<noteq> K_user" by auto
    with assms(1) have "t < N" by (rule threads_below_in)
    with Leave act show ?thesis by (auto intro: keep split: kpc.splits)
  qed (use act below assms(1) in \<open>auto simp: threads_below_def split: if_splits\<close>)
qed

lemma kernel_act_matched:
  assumes inv: "kernel_inv s" and N: "threads_below N s" and rel: "futex_rel s Q A"
    and step: "kernel_act_below N c s = Some s'"
  shows "matched (kernel_events s c) s' A"
proof -
  have act: "kernel_act c s = Some s'"
    using step by (auto simp: kernel_act_below_def split: if_splits)
  have few: "length (Q b) < 2 ^ 32 - 1" for b by (rule threads_below_queue [OF inv N futex_relD(1) [OF rel]])
  show ?thesis
  proof (cases c)
    case (Enter_wait t a val)
    with act enter_wait_matched [OF inv rel] show ?thesis by (auto simp: kernel_events_def split: if_splits)
  next
    case (Enter_wake t a n)
    with act enter_wake_matched [OF inv rel] show ?thesis by (auto simp: kernel_events_def split: if_splits)
  next
    case (Kernel_step t sp)
    with act kernel_step_matched [OF inv rel few] show ?thesis by simp
  next
    case (Leave t)
    with act leave_matched [OF inv rel] show ?thesis by (auto simp: kernel_events_def split: kpc.splits)
  next
    case (Store a val)
    with act store_matched [OF rel] show ?thesis by (auto simp: kernel_events_def)
  qed
qed

interpretation kernel_history: history_refinement "kernel_act_below N" "\<lambda>s. kernel_start s \<and> N < 2 ^ 32 - 1"
  "\<lambda>s. kernel_inv s \<and> threads_below N s" kernel_events futex_spec_act spec_events "\<lambda>s A. \<exists>Q. futex_rel s Q A"
  for N
proof
  show "kernel_inv s \<and> threads_below N s" if "kernel_start s \<and> N < 2 ^ 32 - 1" for s
    using that kernel_start_inv [of s] by (simp add: kernel_start_def threads_below_def)
next
  fix s c s' assume s: "kernel_inv s \<and> threads_below N s" and step: "kernel_act_below N c s = Some s'"
  then have "kernel_act c s = Some s'" by (simp add: kernel_act_below_def split: if_splits)
  with s step show "kernel_inv s' \<and> threads_below N s'"
    using kernel.act_inv threads_below_act by blast
  fix A assume "\<exists>Q. futex_rel s Q A"
  with s step obtain Q where "matched (kernel_events s c) s' A" using kernel_act_matched by blast
  then show "\<exists>ds A'. run_sched futex_spec_act ds A = Some A' \<and>
      concat (map spec_events ds) = kernel_events s c \<and> (\<exists>Q. futex_rel s' Q A')"
    unfolding matched_def by blast
qed

lemma futex_rel_start:
  assumes "kernel_start s"
  shows "futex_rel s (\<lambda>_. []) (futex_spec_init (user_mem (kern s)))"
proof -
  have "queue_ok s b []" for b
    using assms by (auto simp: kernel_start_def queue_ok_def deref.simps)
  with assms show ?thesis
    by (auto simp: futex_rel_def queue_rel_def rel_defs kernel_start_def futex_spec_init_def)
qed

text \<open>What the relation says where no thread is in the way.\<close>

lemma futex_rel_quiet:
  assumes inv: "kernel_inv s" and rel: "futex_rel s Q A"
  shows "hb_lock (buckets (kern s) (hash_futex a)) = 0 \<Longrightarrow>
      \<exists>xs. queue (kern s) (hash_futex a) xs \<and> fs_queue A a = on_word (kern s) a xs"
    and "kpcs s t = K_return r \<Longrightarrow> fs_phase A t = Fs_return r"
    and "fs_phase A t = Fs_arriving a \<Longrightarrow> kpcs s t = W_enqueue a \<or> kpcs s t = W_count a \<or> kpcs s t = W_unlock a"
    and "kpcs s t = W_sleep \<Longrightarrow>
      fs_phase A t = (let a = q_uaddr (futex_qs (kern s) t) in if t \<in> set (fs_queue A a) then Fs_asleep a else Fs_return 0)"
proof -
  note R = futex_relD [OF rel]
  show "kpcs s t = K_return r \<Longrightarrow> fs_phase A t = Fs_return r"
    using R(4) [of t] by (simp add: phase_rel_def)
  show "fs_phase A t = Fs_arriving a \<Longrightarrow> kpcs s t = W_enqueue a \<or> kpcs s t = W_count a \<or> kpcs s t = W_unlock a"
    using R(4) [of t] by (cases "kpcs s t") (auto simp: phase_rel_def Let_def split: if_splits)
  show "kpcs s t = W_sleep \<Longrightarrow>
      fs_phase A t = (let a = q_uaddr (futex_qs (kern s) t) in if t \<in> set (fs_queue A a) then Fs_asleep a else Fs_return 0)"
    using R(4) [of t] by (simp add: phase_rel_def)
  assume "hb_lock (buckets (kern s) (hash_futex a)) = 0"
  then have "crit (kpcs s h) \<noteq> Some (hash_futex a)" for h
    using kernel_invD(1) [OF inv] unfolding mutex_ok_def by (metis zero_neq_one)
  with R(3) have "fs_queue A a = on_word (kern s) a (Q (hash_futex a))" by (simp add: queue_rel_def)
  with R(1) [of "hash_futex a"] show "\<exists>xs. queue (kern s) (hash_futex a) xs \<and> fs_queue A a = on_word (kern s) a xs"
    unfolding queue_ok_def by blast
qed

section \<open>Properties\<close>

text \<open>C4: the futex calls are linearizable up to the missed wake. Whatever the interleaving of the
  steps of fewer than \<open>2 ^ 32 - 1\<close> threads inside \<^verbatim>\<open>kernel_futex_wait\<close> and \<^verbatim>\<open>kernel_futex_wake\<close> and
  of stores of userspace, the history of calls, results, stores and threads that go to sleep is one
  of a specification in which each wait compares and queues in one step and each wake takes the
  latest waiters of its word off the queue, at most as many as asked for, and returns their number;
  only a wake may instead return 0 when every thread on the queue is one that has compared and has
  not gone to sleep yet, that is, has not reached \<^verbatim>\<open>schedule\<close>. A thread in \<^verbatim>\<open>schedule\<close> is on the
  queue of its word, where every wake must reach it, or has been taken off it by a wake and will
  return 0. Whenever nobody has the lock of a bucket, its chain in memory, restricted to a word, is
  the queue of the specification.\<close>

theorem kernel_futex_linearizable:
  assumes "kernel_start s" and "N < 2 ^ 32 - 1" and "run_sched (kernel_act_below N) cs s = Some s'"
  shows "\<exists>ds A. run_sched futex_spec_act ds (futex_spec_init (user_mem (kern s))) = Some A \<and>
    concat (map spec_events ds) = history (kernel_act_below N) kernel_events cs s \<and>
    fs_mem A = user_mem (kern s') \<and>
    (\<forall>a. hb_lock (buckets (kern s') (hash_futex a)) = 0 \<longrightarrow>
       (\<exists>xs. queue (kern s') (hash_futex a) xs \<and> fs_queue A a = on_word (kern s') a xs)) \<and>
    (\<forall>t r. kpcs s' t = K_return r \<longrightarrow> fs_phase A t = Fs_return r) \<and>
    (\<forall>t a. fs_phase A t = Fs_arriving a \<longrightarrow>
       kpcs s' t = W_enqueue a \<or> kpcs s' t = W_count a \<or> kpcs s' t = W_unlock a) \<and>
    (\<forall>t. kpcs s' t = W_sleep \<longrightarrow>
       fs_phase A t = (let a = q_uaddr (futex_qs (kern s') t) in
         if t \<in> set (fs_queue A a) then Fs_asleep a else Fs_return 0))"
proof -
  have start: "kernel_start s \<and> N < 2 ^ 32 - 1" using assms(1,2) by simp
  note inv = kernel_history.init_inv [OF start]
  have rel: "\<exists>Q. futex_rel s Q (futex_spec_init (user_mem (kern s)))" using futex_rel_start [OF assms(1)] by blast
  from kernel_history.run_matched [OF inv rel assms(3)] obtain ds A Q where
    A: "run_sched futex_spec_act ds (futex_spec_init (user_mem (kern s))) = Some A"
      "concat (map spec_events ds) = history (kernel_act_below N) kernel_events cs s" "futex_rel s' Q A" by blast
  have "kernel_inv s'" using kernel_history.run_inv [OF inv assms(3)] by blast
  note quiet = futex_rel_quiet [OF this A(3)]
  show ?thesis
    by (rule exI [of _ ds], rule exI [of _ A], intro conjI A(1,2) futex_relD(2) [OF A(3)] allI impI quiet)
qed

text \<open>A wait and a wake that overlap, each with its return.\<close>

definition linear_run :: "kaction list" where
  "linear_run = Enter_wait 0 4 0 # replicate 5 (Kernel_step 0 False) @
     [Store 4 1, Enter_wake 1 4 1] @ replicate 7 (Kernel_step 1 False) @
     [Kernel_step 0 False, Leave 1, Leave 0]"

lemma linear_run_history:
  "\<exists>s. run_sched (kernel_act_below 2) linear_run kernel_sys0 = Some s"
  "history (kernel_act_below 2) kernel_events linear_run kernel_sys0 =
     [Ev_wait 0 4 0, Ev_sleep 0, Ev_store 4 1, Ev_wake 1 4 1, Ev_return 1 1, Ev_return 0 0]"
proof -
  have "run_sched (kernel_act_below 2) linear_run kernel_sys0 \<noteq> None" by code_simp
  then show "\<exists>s. run_sched (kernel_act_below 2) linear_run kernel_sys0 = Some s" by blast
  show "history (kernel_act_below 2) kernel_events linear_run kernel_sys0 =
     [Ev_wait 0 4 0, Ev_sleep 0, Ev_store 4 1, Ev_wake 1 4 1, Ev_return 1 1, Ev_return 0 0]" by code_simp
qed

theorem kernel_futex_linearizable_witness:
  "\<exists>ds A. run_sched futex_spec_act ds (futex_spec_init (user_mem kernel_zero)) = Some A \<and>
    concat (map spec_events ds) = [Ev_wait 0 4 0, Ev_sleep 0, Ev_store 4 1, Ev_wake 1 4 1, Ev_return 1 1, Ev_return 0 0]"
proof -
  from linear_run_history(1) obtain s where "run_sched (kernel_act_below 2) linear_run kernel_sys0 = Some s" ..
  from kernel_futex_linearizable [OF kernel_start_0 _ this] linear_run_history(2)
  show ?thesis by (auto simp: kernel_sys0_def)
qed

text \<open>C39: the fast path misses no sleeper. In every state that fewer than \<open>2 ^ 32 - 1\<close> threads
  reach, a \<^verbatim>\<open>kernel_futex_wake\<close> that reads the count of its bucket while a thread that waits on its
  word sleeps in \<^verbatim>\<open>schedule\<close> and is queued goes on to take the lock; it does not return 0. So the
  waiters that the fast path can miss are those between their comparison and their sleep.\<close>

theorem fast_path_sees_sleepers:
  assumes "kernel_start s" and "N < 2 ^ 32 - 1" and "run_sched (kernel_act_below N) cs s = Some s'"
    and "kpcs s' t = V_fast a n"
    and "kpcs s' u = W_sleep" and "q_uaddr (futex_qs (kern s') u) = a"
    and "q_lock_ptr (futex_qs (kern s') u) = Some (hash_futex a)"
  shows "\<exists>s''. kernel_step t spurious s' = Some s'' \<and> kpcs s'' t = V_lock a n"
proof -
  have start: "kernel_start s \<and> N < 2 ^ 32 - 1" using assms(1,2) by simp
  have "kernel_inv s' \<and> threads_below N s'"
    using kernel_history.run_inv [OF kernel_history.init_inv [OF start] assms(3)] by blast
  then have inv: "kernel_inv s'" and N: "threads_below N s'" by simp_all
  obtain xs where q: "queue_ok s' (hash_futex a) xs" using inv by (auto simp: kernel_inv_def)
  have u: "u \<in> set xs" using q assms(7) by (simp add: queue_ok_def)
  have "hb_waiters (buckets (kern s') (hash_futex a)) \<noteq> 0"
  proof
    assume "hb_waiters (buckets (kern s') (hash_futex a)) = 0"
    from fast_path_zero [OF inv q threads_below_queue [OF inv N q] this] show False
      using u assms(5) by cases auto
  qed
  with assms(4) show ?thesis by (simp add: kernel_step_def k_load_relaxed_def Let_def)
qed

text \<open>Thread 0 sleeps on word 4 when thread 1 begins to wake.\<close>

theorem fast_path_sees_sleepers_witness:
  "\<exists>s s''. run_sched (kernel_act_below 2)
       (Enter_wait 0 4 0 # replicate 5 (Kernel_step 0 False) @ [Enter_wake 1 4 1]) kernel_sys0 = Some s \<and>
     kernel_step 1 False s = Some s'' \<and> kpcs s'' 1 = V_lock 4 1"
proof -
  let ?cs = "Enter_wait 0 4 0 # replicate 5 (Kernel_step 0 False) @ [Enter_wake 1 4 1]"
  have "case run_sched (kernel_act_below 2) ?cs kernel_sys0 of None \<Rightarrow> False | Some s \<Rightarrow>
      kpcs s 1 = V_fast 4 1 \<and> kpcs s 0 = W_sleep \<and> q_uaddr (futex_qs (kern s) 0) = 4 \<and>
      q_lock_ptr (futex_qs (kern s) 0) = Some (hash_futex 4)"
    by code_simp
  then obtain s where s: "run_sched (kernel_act_below 2) ?cs kernel_sys0 = Some s" "kpcs s 1 = V_fast 4 1"
    "kpcs s 0 = W_sleep" "q_uaddr (futex_qs (kern s) 0) = 4" "q_lock_ptr (futex_qs (kern s) 0) = Some (hash_futex 4)"
    by (auto simp del: run_sched.simps split: option.splits)
  from fast_path_sees_sleepers [OF kernel_start_0 _ s] s(1) show ?thesis by (simp del: run_sched.simps)
qed

end
