(* ===== verification/Lock_Kernel.thy ===== *)
theory Lock_Kernel
  imports Tri_Lock Futex_Service
begin

text \<open>
  The three-state lock on top of the kernel: the same threads as in \<open>Tri_Lock\<close>, but the word lies
  in the memory of userspace, and \<^verbatim>\<open>futex_syscall\<close> goes through the syscall boundary into the wait
  queues of \<^verbatim>\<open>kernel/k_futex.h\<close>. \<open>Tri_Lock\<close> abstracts from the kernel by a list of sleepers; here the
  lock with the kernel behind it is shown to be an instance of that abstraction.
\<close>

section \<open>The lock on an operating system\<close>

record 'k lock_os_sys =
  lk_os :: 'k
  lk_pcs :: "tid \<Rightarrow> lock_pc"

text \<open>What userspace does on its own: a step of \<open>Tri_Lock\<close> on the word as memory has it.\<close>

definition user_step ::
  "'k os \<Rightarrow> addr \<Rightarrow> (lock_sys \<Rightarrow> lock_sys option) \<Rightarrow> 'k lock_os_sys \<Rightarrow> 'k lock_os_sys option" where
  "user_step os a f s =
     map_option (\<lambda>v. \<lparr>lk_os = os_store os a (lock_word v) (lk_os s), lk_pcs = lock_pcs v\<rparr>)
       (f \<lparr>lock_word = os_mem os (lk_os s) a, lock_pcs = lk_pcs s, sleepers = []\<rparr>)"

definition lk_goto :: "tid \<Rightarrow> lock_pc \<Rightarrow> 'k \<Rightarrow> 'k lock_os_sys \<Rightarrow> 'k lock_os_sys" where
  "lk_goto t p k s = \<lparr>lk_os = k, lk_pcs = (lk_pcs s)(t := p)\<rparr>"

definition three_states_lock_os ::
  "'k os \<Rightarrow> addr \<Rightarrow> tid \<Rightarrow> bool \<Rightarrow> 'k lock_os_sys \<Rightarrow> 'k lock_os_sys option" where
  "three_states_lock_os os a t spurious s =
     (case lk_pcs s t of
        L_wait expected \<Rightarrow>
          (case os_futex os t a FUTEX_WAIT expected (lk_os s) of
             (Some ret, k) \<Rightarrow> Some (lk_goto t L_reload k s)
           | (None, k) \<Rightarrow> Some (lk_goto t L_blocked k s))
      | L_blocked \<Rightarrow> map_option (\<lambda>k. lk_goto t L_reload k s) (os_resume os t (lk_os s))
      | _ \<Rightarrow> user_step os a (three_states_lock t spurious) s)"

definition unlock_wake_os :: "'k os \<Rightarrow> addr \<Rightarrow> tid \<Rightarrow> 'k lock_os_sys \<Rightarrow> 'k lock_os_sys option" where
  "unlock_wake_os os a t s =
     (if lk_pcs s t = U_wake
      then Some (lk_goto t Outside (snd (os_futex os t a FUTEX_WAKE 1 (lk_os s))) s) else None)"

text \<open>\<open>n\<close> threads use the lock. The kernel decides whom a wake-up hits, and ends no wait by itself.\<close>

datatype lock_os_action =
    Os_call tid
  | Os_step tid bool
  | Os_payload tid u32
  | Os_unlock tid
  | Os_wake tid

fun lock_os_act ::
  "'k os \<Rightarrow> addr \<Rightarrow> nat \<Rightarrow> lock_os_action \<Rightarrow> 'k lock_os_sys \<Rightarrow> 'k lock_os_sys option" where
  "lock_os_act os a n (Os_call t) s = (if t < n then user_step os a (lock_act (Call t)) s else None)"
| "lock_os_act os a n (Os_step t spurious) s = three_states_lock_os os a t spurious s"
| "lock_os_act os a n (Os_payload t p) s = user_step os a (lock_act (Set_payload t p)) s"
| "lock_os_act os a n (Os_unlock t) s = user_step os a (three_states_unlock t) s"
| "lock_os_act os a n (Os_wake t) s = unlock_wake_os os a t s"

lemma lk_goto_simps [simp]:
  "lk_os (lk_goto t p k s) = k"
  "lk_pcs (lk_goto t p k s) u = (if u = t then p else lk_pcs s u)"
  by (simp_all add: lk_goto_def)

section \<open>Steps that stay in userspace\<close>

text \<open>Such a step depends on the word and the own program point only, and changes only these.\<close>

definition local_action :: "tid \<Rightarrow> (lock_sys \<Rightarrow> lock_sys option) \<Rightarrow> bool" where
  "local_action t f \<longleftrightarrow> (\<forall>s s'. f s = Some s' \<longrightarrow>
     lock_pcs s' t \<noteq> L_blocked \<and> s' = goto t (lock_pcs s' t) (s\<lparr>lock_word := lock_word s'\<rparr>) \<and>
     (\<forall>r. lock_word r = lock_word s \<and> lock_pcs r t = lock_pcs s t \<longrightarrow>
        f r = Some (goto t (lock_pcs s' t) (r\<lparr>lock_word := lock_word s'\<rparr>))))"

text \<open>The steps of the lock short of its two futex points.\<close>

definition local_lock :: "tid \<Rightarrow> bool \<Rightarrow> lock_sys \<Rightarrow> lock_sys option" where
  "local_lock t sp s =
     (case lock_pcs s t of L_wait e \<Rightarrow> None | _ \<Rightarrow> three_states_lock t sp s)"

lemma same_word [simp]: "lock_word s = w \<Longrightarrow> s\<lparr>lock_word := w\<rparr> = s"
  by auto

lemma goto_stay [simp]: "lock_pcs s t = p \<Longrightarrow> goto t p s = s"
  by (auto simp: goto_def)

lemma local_call: "local_action t (lock_act (Call t))"
  by (auto simp: local_action_def split: if_splits)

lemma local_payload: "local_action t (lock_act (Set_payload t v))"
  by (auto simp: local_action_def split: if_splits)

lemma local_unlock: "local_action t (three_states_unlock t)"
  by (auto simp: local_action_def three_states_unlock_def atomic_defs Let_def split: if_splits)

lemma local_actionI:
  assumes "\<And>s s'. f s = Some s' \<Longrightarrow> \<exists>p w. p \<noteq> L_blocked \<and> s' = goto t p (s\<lparr>lock_word := w\<rparr>) \<and>
     (\<forall>r. lock_word r = lock_word s \<longrightarrow> lock_pcs r t = lock_pcs s t \<longrightarrow> f r = Some (goto t p (r\<lparr>lock_word := w\<rparr>)))"
  shows "local_action t f"
  unfolding local_action_def using assms by fastforce

lemmas local_lock_eval = local_lock_def three_states_lock_def atomic_defs

lemma local_three_states_lock: "local_action t (local_lock t sp)"
proof (rule local_actionI)
  fix s s' assume step: "local_lock t sp s = Some s'"
  let ?goal = "\<lambda>p w. p \<noteq> L_blocked \<and> s' = goto t p (s\<lparr>lock_word := w\<rparr>) \<and>
     (\<forall>r. lock_word r = lock_word s \<longrightarrow> lock_pcs r t = lock_pcs s t \<longrightarrow>
        local_lock t sp r = Some (goto t p (r\<lparr>lock_word := w\<rparr>)))"
  let ?v = "lock_word s"
  show "\<exists>p w. ?goal p w"
  proof (cases "lock_pcs s t")
    case L_load
    with step have "?goal (fast_head ?v) ?v" by (auto simp: local_lock_eval)
    then show ?thesis by blast
  next
    case L_reload
    with step have "?goal (slow_head ?v) ?v" by (auto simp: local_lock_eval)
    then show ?thesis by blast
  next
    case (L_fast e)
    with step have "?goal Holding (e OR three_states_locked_no_waiter)" if "?v = e \<and> \<not> sp"
      using that by (auto simp: local_lock_eval)
    moreover from L_fast step have "?goal (fast_head ?v) ?v" if "\<not> (?v = e \<and> \<not> sp)"
      using that by (auto simp: local_lock_eval)
    ultimately show ?thesis by blast
  next
    case (L_slow e)
    let ?d = "ClearState e OR three_states_locked_waiters"
    from L_slow step have "?goal (if State e = three_states_unlocked then Holding else L_wait ?d) ?d"
      if "?v = e \<and> \<not> sp"
      using that by (auto simp: local_lock_eval Let_def)
    moreover from L_slow step
    have "?goal (if State ?v = three_states_unlocked then slow_head ?v else L_wait ?v) ?v"
      if "\<not> (?v = e \<and> \<not> sp)"
      using that by (auto simp: local_lock_eval Let_def)
    ultimately show ?thesis by blast
  qed (use step in \<open>auto simp: local_lock_eval\<close>)
qed


section \<open>The abstraction\<close>

text \<open>
  The lock of \<open>Tri_Lock\<close> that this one is an instance of: a thread that has been woken but has not run
  since is past its wait there, and the queue is the one of the kernel in order of arrival.
\<close>

definition lock_abs ::
  "'k os \<Rightarrow> ('k \<Rightarrow> addr \<Rightarrow> tid list) \<Rightarrow> ('k \<Rightarrow> tid \<Rightarrow> bool) \<Rightarrow> addr \<Rightarrow> 'k lock_os_sys \<Rightarrow> lock_sys" where
  "lock_abs os on pend a s =
     \<lparr>lock_word = os_mem os (lk_os s) a,
      lock_pcs = (\<lambda>t. if lk_pcs s t = L_blocked \<and> pend (lk_os s) t then L_reload else lk_pcs s t),
      sleepers = rev (on (lk_os s) a)\<rparr>"

text \<open>The threads below \<open>n\<close> use the lock and no other futex; other threads may sleep elsewhere.\<close>

definition lock_os_start ::
  "'k os \<Rightarrow> ('k \<Rightarrow> addr \<Rightarrow> tid list) \<Rightarrow> ('k \<Rightarrow> bool) \<Rightarrow> nat \<Rightarrow> addr \<Rightarrow> nat \<Rightarrow> 'k lock_os_sys \<Rightarrow> bool" where
  "lock_os_start os on ok N a n s \<longleftrightarrow> ok (lk_os s) \<and> n \<le> N \<and> lk_pcs s = (\<lambda>_. Outside) \<and>
     State (os_mem os (lk_os s) a) = three_states_unlocked \<and> on (lk_os s) a = [] \<and>
     (\<forall>b. \<forall>t \<in> set (on (lk_os s) b). n \<le> t)"

definition lock_os_inv ::
  "('k \<Rightarrow> addr \<Rightarrow> tid list) \<Rightarrow> ('k \<Rightarrow> tid \<Rightarrow> bool) \<Rightarrow> ('k \<Rightarrow> bool) \<Rightarrow> nat \<Rightarrow> addr \<Rightarrow> nat \<Rightarrow>
   'k lock_os_sys \<Rightarrow> bool" where
  "lock_os_inv on pend ok N a n s \<longleftrightarrow> ok (lk_os s) \<and> n \<le> N \<and>
     (\<forall>t. lk_pcs s t \<noteq> Outside \<longrightarrow> t < n) \<and> (\<forall>t \<in> set (on (lk_os s) a). t < n) \<and>
     (\<forall>t b. t < n \<longrightarrow>
        t \<in> set (on (lk_os s) b) \<longleftrightarrow> b = a \<and> lk_pcs s t = L_blocked \<and> \<not> pend (lk_os s) t)"

lemma lock_abs_simps [simp]:
  "lock_word (lock_abs os on pend a s) = os_mem os (lk_os s) a"
  "lock_pcs (lock_abs os on pend a s) t =
     (if lk_pcs s t = L_blocked \<and> pend (lk_os s) t then L_reload else lk_pcs s t)"
  "sleepers (lock_abs os on pend a s) = rev (on (lk_os s) a)"
  by (simp_all add: lock_abs_def)

context futex_service begin

abbreviation "labs a \<equiv> lock_abs os on pend a"
abbreviation "linv a n \<equiv> lock_os_inv on pend ok N a n"

lemma lock_start_os_inv: "lock_os_start os on ok N a n s \<Longrightarrow> linv a n s \<and> lock_start (labs a s)"
  by (simp add: lock_os_start_def lock_os_inv_def lock_start_def fun_eq_iff) (metis leD)

lemma linv_move:
  assumes "linv a n s" and "t < n" and "ok k'" and "on k' = on (lk_os s)"
    and "\<And>u. u \<noteq> t \<Longrightarrow> pend k' u = pend (lk_os s) u"
    and "p \<noteq> L_blocked" and "lk_pcs s t = L_blocked \<Longrightarrow> pend (lk_os s) t"
  shows "linv a n (lk_goto t p k' s)"
  using assms by (simp add: lock_os_inv_def)

lemma labs_move:
  assumes "on k' = on (lk_os s)" and "\<And>u. u \<noteq> t \<Longrightarrow> pend k' u = pend (lk_os s) u"
    and "p \<noteq> L_blocked"
  shows "labs a (lk_goto t p k' s) = goto t p ((labs a s)\<lparr>lock_word := os_mem os k' a\<rparr>)"
  using assms by (auto simp: lock_abs_def goto_def lk_goto_def fun_eq_iff)

lemma local_step_simulated:
  assumes inv: "linv a n s" and step: "user_step os a f s = Some s'" and f: "local_action t f"
    and t: "lk_pcs s t \<noteq> L_blocked" "t < n"
  shows "linv a n s' \<and> f (labs a s) = Some (labs a s')"
proof -
  let ?k = "lk_os s" and ?v = "\<lparr>lock_word = os_mem os (lk_os s) a, lock_pcs = lk_pcs s, sleepers = []\<rparr>"
  from inv have ok: "ok ?k" by (simp add: lock_os_inv_def)
  from step obtain v where v: "f ?v = Some v"
    and s': "s' = \<lparr>lk_os = os_store os a (lock_word v) ?k, lk_pcs = lock_pcs v\<rparr>"
    by (auto simp: user_step_def)
  from f v have p: "lock_pcs v t \<noteq> L_blocked"
    and eq: "v = goto t (lock_pcs v t) (?v\<lparr>lock_word := lock_word v\<rparr>)"
    and same: "lock_word r = lock_word ?v \<and> lock_pcs r t = lock_pcs ?v t \<longrightarrow>
      f r = Some (goto t (lock_pcs v t) (r\<lparr>lock_word := lock_word v\<rparr>))" for r
    unfolding local_action_def by blast+
  from arg_cong [OF eq, of lock_pcs]
  have move: "s' = lk_goto t (lock_pcs v t) (os_store os a (lock_word v) ?k) s"
    by (simp add: s' lk_goto_def goto_def)
  note store = store_only [OF ok, of a "lock_word v"]
  from same [of "labs a s"] t store p have "f (labs a s) = Some (labs a s')"
    unfolding move by (subst labs_move) simp_all
  moreover have "linv a n s'"
    unfolding move using inv t store p by (intro linv_move) simp_all
  ultimately show ?thesis by blast
qed

lemma wait_step_simulated:
  assumes inv: "linv a n s" and step: "three_states_lock_os os a t sp s = Some s'"
  shows "linv a n s' \<and> (labs a s' = labs a s \<or> three_states_lock t sp (labs a s) = Some (labs a s'))"
proof -
  let ?k = "lk_os s"
  from inv have ok: "ok ?k" by (simp add: lock_os_inv_def)
  from step have "lk_pcs s t \<noteq> Outside"
    by (auto simp: three_states_lock_os_def user_step_def three_states_lock_def)
  with inv have t: "t < n" "t < N" and idle: "lk_pcs s t \<noteq> L_blocked \<Longrightarrow> t \<notin> set (on ?k b)" for b
    by (auto simp: lock_os_inv_def)
  consider (wait) e where "lk_pcs s t = L_wait e" | (blocked) "lk_pcs s t = L_blocked"
    | (own) "\<And>e. lk_pcs s t \<noteq> L_wait e" "lk_pcs s t \<noteq> L_blocked" by blast
  then show ?thesis
  proof cases
    case (wait e)
    note L_wait = wait
    then have asleep: "t \<notin> set (on ?k b)" for b by (intro idle) simp
    show ?thesis
    proof (cases "os_mem os ?k a = e")
      case True
      obtain k' where k': "os_futex os t a FUTEX_WAIT e ?k = (None, k')" "ok k'"
        "os_mem os k' = os_mem os ?k" "on k' = (on ?k)(a := t # on ?k a)" "pend k' = (pend ?k)(t := False)"
        by (rule futex_wait_slept [OF ok t(2) asleep True])
      with step L_wait have s': "s' = lk_goto t L_blocked k' s" by (simp add: three_states_lock_os_def)
      have "linv a n s'"
        using inv k' t(1) asleep L_wait unfolding s' lock_os_inv_def by simp
      moreover have "three_states_lock t sp (labs a s) = Some (labs a s')"
        using L_wait True k' by (auto simp: three_states_lock_def s' lock_abs_def goto_def fun_eq_iff)
      ultimately show ?thesis by simp
    next
      case False
      obtain k' where k': "os_futex os t a FUTEX_WAIT e ?k = (Some (- EWOULDBLOCK), k')" "ok k'"
        "os_mem os k' = os_mem os ?k" "on k' = on ?k" "pend k' = (pend ?k)(t := False)"
        by (rule futex_wait_refused [OF ok t(2) asleep False])
      with step L_wait have s': "s' = lk_goto t L_reload k' s" by (simp add: three_states_lock_os_def)
      have "linv a n s'" unfolding s' using inv t k' L_wait by (intro linv_move) simp_all
      moreover have "three_states_lock t sp (labs a s) = Some (labs a s')"
        unfolding s' using L_wait False k' by (subst labs_move) (simp_all add: three_states_lock_def)
      ultimately show ?thesis by simp
    qed
  next
    case blocked
    note L_blocked = blocked
    with step obtain k' where run: "os_resume os t ?k = Some k'" and s': "s' = lk_goto t L_reload k' s"
      by (auto simp: three_states_lock_os_def)
    have pend: "pend ?k t" using run resume_blocked [OF ok] by force
    from resume_runs [OF ok pend] run have k': "ok k'" "os_mem os k' = os_mem os ?k" "on k' = on ?k"
      "pend k' = (pend ?k)(t := False)" by auto
    have "linv a n s'" unfolding s' using inv t k' pend by (intro linv_move) simp_all
    moreover have "labs a s' = labs a s"
      unfolding s' using L_blocked pend k' by (subst labs_move) simp_all
    ultimately show ?thesis by simp
  next
    case own
    then have "local_lock t sp r = three_states_lock t sp r" if "lock_pcs r t = lk_pcs s t" for r
      using that by (simp add: local_lock_def split: lock_pc.splits)
    moreover from own step have "user_step os a (three_states_lock t sp) s = Some s'"
    proof (cases "lk_pcs s t")
      case (L_wait e)
      with own(1) show ?thesis by blast
    qed (use own(2) step in \<open>simp_all add: three_states_lock_os_def\<close>)
    ultimately show ?thesis
      using local_step_simulated [OF inv _ local_three_states_lock own(2) t(1), of sp s'] own(2)
      by (simp add: user_step_def)
  qed
qed

lemma unlock_wake_simulated:
  assumes inv: "linv a n s" and step: "unlock_wake_os os a t s = Some s'"
  shows "linv a n s' \<and> (\<exists>u. unlock_wake t u (labs a s) = Some (labs a s'))"
proof -
  let ?k = "lk_os s"
  from inv have ok: "ok ?k" by (simp add: lock_os_inv_def)
  obtain k' where k': "os_futex os t a FUTEX_WAKE 1 ?k = (Some (int (length (take 1 (on ?k a)))), k')" "ok k'"
    "os_mem os k' = os_mem os ?k" "on k' = (on ?k)(a := tl (on ?k a))"
    "pend k' = (\<lambda>u. pend ?k u \<or> u \<in> set (take 1 (on ?k a)))"
    by (rule futex_wake_one [OF ok])
  from step k' have t: "lk_pcs s t = U_wake" and s': "s' = lk_goto t Outside k' s"
    by (auto simp: unlock_wake_os_def split: if_splits)
  show ?thesis
  proof (cases "on ?k a")
    case Nil
    with k' have "on k' = on ?k" "pend k' = pend ?k" by (simp_all add: fun_eq_iff)
    moreover from inv t have "t < n" by (auto simp: lock_os_inv_def)
    ultimately have "linv a n s'" "labs a s' = goto t Outside (labs a s)"
      unfolding s' using inv k' t by (auto intro!: linv_move simp: labs_move)
    with Nil t show ?thesis by (simp add: unlock_wake_def)
  next
    case (Cons u us)
    have dist: "distinct (u # us)" using sleepers_distinct [OF ok, of a] Cons by simp
    from inv Cons have u: "lk_pcs s u = L_blocked" "\<not> pend ?k u"
      by (metis list.set_intros(1) lock_os_inv_def)+
    have here: "x = u \<or> x \<in> set us \<longleftrightarrow> lk_pcs s x = L_blocked \<and> \<not> pend ?k x" if "x < n" for x
    proof -
      from inv that have "x \<in> set (on ?k a) \<longleftrightarrow> lk_pcs s x = L_blocked \<and> \<not> pend ?k x"
        unfolding lock_os_inv_def by blast
      with Cons show ?thesis by simp
    qed
    have "linv a n s'"
      unfolding s' lock_os_inv_def
    proof (intro conjI allI impI ballI)
      fix x b assume x: "x < n"
      from inv x have elsewhere: "x \<notin> set (on ?k b)" if "b \<noteq> a"
        using that unfolding lock_os_inv_def by blast
      show "x \<in> set (on (lk_os (lk_goto t Outside k' s)) b) \<longleftrightarrow>
          b = a \<and> lk_pcs (lk_goto t Outside k' s) x = L_blocked \<and> \<not> pend (lk_os (lk_goto t Outside k' s)) x"
        using here [OF x] elsewhere k' Cons dist t u by (cases "b = a"; cases "x = t"; cases "x = u") simp_all
    qed (use inv k' Cons in \<open>auto simp: lock_os_inv_def split: if_splits\<close>)
    moreover have "labs a s' = goto t Outside (goto u L_reload ((labs a s)\<lparr>sleepers := rev us\<rparr>))"
      using k' Cons u t by (auto simp: s' lock_abs_def goto_def fun_eq_iff)
    moreover have "remove1 u (rev us @ [u]) = rev us"
      using dist by (simp add: remove1_append)
    ultimately show ?thesis using Cons t u by (intro conjI exI [of _ u]) (simp_all add: unlock_wake_def)
  qed
qed

lemma lock_os_simulated:
  assumes inv: "linv a n s" and step: "lock_os_act os a n c s = Some s'"
  shows "linv a n s' \<and> (labs a s' = labs a s \<or> (\<exists>c. lock_act c (labs a s) = Some (labs a s')))"
proof -
  have who: "lk_pcs s t \<noteq> Outside \<Longrightarrow> t < n" for t using inv by (simp add: lock_os_inv_def)
  note local = local_step_simulated [OF inv]
  show ?thesis
  proof (cases c)
    case (Os_call t)
    with step have run: "user_step os a (lock_act (Call t)) s = Some s'" and t: "t < n"
      by (simp_all split: if_splits)
    from run have "lk_pcs s t = Outside" by (simp add: user_step_def split: if_splits)
    with local [OF run local_call] t show ?thesis by (intro conjI disjI2 exI [of _ "Call t"]) simp_all
  next
    case (Os_step t sp)
    with wait_step_simulated [OF inv, of t sp s'] step show ?thesis
      by (auto intro: exI [of _ "Step t sp"])
  next
    case (Os_payload t p)
    with step have run: "user_step os a (lock_act (Set_payload t p)) s = Some s'" by simp
    then have "lk_pcs s t = Holding" by (simp add: user_step_def split: if_splits)
    with local [OF run local_payload] who [of t] show ?thesis
      by (intro conjI disjI2 exI [of _ "Set_payload t p"]) simp_all
  next
    case (Os_unlock t)
    with step have run: "user_step os a (three_states_unlock t) s = Some s'" by simp
    then have "lk_pcs s t = Holding" by (simp add: user_step_def three_states_unlock_def split: if_splits)
    with local [OF run local_unlock] who [of t] show ?thesis
      by (intro conjI disjI2 exI [of _ "Unlock t"]) simp_all
  next
    case (Os_wake t)
    with unlock_wake_simulated [OF inv, of t s'] step show ?thesis
      by (metis lock_act.simps(5) lock_os_act.simps(5))
  qed
qed

end


section \<open>The lock on the kernel\<close>

abbreviation lock_kernel_act ::
  "nat \<Rightarrow> addr \<Rightarrow> nat \<Rightarrow> lock_os_action \<Rightarrow> kernel lock_os_sys \<Rightarrow> kernel lock_os_sys option" where
  "lock_kernel_act N a n \<equiv> lock_os_act (kernel_os N) a n"

abbreviation lock_kernel_start :: "nat \<Rightarrow> addr \<Rightarrow> nat \<Rightarrow> kernel lock_os_sys \<Rightarrow> bool" where
  "lock_kernel_start N a n \<equiv> lock_os_start (kernel_os N) (sleepers_on N) (kernel_ok N) N a n"

abbreviation lock_kernel_abs :: "nat \<Rightarrow> addr \<Rightarrow> kernel lock_os_sys \<Rightarrow> lock_sys" where
  "lock_kernel_abs N a \<equiv> lock_abs (kernel_os N) (sleepers_on N) woken_up a"

interpretation lock_kernel: simulated_system "lock_kernel_act N a n" "lock_kernel_start N a n"
  "lock_os_inv (sleepers_on N) woken_up (kernel_ok N) N a n"
  "\<lambda>v v'. \<exists>c. lock_act c v = Some v'" lock_start "\<lambda>s v. v = lock_kernel_abs N a s" for N a n
proof
  show "lock_os_inv (sleepers_on N) woken_up (kernel_ok N) N a n s" if "lock_kernel_start N a n s" for s
    using kernel_service.lock_start_os_inv [OF that] by blast
  show "\<exists>v. lock_start v \<and> v = lock_kernel_abs N a s" if "lock_kernel_start N a n s" for s
    using kernel_service.lock_start_os_inv [OF that] by blast
next
  fix s c s' v
  assume step: "lock_os_inv (sleepers_on N) woken_up (kernel_ok N) N a n s" "lock_kernel_act N a n c s = Some s'"
  note sim = kernel_service.lock_os_simulated [OF step]
  from sim show "lock_os_inv (sleepers_on N) woken_up (kernel_ok N) N a n s'" by blast
  assume "v = lock_kernel_abs N a s"
  with sim show "\<exists>v'. v' = lock_kernel_abs N a s' \<and> (\<lambda>v v'. \<exists>c. lock_act c v = Some v')\<^sup>=\<^sup>= v v'" by auto
qed

section \<open>Properties\<close>

text \<open>C35: the lock on top of the kernel. Whatever the threads of the lock do, and whoever else sleeps in
  the kernel on other words of the same bucket, the lock with \<^verbatim>\<open>futex_syscall\<close>, \<^verbatim>\<open>kernel_futex_wait\<close>
  and \<^verbatim>\<open>kernel_futex_wake\<close> behind it reaches only states that the lock with an abstract list of
  sleepers reaches. So it excludes, the word is free exactly when nobody has the lock, and a thread
  that is blocked in it is in the kernel's queue of this word or has been woken and will run.\<close>

theorem lock_over_kernel_refines_lock:
  assumes "reachable (lock_kernel_act N a n) (lock_kernel_start N a n) s"
  shows "reachable lock_act lock_start (lock_kernel_abs N a s) \<and>
    (\<forall>t u. lk_pcs s t = Holding \<and> lk_pcs s u = Holding \<longrightarrow> t = u) \<and>
    (State (user_mem (lk_os s) a) = three_states_unlocked \<longleftrightarrow> (\<forall>t. lk_pcs s t \<noteq> Holding)) \<and>
    (\<forall>t. lk_pcs s t = L_blocked \<longrightarrow> t \<in> set (sleepers_on N (lk_os s) a) \<or> woken_up (lk_os s) t)"
proof -
  let ?v = "lock_kernel_abs N a s"
  from lock_kernel.reachable_rel [OF assms] have v: "reachable lock_act lock_start ?v"
    by (auto intro: rtranclp_reachable [OF _ reachable_init])
  then have inv: "lock_inv ?v" by (rule tri.reachable_inv)
  have hold: "lock_pcs ?v t = Holding \<longleftrightarrow> lk_pcs s t = Holding" for t by auto
  have "lock_os_inv (sleepers_on N) woken_up (kernel_ok N) N a n s"
    by (rule lock_kernel.reachable_inv [OF assms])
  then have "t \<in> set (sleepers_on N (lk_os s) a) \<or> woken_up (lk_os s) t" if "lk_pcs s t = L_blocked" for t
    using that unfolding lock_os_inv_def by (metis lock_pc.distinct(9))
  with v inv hold show ?thesis by (auto simp: lock_inv_def kernel_os_def)
qed

definition lock_kernel_zero :: "kernel lock_os_sys" where
  "lock_kernel_zero = \<lparr>lk_os = kernel_zero, lk_pcs = (\<lambda>_. Outside)\<rparr>"

lemma lock_kernel_zero_start: "n \<le> N \<Longrightarrow> N < 2 ^ 31 \<Longrightarrow> lock_kernel_start N a n lock_kernel_zero"
  by (simp add: lock_os_start_def lock_kernel_zero_def kernel_zero_ok)
     (simp add: kernel_os_def kernel_zero_def State_def three_states_defs)

text \<open>Thread 1 sleeps in the kernel while thread 0 has the lock.\<close>

definition handover :: "lock_os_action list" where
  "handover = [Os_call 0, Os_step 0 False, Os_step 0 False, Os_call 1, Os_step 1 False, Os_step 1 False,
     Os_step 1 False]"

lemma handover_run:
  "map_option (\<lambda>s. (lk_pcs s 0, lk_pcs s 1, sleepers_on 2 (lk_os s) 4))
     (run_sched (lock_kernel_act 2 4 2) handover lock_kernel_zero) = Some (Holding, L_blocked, [1])"
  by code_simp


theorem lock_over_kernel_refines_lock_witness:
  "\<exists>s. run_sched (lock_kernel_act 2 4 2) handover lock_kernel_zero = Some s \<and>
     lk_pcs s 0 = Holding \<and> lk_pcs s 1 = L_blocked \<and>
     reachable lock_act lock_start (lock_kernel_abs 2 4 s) \<and> (\<forall>u. lk_pcs s u = Holding \<longrightarrow> u = 0)"
proof -
  from handover_run obtain s where run: "run_sched (lock_kernel_act 2 4 2) handover lock_kernel_zero = Some s"
    and pcs: "lk_pcs s 0 = Holding" "lk_pcs s 1 = L_blocked" by auto
  have "lock_kernel_start 2 4 2 lock_kernel_zero" by (rule lock_kernel_zero_start) simp_all
  from run_sched_from_init [of "lock_kernel_start 2 4 2", OF this run]
  have "reachable (lock_kernel_act 2 4 2) (lock_kernel_start 2 4 2) s" .
  from lock_over_kernel_refines_lock [OF this] run pcs show ?thesis by blast
qed

end
