(* ===== verification/Cond_Var.thy ===== *)
theory Cond_Var
  imports Pthread_Mutex Syscall
begin

text \<open>
  \<^verbatim>\<open>nptl/pthread_cond.h\<close>, the data of a condition variable and its operations as one thread
  executes them with nobody in between. Waiters are numbered by \<^verbatim>\<open>wseq\<close> and split in two
  groups: G1, whose waiters may be signalled, and G2, which collects the new ones.
\<close>

section \<open>Data\<close>

record pthread_cond_t =
  wseq :: u64
  g1_start :: u64
  g_refs :: "u32 \<Rightarrow> u32"
  g_size :: "u32 \<Rightarrow> u32"
  g1_orig_size :: u32
  wrefs :: u32
  g_signals :: "u32 \<Rightarrow> u32"

definition GroupBit :: "'a::len word" where "GroupBit = 1"
definition SeqStep :: u64 where "SeqStep = 2"
definition GAnother :: "u32 \<Rightarrow> u32" where "GAnother g = g XOR GroupBit"
definition G2 :: "u64 \<Rightarrow> u32" where "G2 w = ucast (w AND GroupBit)"
definition Seq :: "u64 \<Rightarrow> u64" where "Seq w = drop_bit 1 w"
definition ClosedBit :: u32 where "ClosedBit = 1"
definition SignalsStep :: u32 where "SignalsStep = 2"
definition GRefsStep :: u32 where "GRefsStep = 2"
definition GRefsWake :: u32 where "GRefsWake = 1"
definition DestroyingBit :: u32 where "DestroyingBit = 4"
definition WaitersRefStep :: u32 where "WaitersRefStep = 8"
definition WaitersRef :: "u32 \<Rightarrow> u32" where "WaitersRef w = drop_bit 3 w"
definition OrigSizeStep :: nat where "OrigSizeStep = 2"

lemmas cond_consts = GroupBit_def SeqStep_def ClosedBit_def SignalsStep_def GRefsStep_def
  GRefsWake_def DestroyingBit_def WaitersRefStep_def OrigSizeStep_def

definition pthread_cond_init :: "pthread_cond_t \<Rightarrow> pthread_cond_t" where
  "pthread_cond_init c =
     c\<lparr>wseq := 0, g1_start := 0, g_refs := (g_refs c)(0 := 0, 1 := 0),
       g_size := (g_size c)(0 := 0, 1 := 0), g1_orig_size := 0, wrefs := 0,
       g_signals := (g_signals c)(0 := 0, 1 := 0)\<rparr>"

section \<open>The steps of a signaler\<close>

text \<open>The number of waiters of G2, as \<^verbatim>\<open>quiesce_and_switch_g1\<close> computes it at its start.\<close>

definition old_orig_size :: "pthread_cond_t \<Rightarrow> u32" where
  "old_orig_size c = drop_bit OrigSizeStep (atomic_load (g1_orig_size c))"

definition old_g1_start :: "pthread_cond_t \<Rightarrow> u64" where
  "old_g1_start c = Seq (atomic_load (g1_start c))"

definition g2_pending :: "pthread_cond_t \<Rightarrow> u64 \<Rightarrow> u32 \<Rightarrow> u32" where
  "g2_pending c seq g =
     ucast (seq - old_g1_start c - ucast (old_orig_size c)) + g_size c (GAnother g)"

definition close_group :: "u32 \<Rightarrow> pthread_cond_t \<Rightarrow> pthread_cond_t" where
  "close_group g c = c\<lparr>g_signals := (g_signals c)(g := snd (atomic_fetch_or (g_signals c g) ClosedBit))\<rparr>"

definition advance_g1_start :: "u32 \<Rightarrow> u32 \<Rightarrow> pthread_cond_t \<Rightarrow> pthread_cond_t" where
  "advance_g1_start g orig c =
     c\<lparr>g1_start := snd (atomic_fetch_add (g1_start c)
         (ucast (push_bit 1 orig + (if g = 1 then 1 else - 1))))\<rparr>"

definition reopen_group :: "u32 \<Rightarrow> pthread_cond_t \<Rightarrow> pthread_cond_t" where
  "reopen_group g c = c\<lparr>g_signals := (g_signals c)(g := atomic_store (g_signals c g) 0)\<rparr>"

definition flip_groups :: "pthread_cond_t \<Rightarrow> u64 \<times> pthread_cond_t" where
  "flip_groups c =
     (case atomic_fetch_xor (wseq c) GroupBit of (old, new) \<Rightarrow> (Seq old, c\<lparr>wseq := new\<rparr>))"

definition grow_group :: "u32 \<Rightarrow> u32 \<Rightarrow> pthread_cond_t \<Rightarrow> pthread_cond_t" where
  "grow_group g n c = c\<lparr>g_size := (g_size c)(g := g_size c g + n)\<rparr>"

definition orig_size_word :: "u32 \<Rightarrow> u32 \<Rightarrow> u32" where
  "orig_size_word n old = push_bit OrigSizeStep n OR (old AND three_states_mask)"

definition store_orig_size :: "u32 \<Rightarrow> pthread_cond_t \<Rightarrow> pthread_cond_t" where
  "store_orig_size n c = c\<lparr>g1_orig_size := orig_size_word n (g1_orig_size c)\<rparr>"

definition post_signal :: "u32 \<Rightarrow> pthread_cond_t \<Rightarrow> pthread_cond_t" where
  "post_signal g c =
     c\<lparr>g_signals := (g_signals c)(g := snd (atomic_fetch_add (g_signals c g) SignalsStep)),
       g_size := (g_size c)(g := g_size c g - 1)\<rparr>"

definition post_all :: "u32 \<Rightarrow> pthread_cond_t \<Rightarrow> pthread_cond_t" where
  "post_all g c =
     c\<lparr>g_signals := (g_signals c)(g := snd (atomic_fetch_add (g_signals c g) (push_bit 1 (g_size c g)))),
       g_size := (g_size c)(g := 0)\<rparr>"

lemmas signaler_steps = close_group_def advance_g1_start_def reopen_group_def flip_groups_def
  grow_group_def store_orig_size_def post_signal_def post_all_def

text \<open>
  The inner lock lives in the low bits of \<^verbatim>\<open>g1_orig_size\<close>. Taken when it is free and nobody
  else runs, it goes to the state without waiters; None says that it is held.
\<close>

definition inner_lock :: "pthread_cond_t \<Rightarrow> pthread_cond_t option" where
  "inner_lock c =
     (if State (g1_orig_size c) = three_states_unlocked
      then Some (c\<lparr>g1_orig_size := g1_orig_size c OR three_states_locked_no_waiter\<rparr>) else None)"

definition inner_unlock :: "pthread_cond_t \<Rightarrow> pthread_cond_t" where
  "inner_unlock c = c\<lparr>g1_orig_size := snd (atomic_fetch_and (g1_orig_size c) (NOT three_states_mask))\<rparr>"

section \<open>Operations\<close>

text \<open>
  A result of None says that the caller has to sleep: the group it must close, or the condition
  variable it destroys, is still in use.
\<close>

definition quiesce_and_switch_g1 ::
  "pthread_cond_t \<Rightarrow> u64 \<Rightarrow> u32 \<Rightarrow> (bool \<times> u32 \<times> pthread_cond_t) option" where
  "quiesce_and_switch_g1 c seq g =
     (let orig = old_orig_size c; start = old_g1_start c in
      if g2_pending c seq g = 0 then Some (False, g, c)
      else let c = close_group g c in
        if drop_bit 1 (fst (atomic_fetch_or (g_refs c g) 0)) \<noteq> 0 then None
        else
          let c = advance_g1_start g orig c;
              c = reopen_group g c;
              (seq, c) = flip_groups c;
              g = GAnother g;
              n = ucast (seq - start - ucast orig);
              c = grow_group g n c;
              c = store_orig_size n c
          in Some (g_size c g \<noteq> 0, g, c))"

text \<open>
  Signal and broadcast, with the futexes they wake: the group whose sleepers are woken, and
  whether one of them or all.
\<close>

datatype wake = Wake_one u32 | Wake_all u32

text \<open>The critical sections: the new state, the group to wake, if any, and the index of G1.\<close>

definition signal_locked :: "pthread_cond_t \<Rightarrow> (wake list \<times> pthread_cond_t) option" where
  "signal_locked c =
     (let w = atomic_load (wseq c); g1 = GAnother (G2 w); seq = Seq w in
      if g_size c g1 \<noteq> 0 then Some ([Wake_one g1], post_signal g1 c)
      else case quiesce_and_switch_g1 c seq g1 of
             None \<Rightarrow> None
           | Some (has_waiters, g1, c) \<Rightarrow>
               if has_waiters then Some ([Wake_one g1], post_signal g1 c) else Some ([], c))"

definition broadcast_locked :: "pthread_cond_t \<Rightarrow> (wake list \<times> pthread_cond_t) option" where
  "broadcast_locked c =
     (let w = atomic_load (wseq c); g1 = GAnother (G2 w); seq = Seq w;
          (ws, c) = (if g_size c g1 \<noteq> 0 then ([Wake_all g1], post_all g1 c) else ([], c))
      in case quiesce_and_switch_g1 c seq g1 of
           None \<Rightarrow> None
         | Some (has_waiters, g1, c) \<Rightarrow>
             if has_waiters then Some (ws @ [Wake_all g1], post_all g1 c) else Some (ws, c))"

definition with_inner_lock ::
  "(pthread_cond_t \<Rightarrow> (wake list \<times> pthread_cond_t) option) \<Rightarrow> pthread_cond_t \<Rightarrow>
   (wake list \<times> pthread_cond_t) option" where
  "with_inner_lock body c =
     (if WaitersRef (atomic_load (wrefs c)) = 0 then Some ([], c)
      else case inner_lock c of
             None \<Rightarrow> None
           | Some c \<Rightarrow> (case body c of None \<Rightarrow> None | Some (ws, c) \<Rightarrow> Some (ws, inner_unlock c)))"

definition pthread_cond_signal :: "pthread_cond_t \<Rightarrow> (wake list \<times> pthread_cond_t) option" where
  "pthread_cond_signal = with_inner_lock signal_locked"

definition pthread_cond_broadcast :: "pthread_cond_t \<Rightarrow> (wake list \<times> pthread_cond_t) option" where
  "pthread_cond_broadcast = with_inner_lock broadcast_locked"

definition pthread_cond_destroy :: "pthread_cond_t \<Rightarrow> (int \<times> pthread_cond_t) option" where
  "pthread_cond_destroy c =
     (let (old, new) = atomic_fetch_or (wrefs c) DestroyingBit;
          c = c\<lparr>wrefs := new\<rparr>
      in if WaitersRef (old OR DestroyingBit) \<noteq> 0 then None else Some (0, c))"

text \<open>The stages 1 and 2 of a wait, and its last stage.\<close>

definition wait_enter :: "pthread_cond_t \<Rightarrow> u64 \<times> u32 \<times> pthread_cond_t" where
  "wait_enter c =
     (case atomic_fetch_add (wseq c) SeqStep of (old, new) \<Rightarrow>
        (Seq old, G2 old,
         c\<lparr>wseq := new, wrefs := snd (atomic_fetch_add (wrefs c) WaitersRefStep)\<rparr>))"

definition wait_leave :: "pthread_cond_t \<Rightarrow> bool \<times> pthread_cond_t" where
  "wait_leave c =
     (case atomic_fetch_sub (wrefs c) WaitersRefStep of (old, new) \<Rightarrow>
        (old - WaitersRefStep AND DestroyingBit \<noteq> 0 \<and> WaitersRef (old - WaitersRefStep) = 0,
         c\<lparr>wrefs := new\<rparr>))"

section \<open>Arithmetic of the sequence words\<close>

text \<open>A sequence word is twice its position plus the group index.\<close>

lemma unat_Seq: "unat (Seq w) = unat w div 2"
  unfolding Seq_def unat_drop_bit_eq by (simp add: drop_bit_Suc)

lemma unat_G2: "unat (G2 w) = unat w mod 2"
  by (simp add: G2_def GroupBit_def unsigned_ucast_eq and_one_eq unat_mod take_bit_eq_mod)

lemma seq_word_split: "unat w = 2 * unat (Seq w) + unat (G2 w)"
  by (simp add: unat_Seq unat_G2)

lemma G2_cases: "G2 w = 0 \<or> G2 w = 1"
proof -
  have "unat (G2 w) = 0 \<or> unat (G2 w) = 1" unfolding unat_G2 by linarith
  then show ?thesis by (metis unat_0 unat_1 word_unat_eq_iff)
qed

lemma seq_word_eqI: "Seq v = Seq w \<Longrightarrow> G2 v = G2 w \<Longrightarrow> v = w"
  by (metis seq_word_split word_unat_eq_iff)

lemma GAnother_simps [simp]:
  "GAnother 0 = 1" "GAnother 1 = 0" "GAnother (GAnother g) = g" "GAnother g \<noteq> g" "g \<noteq> GAnother g"
proof -
  show "GAnother g \<noteq> g" "g \<noteq> GAnother g"
    by (auto simp: GAnother_def GroupBit_def dest: arg_cong [where f = "\<lambda>w. bit w 0"] simp: bit_simps)
qed (simp_all add: GAnother_def GroupBit_def xor.assoc)

lemma Seq_flip [simp]: "Seq (w XOR GroupBit) = Seq w"
  by (rule bit_word_eqI) (auto simp: Seq_def GroupBit_def bit_simps)

lemma G2_flip [simp]: "G2 (w XOR GroupBit) = GAnother (G2 w)"
  by (rule bit_word_eqI) (auto simp: G2_def GAnother_def GroupBit_def bit_simps)

lemma seq_step:
  assumes "unat w + 2 < 2 ^ 64"
  shows "unat (Seq (w + SeqStep)) = unat (Seq w) + 1" and "G2 (w + SeqStep) = G2 w"
proof -
  have w: "unat (w + SeqStep) = unat w + 2"
    using assms by (simp add: SeqStep_def unat_word_ariths)
  then show "unat (Seq (w + SeqStep)) = unat (Seq w) + 1" by (simp add: unat_Seq)
  have "unat (G2 (w + SeqStep)) = unat (G2 w)" using w by (simp add: unat_G2)
  then show "G2 (w + SeqStep) = G2 w" by (simp add: word_unat_eq_iff)
qed

lemma unat_ucast_u64: "unat (ucast (n :: u32) :: u64) = unat n"
proof -
  have "unat n < 2 ^ 64" using unsigned_less [of n, where 'a = nat] by simp
  then show ?thesis by (simp add: unsigned_ucast_eq take_bit_nat_eq_self)
qed

text \<open>
  The addend of \<^verbatim>\<open>g1_start\<close> is computed in 32 bits. It moves the position by the size of the
  old G1 and flips the group index, provided the size is not 0 when the index goes down.
\<close>

lemma advance_g1_start_unat:
  assumes "G2 w = GAnother g" and "g = 0 \<Longrightarrow> n \<noteq> 0"
    and "unat (Seq w) + unat n < 2 ^ 30"
  defines "w' \<equiv> w + ucast (push_bit 1 n + (if g = 1 then 1 else - 1) :: u32)"
  shows "unat (Seq w') = unat (Seq w) + unat n" and "G2 w' = g"
proof -
  have g: "g = 0 \<or> g = 1" using assms(1) G2_cases [of w] by (metis GAnother_simps(1-3))
  have push: "push_bit 1 n = 2 * n" by (simp add: push_bit_eq_mult)
  have two: "unat (2 * n) = 2 * unat n" using assms(3) by (simp add: unat_word_ariths)
  have "unat w' = 2 * (unat (Seq w) + unat n) + unat g"
  proof (cases "g = 1")
    case True
    have "unat (2 * n + 1 :: u32) = 2 * unat n + 1"
      using two assms(3) by (simp add: unat_word_ariths)
    moreover have "unat w = 2 * unat (Seq w)"
      using seq_word_split [of w] assms(1) True by simp
    ultimately show ?thesis
      using True assms(3) unfolding w'_def push
      by (simp add: unat_word_ariths unat_ucast_u64)
  next
    case False
    with g have [simp]: "g = 0" by simp
    from assms(2) have n: "0 < unat n" by (simp add: unat_gt_0)
    have "unat (2 * n - 1 :: u32) = 2 * unat n - 1"
      using two n by (subst unat_sub) (auto simp: word_le_nat_alt)
    moreover have "unat w = 2 * unat (Seq w) + 1"
      using seq_word_split [of w] assms(1) by simp
    ultimately show ?thesis
      using n assms(3) unfolding w'_def push
      by (simp add: unat_word_ariths unat_ucast_u64)
  qed
  moreover have "unat g < 2" using g by auto
  ultimately have "unat w' div 2 = unat (Seq w) + unat n \<and> unat w' mod 2 = unat g" by presburger
  then have "unat (Seq w') = unat (Seq w) + unat n" and "unat (G2 w') = unat g"
    by (simp_all add: unat_Seq unat_G2)
  then show "unat (Seq w') = unat (Seq w) + unat n" and "G2 w' = g"
    by (simp_all add: word_unat_eq_iff)
qed

lemma orig_size_word_simps:
  shows "State (orig_size_word n w) = State w"
    and "unat n < 2 ^ 30 \<Longrightarrow> payload (orig_size_word n w) = n"
proof -
  show "State (orig_size_word n w) = State w"
    by (rule bit_word_eqI) (auto simp: orig_size_word_def OrigSizeStep_def bit_field bit_simps)
  assume n: "unat n < 2 ^ 30"
  have "payload (orig_size_word n w) = drop_bit 2 (push_bit 2 n)"
    by (rule bit_word_eqI) (auto simp: orig_size_word_def OrigSizeStep_def payload_def bit_field bit_simps)
  also have "\<dots> = n"
  proof -
    have "unat (push_bit 2 n) = 4 * unat n"
      using n by (simp add: push_bit_eq_mult unat_word_ariths)
    then have "unat (drop_bit 2 (push_bit 2 n)) = unat n"
      by (simp only: unat_drop_bit_eq) (simp add: drop_bit_eq_div)
    then show ?thesis by (simp only: word_unat_eq_iff)
  qed
  finally show "payload (orig_size_word n w) = n" .
qed

lemma old_orig_size_payload: "old_orig_size c = payload (g1_orig_size c)"
  by (simp add: old_orig_size_def payload_def OrigSizeStep_def atomic_load_def)

text \<open>The difference that counts the waiters of a group, in the widths of the code.\<close>

lemma group_size_unat:
  assumes "unat start + unat (n :: u32) \<le> unat (seq :: u64)" and "unat seq < 2 ^ 30"
  shows "unat (ucast (seq - start - ucast n) :: u32) = unat seq - unat start - unat n"
proof -
  have n: "unat (ucast n :: u64) = unat n" by (simp add: unat_ucast_u64)
  have d: "unat (seq - start) = unat seq - unat start"
    using assms(1) by (subst unat_sub) (auto simp: word_le_nat_alt)
  have e: "unat (seq - start - ucast n) = unat seq - unat start - unat n"
    using assms(1) d n by (subst unat_sub) (auto simp: word_le_nat_alt)
  then show ?thesis
    using assms(2) by (simp add: unsigned_ucast_eq take_bit_nat_eq_self)
qed

section \<open>Well-formed condition variables\<close>

definition g1_index :: "pthread_cond_t \<Rightarrow> u32" where
  "g1_index c = GAnother (G2 (wseq c))"

definition arrived :: "pthread_cond_t \<Rightarrow> nat" where
  "arrived c = unat (Seq (wseq c))"

text \<open>The first position of G2: G1 has the positions below it.\<close>

definition g2_start :: "pthread_cond_t \<Rightarrow> nat" where
  "g2_start c = unat (old_g1_start c) + unat (old_orig_size c)"

text \<open>
  The data the inner lock protects, with fewer than \<open>2 ^ 30\<close> waits so far, which is the width of
  the size field: both sequence words carry the index of G2, the size of G2 is still open (it is
  computed from \<^verbatim>\<open>wseq\<close>), and no more waiters of G1 are unsignalled than it had.
\<close>

definition cond_ok :: "pthread_cond_t \<Rightarrow> bool" where
  "cond_ok c \<longleftrightarrow> G2 (g1_start c) = G2 (wseq c) \<and> g2_start c \<le> arrived c \<and> arrived c < 2 ^ 30 \<and>
     g_size c (G2 (wseq c)) = 0 \<and> unat (g_size c (g1_index c)) \<le> unat (old_orig_size c) \<and>
     (g1_index c = 0 \<longrightarrow> old_orig_size c \<noteq> 0)"

text \<open>The abstraction: how many waiters have not been signalled, those of G1 first.\<close>

definition unsignalled :: "pthread_cond_t \<Rightarrow> nat" where
  "unsignalled c = unat (g_size c (g1_index c)) + (arrived c - g2_start c)"

lemmas cond_views = g1_index_def arrived_def g2_start_def old_g1_start_def old_orig_size_payload
  atomic_load_def

lemma g2_pending_unat:
  assumes "cond_ok c"
  shows "unat (g2_pending c (Seq (wseq c)) (g1_index c)) = arrived c - g2_start c"
proof -
  have "unat (ucast (Seq (wseq c) - old_g1_start c - ucast (old_orig_size c)) :: u32) =
      arrived c - unat (old_g1_start c) - unat (old_orig_size c)"
    using assms unfolding arrived_def
    by (intro group_size_unat) (auto simp: cond_ok_def arrived_def g2_start_def)
  moreover have "g_size c (GAnother (g1_index c)) = 0"
    using assms by (simp add: cond_ok_def g1_index_def)
  ultimately show ?thesis by (simp add: g2_pending_def g2_start_def)
qed

text \<open>The switch: the old G2 becomes G1, with all its waiters unsignalled.\<close>

definition switched :: "pthread_cond_t \<Rightarrow> pthread_cond_t" where
  "switched c =
     (let g = g1_index c; n = ucast (Seq (wseq c) - old_g1_start c - ucast (old_orig_size c)) in
      store_orig_size n (grow_group (GAnother g) n (snd (flip_groups (reopen_group g
        (advance_g1_start g (old_orig_size c) (close_group g c)))))))"

lemma quiesce_switched:
  assumes "cond_ok c" and "g_size c (g1_index c) = 0" and "drop_bit 1 (g_refs c (g1_index c)) = 0"
  shows "quiesce_and_switch_g1 c (Seq (wseq c)) (g1_index c) =
    (if unsignalled c = 0 then Some (False, g1_index c, c)
     else Some (g_size (switched c) (GAnother (g1_index c)) \<noteq> 0, GAnother (g1_index c), switched c))"
proof -
  have zero: "g2_pending c (Seq (wseq c)) (g1_index c) = 0 \<longleftrightarrow> unsignalled c = 0"
    using g2_pending_unat [OF assms(1)] assms(2) by (simp add: unsignalled_def word_unat_eq_iff)
  with assms(3) show ?thesis
    by (simp add: quiesce_and_switch_g1_def switched_def Let_def signaler_steps atomic_defs)
qed

lemma switched_simps [simp]:
  "g_signals (switched c) = (g_signals c)(g1_index c := 0)"
  "g_refs (switched c) = g_refs c" "wrefs (switched c) = wrefs c"
  "wseq (switched c) = wseq c XOR GroupBit" "g1_index (switched c) = GAnother (g1_index c)"
  "State (g1_orig_size (switched c)) = State (g1_orig_size c)"
  by (simp_all add: switched_def Let_def signaler_steps atomic_defs g1_index_def orig_size_word_simps)

lemma switched_ok:
  assumes ok: "cond_ok c" and size: "g_size c (g1_index c) = 0" and pending: "unsignalled c \<noteq> 0"
  shows "cond_ok (switched c)" and "unsignalled (switched c) = unsignalled c"
    and "unat (g_size (switched c) (GAnother (g1_index c))) = unsignalled c"
    and "unat (old_g1_start (switched c)) = g2_start c"
proof -
  define n :: u32 where "n = ucast (Seq (wseq c) - old_g1_start c - ucast (old_orig_size c))"
  have size2: "g_size c (GAnother (g1_index c)) = 0" using ok by (simp add: cond_ok_def g1_index_def)
  have bound: "arrived c < 2 ^ 30" "g2_start c \<le> arrived c" using ok by (auto simp: cond_ok_def)
  have n: "unat n = arrived c - g2_start c" "unat n = unsignalled c"
    using g2_pending_unat [OF ok] size size2 by (simp_all add: g2_pending_def n_def unsignalled_def)
  have n_small: "unat n < 2 ^ 30" using n bound by simp
  let ?w = "g1_start c + ucast (push_bit 1 (old_orig_size c) + (if g1_index c = 1 then 1 else - 1))"
  have start: "unat (Seq ?w) = g2_start c" "G2 ?w = g1_index c"
    using advance_g1_start_unat [of "g1_start c" "g1_index c" "old_orig_size c"] ok bound
    by (auto simp: cond_ok_def g1_index_def g2_start_def old_g1_start_def atomic_load_def)
  have fields: "g1_start (switched c) = ?w" "g_size (switched c) = (g_size c)(GAnother (g1_index c) := n)"
    "old_orig_size (switched c) = n"
    using size2 orig_size_word_simps(2) [OF n_small]
    by (simp_all add: switched_def Let_def signaler_steps atomic_defs n_def old_orig_size_payload)
  show sz: "unat (g_size (switched c) (GAnother (g1_index c))) = unsignalled c"
    using fields n by simp
  show st: "unat (old_g1_start (switched c)) = g2_start c"
    using fields start by (simp add: old_g1_start_def atomic_load_def)
  have views: "arrived (switched c) = arrived c" "g2_start (switched c) = arrived c"
    using st fields(3) n bound by (simp_all add: arrived_def g2_start_def)
  have "n \<noteq> 0" using n(2) pending by auto
  with views fields start bound size show "cond_ok (switched c)"
    by (simp add: cond_ok_def) (simp add: g1_index_def)
  show "unsignalled (switched c) = unsignalled c"
    unfolding unsignalled_def [of "switched c"] using sz views by simp
qed

section \<open>Signal and broadcast on a well-formed condition variable\<close>

text \<open>The state of the inner lock is part of no view.\<close>

lemma cond_views_lock:
  assumes "payload w = payload (g1_orig_size c)"
  shows "cond_ok (c\<lparr>g1_orig_size := w\<rparr>) = cond_ok c"
    and "unsignalled (c\<lparr>g1_orig_size := w\<rparr>) = unsignalled c"
    and "g1_index (c\<lparr>g1_orig_size := w\<rparr>) = g1_index c"
    and "arrived (c\<lparr>g1_orig_size := w\<rparr>) = arrived c"
    and "g2_start (c\<lparr>g1_orig_size := w\<rparr>) = g2_start c"
  using assms by (simp_all add: cond_ok_def unsignalled_def cond_views)

lemma payload_unlock [simp]: "payload (w AND NOT three_states_mask) = payload w"
  using payload_ClearState by (simp add: ClearState_def)

text \<open>Posting one signal, or all, to G1.\<close>

lemma post_signal_ok:
  assumes "cond_ok c" and "g_size c (g1_index c) \<noteq> 0"
  shows "cond_ok (post_signal (g1_index c) c)"
    and "unsignalled (post_signal (g1_index c) c) = unsignalled c - 1"
    and "unsignalled c > 0"
proof -
  have "0 < unat (g_size c (g1_index c))" using assms(2) by (simp add: unat_gt_0)
  moreover from this have "unat (g_size c (g1_index c) - 1) = unat (g_size c (g1_index c)) - 1"
    by (subst unat_sub) (auto simp: word_le_nat_alt)
  ultimately show "cond_ok (post_signal (g1_index c) c)"
    and "unsignalled (post_signal (g1_index c) c) = unsignalled c - 1" and "unsignalled c > 0"
    using assms(1) by (auto simp: cond_ok_def unsignalled_def post_signal_def cond_views)
qed

lemma post_all_ok:
  assumes "cond_ok c"
  shows "cond_ok (post_all (g1_index c) c)"
    and "unsignalled (post_all (g1_index c) c) = arrived c - g2_start c"
  using assms by (auto simp: cond_ok_def unsignalled_def post_all_def cond_views)

lemma post_simps [simp]:
  "g_refs (post_signal g c) = g_refs c" "g_refs (post_all g c) = g_refs c"
  "wrefs (post_signal g c) = wrefs c" "wrefs (post_all g c) = wrefs c"
  "g1_index (post_signal g c) = g1_index c" "g1_index (post_all g c) = g1_index c"
  "arrived (post_signal g c) = arrived c" "arrived (post_all g c) = arrived c"
  "g2_start (post_signal g c) = g2_start c" "g2_start (post_all g c) = g2_start c"
  "wseq (post_signal g c) = wseq c" "wseq (post_all g c) = wseq c"
  "g1_start (post_signal g c) = g1_start c" "g1_start (post_all g c) = g1_start c"
  "g1_orig_size (post_signal g c) = g1_orig_size c" "g1_orig_size (post_all g c) = g1_orig_size c"
  "g_size (post_signal g c) = (g_size c)(g := g_size c g - 1)"
  "g_size (post_all g c) = (g_size c)(g := 0)"
  "g_signals (post_signal g c) = (g_signals c)(g := g_signals c g + SignalsStep)"
  "g_signals (post_all g c) = (g_signals c)(g := g_signals c g + push_bit 1 (g_size c g))"
  by (simp_all add: post_signal_def post_all_def cond_views atomic_defs)

lemma arrived_switched [simp]: "arrived (switched c) = arrived c"
  by (simp add: arrived_def)

text \<open>
  What a signal does: nothing when every waiter has been signalled, otherwise it posts one signal
  to the group that is G1 afterwards. That is G1 as it was while it has unsignalled waiters, so
  the older waiters come first.
\<close>

definition signal_post :: "pthread_cond_t \<Rightarrow> wake list \<Rightarrow> pthread_cond_t \<Rightarrow> bool" where
  "signal_post c ws c' \<longleftrightarrow>
     cond_ok c' \<and> unsignalled c' = unsignalled c - 1 \<and> arrived c' = arrived c \<and>
     wrefs c' = wrefs c \<and> g_refs c' = g_refs c \<and>
     (if unsignalled c = 0 then ws = [] \<and> g_signals c' = g_signals c
      else ws = [Wake_one (g1_index c')] \<and>
           (if g_size c (g1_index c) \<noteq> 0
            then g1_index c' = g1_index c \<and>
              g_signals c' = (g_signals c)(g1_index c := g_signals c (g1_index c) + SignalsStep)
            else g1_index c' = GAnother (g1_index c) \<and>
              g_signals c' = (g_signals c)(g1_index c := 0,
                GAnother (g1_index c) := g_signals c (GAnother (g1_index c)) + SignalsStep)))"

lemma signal_locked_correct:
  assumes ok: "cond_ok c"
    and idle: "g_size c (g1_index c) = 0 \<Longrightarrow> unsignalled c \<noteq> 0 \<Longrightarrow>
      drop_bit 1 (g_refs c (g1_index c)) = 0"
  shows "\<exists>ws c'. signal_locked c = Some (ws, c') \<and> signal_post c ws c' \<and>
    State (g1_orig_size c') = State (g1_orig_size c)"
proof -
  let ?g = "g1_index c"
  have unfold: "signal_locked c =
      (if g_size c ?g \<noteq> 0 then Some ([Wake_one ?g], post_signal ?g c)
       else case quiesce_and_switch_g1 c (Seq (wseq c)) ?g of
              None \<Rightarrow> None
            | Some (has_waiters, g1, c) \<Rightarrow>
                if has_waiters then Some ([Wake_one g1], post_signal g1 c) else Some ([], c))"
    by (simp add: signal_locked_def g1_index_def atomic_load_def Let_def)
  show ?thesis
  proof (cases "g_size c ?g = 0")
    case False
    with post_signal_ok [OF ok] show ?thesis by (simp add: unfold signal_post_def)
  next
    case zero: True
    show ?thesis
    proof (cases "unsignalled c = 0")
      case True
      then have "g2_pending c (Seq (wseq c)) ?g = 0"
        using g2_pending_unat [OF ok] by (simp add: unsignalled_def word_unat_eq_iff)
      then show ?thesis using zero ok True by (simp add: unfold quiesce_and_switch_g1_def signal_post_def)
    next
      case False
      note q = quiesce_switched [OF ok zero idle [OF zero False]]
      note sw = switched_ok [OF ok zero False]
      have ne: "g_size (switched c) (g1_index (switched c)) \<noteq> 0"
        using sw(3) False by auto
      from post_signal_ok [OF sw(1) ne] sw(2) False ne show ?thesis
        by (simp add: unfold q zero signal_post_def)
    qed
  qed
qed

lemma quiesce_sleeps:
  assumes "cond_ok c" "g2_start c < arrived c" "drop_bit 1 (g_refs c (g1_index c)) \<noteq> 0"
  shows "quiesce_and_switch_g1 c (Seq (wseq c)) (g1_index c) = None"
proof -
  have "unat (g2_pending c (Seq (wseq c)) (g1_index c)) \<noteq> 0"
    using g2_pending_unat [OF assms(1)] assms(2) by simp
  then have "g2_pending c (Seq (wseq c)) (g1_index c) \<noteq> 0" by auto
  with assms(3) show ?thesis by (simp add: quiesce_and_switch_g1_def Let_def close_group_def atomic_defs)
qed

lemma signal_locked_sleeps:
  assumes ok: "cond_ok c" and zero: "g_size c (g1_index c) = 0" and pending: "unsignalled c \<noteq> 0"
    and refs: "drop_bit 1 (g_refs c (g1_index c)) \<noteq> 0"
  shows "signal_locked c = None"
proof -
  have "g2_start c < arrived c" using zero pending by (simp add: unsignalled_def)
  from quiesce_sleeps [OF ok this refs] zero show ?thesis
    by (simp add: signal_locked_def atomic_load_def Let_def g1_index_def)
qed

lemma signal_post_lock:
  assumes "payload w = payload (g1_orig_size c)"
  shows "signal_post (c\<lparr>g1_orig_size := w\<rparr>) ws c' = signal_post c ws c'"
  using assms by (simp add: signal_post_def cond_views_lock)

lemma signal_post_unlock: "signal_post c ws (inner_unlock c') = signal_post c ws c'"
  by (simp add: signal_post_def inner_unlock_def atomic_defs cond_views_lock)

text \<open>
  What a broadcast does: afterwards every waiter so far has been signalled. If G2 had waiters, the
  old G1 is closed and \<^verbatim>\<open>g1_start\<close> is past all of its positions, its slot is open for new waiters
  without signals, and as many signals have been posted to the old G2 as it has waiters; otherwise as many
  are posted to G1 as it had unsignalled waiters.
\<close>

definition broadcast_post :: "pthread_cond_t \<Rightarrow> wake list \<Rightarrow> pthread_cond_t \<Rightarrow> bool" where
  "broadcast_post c ws c' \<longleftrightarrow>
     cond_ok c' \<and> unsignalled c' = 0 \<and> arrived c' = arrived c \<and> g2_start c' = arrived c \<and>
     wrefs c' = wrefs c \<and> g_refs c' = g_refs c \<and>
     (let g = g1_index c in
      if g2_start c < arrived c
      then g1_index c' = GAnother g \<and> unat (old_g1_start c') = g2_start c \<and>
        g_signals c' = (g_signals c)(g := 0,
          GAnother g := g_signals c (GAnother g) + of_nat (2 * (arrived c - g2_start c)))
      else g1_index c' = g \<and> old_g1_start c' = old_g1_start c \<and>
        g_signals c' = (g_signals c)(g := g_signals c g + of_nat (2 * unat (g_size c g)))) \<and>
     (\<forall>g. Wake_all g \<in> set ws \<longleftrightarrow>
        g = g1_index c \<and> g_size c g \<noteq> 0 \<or> g = GAnother (g1_index c) \<and> g2_start c < arrived c)"

lemma post_all_signals: "push_bit 1 (n :: u32) = of_nat (2 * unat n)"
  by (simp add: push_bit_eq_mult)

lemma old_g1_start_post [simp]:
  "old_g1_start (post_all g c) = old_g1_start c" "old_g1_start (post_signal g c) = old_g1_start c"
  by (simp_all add: old_g1_start_def)

lemma broadcast_post_lock:
  assumes "payload w = payload (g1_orig_size c)"
  shows "broadcast_post (c\<lparr>g1_orig_size := w\<rparr>) ws c' = broadcast_post c ws c'"
proof -
  have "old_g1_start (c\<lparr>g1_orig_size := w\<rparr>) = old_g1_start c" by (simp add: old_g1_start_def)
  with assms show ?thesis by (simp add: broadcast_post_def cond_views_lock)
qed

lemma broadcast_post_unlock: "broadcast_post c ws (inner_unlock c') = broadcast_post c ws c'"
proof -
  have "old_g1_start (inner_unlock c') = old_g1_start c'" by (simp add: old_g1_start_def inner_unlock_def)
  then show ?thesis by (simp add: broadcast_post_def inner_unlock_def atomic_defs cond_views_lock)
qed

lemma broadcast_locked_correct:
  assumes ok: "cond_ok c" and idle: "g2_start c < arrived c \<Longrightarrow> drop_bit 1 (g_refs c (g1_index c)) = 0"
  shows "\<exists>ws c'. broadcast_locked c = Some (ws, c') \<and> broadcast_post c ws c' \<and>
    State (g1_orig_size c') = State (g1_orig_size c)"
proof -
  let ?g = "g1_index c"
  define d where "d = (if g_size c ?g \<noteq> 0 then post_all ?g c else c)"
  define ws where "ws = (if g_size c ?g \<noteq> 0 then [Wake_all ?g] else [])"
  have d: "cond_ok d" "unsignalled d = arrived c - g2_start c" "g_size d (g1_index d) = 0"
    "g1_index d = ?g" "wseq d = wseq c" "g_refs d = g_refs c" "arrived d = arrived c"
    "g2_start d = g2_start c" "wrefs d = wrefs c" "g1_orig_size d = g1_orig_size c"
    "old_g1_start d = old_g1_start c"
    "g_signals d = (g_signals c)(?g := g_signals c ?g + of_nat (2 * unat (g_size c ?g)))"
    using post_all_ok [OF ok] ok by (auto simp: d_def unsignalled_def post_all_signals)
  have unfold: "broadcast_locked c =
      (case quiesce_and_switch_g1 d (Seq (wseq d)) (g1_index d) of
         None \<Rightarrow> None
       | Some (has_waiters, g1, c) \<Rightarrow>
           if has_waiters then Some (ws @ [Wake_all g1], post_all g1 c) else Some (ws, c))"
    unfolding d_def ws_def g1_index_def
    by (simp add: broadcast_locked_def atomic_load_def Let_def)
  show ?thesis
  proof (cases "unsignalled d = 0")
    case True
    then have "g2_pending d (Seq (wseq d)) (g1_index d) = 0"
      using g2_pending_unat [OF d(1)] d(3) by (simp add: unsignalled_def word_unat_eq_iff)
    then have "broadcast_locked c = Some (ws, d)"
      unfolding unfold by (simp add: quiesce_and_switch_g1_def)
    moreover have "g2_start c \<le> arrived c" using ok by (simp add: cond_ok_def)
    ultimately show ?thesis using d True by (auto simp: broadcast_post_def ws_def Let_def)
  next
    case False
    with d idle have "drop_bit 1 (g_refs d (g1_index d)) = 0" by simp
    note q = quiesce_switched [OF d(1,3) this]
    let ?d = "switched d"
    note sw = switched_ok [OF d(1,3) False]
    have "g_size ?d (GAnother (g1_index d)) \<noteq> 0" using sw(3) False by auto
    with False have run: "broadcast_locked c =
        Some (ws @ [Wake_all (g1_index ?d)], post_all (g1_index ?d) ?d)"
      unfolding unfold q by simp
    have "g2_start ?d = arrived d"
      using sw cond_ok_def [of ?d] by (auto simp: unsignalled_def)
    moreover have "push_bit 1 (g_size ?d (GAnother ?g)) = of_nat (2 * (arrived c - g2_start c))"
      unfolding post_all_signals using sw(3) d(2,4) by metis
    then have "g_signals (post_all (g1_index ?d) ?d) = (g_signals c)(?g := 0,
        GAnother ?g := g_signals c (GAnother ?g) + of_nat (2 * (arrived c - g2_start c)))"
      using d(4,12) by (simp del: of_nat_mult)
    moreover have "g2_start c < arrived c" using False d(2) by simp
    ultimately show ?thesis
      using post_all_ok [OF sw(1)] run d sw(4) by (simp add: broadcast_post_def ws_def Let_def) blast
  qed
qed

lemma broadcast_locked_sleeps:
  assumes ok: "cond_ok c" and pending: "g2_start c < arrived c"
    and refs: "drop_bit 1 (g_refs c (g1_index c)) \<noteq> 0"
  shows "broadcast_locked c = None"
proof -
  define d where "d = (if g_size c (g1_index c) \<noteq> 0 then post_all (g1_index c) c else c)"
  have d: "cond_ok d" "g1_index d = g1_index c" "wseq d = wseq c" "g_refs d = g_refs c"
    "arrived d = arrived c" "g2_start d = g2_start c"
    using post_all_ok [OF ok] ok by (auto simp: d_def)
  have "quiesce_and_switch_g1 d (Seq (wseq d)) (g1_index d) = None"
    using d pending refs by (intro quiesce_sleeps) simp_all
  then show ?thesis
    unfolding d(2,3) by (auto simp: broadcast_locked_def atomic_load_def Let_def g1_index_def d_def split: if_splits)
qed

section \<open>Sequences of operations\<close>

text \<open>
  The contract in the abstract: a condition variable counts the waiters that have not been
  signalled. Any representation that keeps the count operation by operation keeps it over any
  sequence of operations.
\<close>

datatype cond_op = Wait_enter | Signal | Broadcast

fun count_op :: "cond_op \<Rightarrow> nat \<Rightarrow> nat" where
  "count_op Wait_enter n = n + 1"
| "count_op Signal n = n - 1"
| "count_op Broadcast n = 0"

fun count_ops :: "cond_op list \<Rightarrow> nat \<Rightarrow> nat" where
  "count_ops [] n = n"
| "count_ops (x # xs) n = count_ops xs (count_op x n)"

locale waiter_counter =
  fixes run_op :: "cond_op \<Rightarrow> 's \<Rightarrow> 's option"
    and ok :: "nat \<Rightarrow> 's \<Rightarrow> bool"
    and count :: "'s \<Rightarrow> nat"
  assumes op_counts: "ok (Suc budget) s \<Longrightarrow>
    \<exists>s'. run_op x s = Some s' \<and> ok budget s' \<and> count s' = count_op x (count s)"
begin

lemma ops_count:
  "ok (length xs + budget) s \<Longrightarrow>
   \<exists>s'. run_sched run_op xs s = Some s' \<and> ok budget s' \<and> count s' = count_ops xs (count s)"
proof (induction xs arbitrary: s)
  case Nil
  then show ?case by simp
next
  case (Cons x xs)
  then obtain s' where "run_op x s = Some s'" "ok (length xs + budget) s'"
    "count s' = count_op x (count s)"
    using op_counts [of "length xs + budget" s x] by auto
  with Cons.IH [of s'] show ?case by auto
qed

end

definition cond_op_step :: "cond_op \<Rightarrow> pthread_cond_t \<Rightarrow> pthread_cond_t option" where
  "cond_op_step x c =
     (case x of
        Wait_enter \<Rightarrow> Some (snd (snd (wait_enter c)))
      | Signal \<Rightarrow> map_option snd (pthread_cond_signal c)
      | Broadcast \<Rightarrow> map_option snd (pthread_cond_broadcast c))"

text \<open>
  Between the operations: the inner lock is free, nobody blocks in the kernel, and the waiters
  are counted in \<^verbatim>\<open>wrefs\<close>. The budget bounds how many waits are still to come.
\<close>

definition cond_idle :: "nat \<Rightarrow> pthread_cond_t \<Rightarrow> bool" where
  "cond_idle budget c \<longleftrightarrow>
     cond_ok c \<and> State (g1_orig_size c) = three_states_unlocked \<and>
     g_refs c 0 = 0 \<and> g_refs c 1 = 0 \<and> unat (wrefs c) = 8 * arrived c \<and>
     arrived c + budget < 2 ^ 29"

lemma g1_index_cases: "g1_index c = 0 \<or> g1_index c = 1"
  using G2_cases [of "wseq c"] by (auto simp: g1_index_def)

lemma WaitersRef_unat: "unat (WaitersRef w) = unat w div 8"
  unfolding WaitersRef_def unat_drop_bit_eq by (simp add: drop_bit_eq_div)

lemma wait_enter_ok:
  assumes ok: "cond_ok c" and room: "arrived c + 1 < 2 ^ 30"
  shows "cond_ok (snd (snd (wait_enter c)))"
    and "unsignalled (snd (snd (wait_enter c))) = unsignalled c + 1"
    and "arrived (snd (snd (wait_enter c))) = arrived c + 1"
    and "fst (snd (wait_enter c)) = G2 (wseq c)" and "unat (fst (wait_enter c)) = arrived c"
proof -
  let ?c = "snd (snd (wait_enter c))"
  have "unat (wseq c) + 2 < 2 ^ 64"
    using room seq_word_split [of "wseq c"] G2_cases [of "wseq c"] by (auto simp: arrived_def)
  from seq_step [OF this] have w: "unat (Seq (wseq ?c)) = arrived c + 1" "G2 (wseq ?c) = G2 (wseq c)"
    by (simp_all add: wait_enter_def atomic_defs arrived_def)
  have same: "g1_start ?c = g1_start c" "g_size ?c = g_size c" "g1_orig_size ?c = g1_orig_size c"
    by (simp_all add: wait_enter_def atomic_defs)
  show "arrived ?c = arrived c + 1" using w by (simp add: arrived_def)
  with ok room w same show "cond_ok ?c" "unsignalled ?c = unsignalled c + 1"
    by (auto simp: cond_ok_def unsignalled_def g1_index_def g2_start_def old_g1_start_def
         old_orig_size_def)
qed (simp_all add: wait_enter_def atomic_defs arrived_def)

lemma with_inner_lock_idle:
  assumes idle: "cond_idle budget c"
    and body: "\<And>c. cond_ok c \<Longrightarrow> drop_bit 1 (g_refs c (g1_index c)) = 0 \<Longrightarrow>
      \<exists>ws c'. body c = Some (ws, c') \<and> cond_ok c' \<and> unsignalled c' = f (unsignalled c) \<and>
        arrived c' = arrived c \<and> wrefs c' = wrefs c \<and> g_refs c' = g_refs c"
    and zero: "f 0 = 0"
  shows "\<exists>ws c'. with_inner_lock body c = Some (ws, c') \<and> cond_idle budget c' \<and>
    unsignalled c' = f (unsignalled c)"
proof (cases "WaitersRef (wrefs c) = 0")
  case True
  then have "unat (wrefs c) div 8 = 0" using WaitersRef_unat [of "wrefs c"] by simp
  then have "arrived c = 0" using idle by (simp add: cond_idle_def)
  then have "unsignalled c = 0"
    using idle by (auto simp: cond_idle_def cond_ok_def unsignalled_def g2_start_def)
  with True idle zero show ?thesis by (simp add: with_inner_lock_def atomic_load_def)
next
  case False
  let ?c = "c\<lparr>g1_orig_size := g1_orig_size c OR three_states_locked_no_waiter\<rparr>"
  have c: "cond_ok ?c" "unsignalled ?c = unsignalled c" "g1_index ?c = g1_index c" "arrived ?c = arrived c"
    using idle by (simp_all add: cond_views_lock cond_idle_def)
  have "drop_bit 1 (g_refs ?c (g1_index ?c)) = 0"
    using idle g1_index_cases [of c] c(3) by (auto simp: cond_idle_def)
  from body [OF c(1) this] c obtain ws c' where b: "body ?c = Some (ws, c')" "cond_ok c'"
    "unsignalled c' = f (unsignalled c)" "arrived c' = arrived c" "wrefs c' = wrefs c"
    "g_refs c' = g_refs c" by auto
  have "State (g1_orig_size c' AND NOT three_states_mask) = three_states_unlocked"
    using State_ClearState by (simp add: ClearState_def)
  with b idle False show ?thesis
    by (simp add: with_inner_lock_def inner_lock_def inner_unlock_def atomic_defs cond_idle_def
        cond_views_lock)
qed

interpretation counter: waiter_counter cond_op_step cond_idle unsignalled
proof unfold_locales
  fix budget c x assume idle: "cond_idle (Suc budget) c"
  then have weaker: "cond_idle budget c" by (auto simp: cond_idle_def)
  show "\<exists>c'. cond_op_step x c = Some c' \<and> cond_idle budget c' \<and>
      unsignalled c' = count_op x (unsignalled c)"
  proof (cases x)
    case Wait_enter
    have room: "cond_ok c" "arrived c + 1 < 2 ^ 30" using idle by (auto simp: cond_idle_def)
    have "unat (wrefs c + 8) = unat (wrefs c) + 8"
      using idle by (simp add: cond_idle_def unat_word_ariths)
    with wait_enter_ok [OF room] idle Wait_enter show ?thesis
      by (auto simp: cond_op_step_def cond_idle_def)
         (simp_all add: wait_enter_def atomic_defs WaitersRefStep_def)
  next
    case Signal
    from with_inner_lock_idle [OF weaker, of signal_locked "\<lambda>n. n - 1"] signal_locked_correct
    show ?thesis unfolding Signal cond_op_step_def pthread_cond_signal_def signal_post_def
      by fastforce
  next
    case Broadcast
    from with_inner_lock_idle [OF weaker, of broadcast_locked "\<lambda>n. 0"] broadcast_locked_correct
    show ?thesis unfolding Broadcast cond_op_step_def pthread_cond_broadcast_def broadcast_post_def
      by fastforce
  qed
qed

section \<open>Properties\<close>

lemma cond_idle_init:
  assumes "n < 2 ^ 29"
  shows "cond_idle n (pthread_cond_init c)" and "unsignalled (pthread_cond_init c) = 0"
proof -
  have "State 0 = three_states_unlocked" "payload 0 = 0"
    by (simp_all add: State_def payload_def three_states_defs)
  moreover have "Seq 0 = 0" "G2 0 = 0" by (simp_all add: Seq_def G2_def)
  ultimately show "cond_idle n (pthread_cond_init c)" and "unsignalled (pthread_cond_init c) = 0"
    using assms by (auto simp: cond_idle_def cond_ok_def unsignalled_def pthread_cond_init_def cond_views)
qed

text \<open>A structure before its initialisation, for the witnesses.\<close>

definition zero_cond :: pthread_cond_t where
  "zero_cond = \<lparr>wseq = 0, g1_start = 0, g_refs = (\<lambda>_. 0), g_size = (\<lambda>_. 0), g1_orig_size = 0,
     wrefs = 0, g_signals = (\<lambda>_. 0)\<rparr>"

text \<open>C14: over any sequence of fewer than \<open>2 ^ 29\<close> waits, signals and broadcasts on a fresh
  condition variable, the words of the structure count the waiters that have not been signalled:
  a wait adds one, a signal takes one away if there is one, a broadcast takes all. No operation
  gets stuck while no waiter blocks in the kernel, the group switches included.\<close>

theorem cond_operations_count_waiters:
  assumes "length xs < 2 ^ 29"
  shows "\<exists>c'. run_sched cond_op_step xs (pthread_cond_init c) = Some c' \<and> cond_ok c' \<and>
    unsignalled c' = count_ops xs 0"
proof -
  from assms have idle: "cond_idle (length xs + 0) (pthread_cond_init c)"
    by (simp add: cond_idle_init)
  from counter.ops_count [OF this] cond_idle_init(2) [of 0 c] show ?thesis
    by (auto simp: cond_idle_def)
qed

text \<open>Two waits, a signal, a third wait, two signals: a switch of the groups for the third.\<close>

theorem cond_operations_count_waiters_witness:
  "\<exists>c'. run_sched cond_op_step [Wait_enter, Wait_enter, Signal, Wait_enter, Signal, Signal]
      (pthread_cond_init zero_cond) = Some c' \<and> cond_ok c' \<and> unsignalled c' = 0"
  using cond_operations_count_waiters
    [of "[Wait_enter, Wait_enter, Signal, Wait_enter, Signal, Signal]" zero_cond] by simp

text \<open>C15: \<^verbatim>\<open>pthread_cond_signal\<close> on a well-formed condition variable that has waiters. It has to
  sleep exactly when the inner lock is held, or when all waiters of G1 are signalled, G2 has
  waiters and G1 is still referenced from the kernel. Otherwise it signals one waiter, if one is
  unsignalled: it adds one signal to the word of G1, switching the groups first exactly when every waiter of
  the old G1 has been signalled, wakes one sleeper of this group, and leaves the lock free; no other
  word of signals changes but that of a closed G1, which is opened without signals.\<close>

theorem pthread_cond_signal_correct:
  assumes ok: "cond_ok c" and waiters: "WaitersRef (wrefs c) \<noteq> 0"
  defines "must_sleep \<equiv> State (g1_orig_size c) \<noteq> three_states_unlocked \<or>
    g_size c (g1_index c) = 0 \<and> unsignalled c \<noteq> 0 \<and> drop_bit 1 (g_refs c (g1_index c)) \<noteq> 0"
  shows "case pthread_cond_signal c of
      None \<Rightarrow> must_sleep
    | Some (ws, c') \<Rightarrow> \<not> must_sleep \<and> signal_post c ws c' \<and> State (g1_orig_size c') = three_states_unlocked"
proof (cases "State (g1_orig_size c) = three_states_unlocked")
  case free: True
  let ?c = "c\<lparr>g1_orig_size := g1_orig_size c OR three_states_locked_no_waiter\<rparr>"
  have c: "cond_ok ?c" "g1_index ?c = g1_index c" "unsignalled ?c = unsignalled c"
    using ok by (simp_all add: cond_views_lock)
  have unlocked: "State (w AND NOT three_states_mask) = three_states_unlocked" for w
    using State_ClearState by (simp add: ClearState_def)
  have call: "pthread_cond_signal c =
      (case signal_locked ?c of None \<Rightarrow> None | Some (ws, c) \<Rightarrow> Some (ws, inner_unlock c))"
    using waiters free by (simp add: pthread_cond_signal_def with_inner_lock_def inner_lock_def atomic_load_def)
  show ?thesis
  proof (cases "g_size c (g1_index c) = 0 \<and> unsignalled c \<noteq> 0 \<and> drop_bit 1 (g_refs c (g1_index c)) \<noteq> 0")
    case True
    then have "signal_locked ?c = None" using c by (intro signal_locked_sleeps) simp_all
    with call True show ?thesis by (simp add: must_sleep_def)
  next
    case False
    with signal_locked_correct [OF c(1)] c obtain ws c' where
      s: "signal_locked ?c = Some (ws, c')" "signal_post ?c ws c'" by auto
    have "signal_post c ws (inner_unlock c')"
      using s(2) by (simp add: signal_post_unlock signal_post_lock)
    with call s(1) False free unlocked show ?thesis
      by (simp add: must_sleep_def inner_unlock_def atomic_defs)
  qed
qed (use waiters in \<open>simp add: must_sleep_def pthread_cond_signal_def with_inner_lock_def inner_lock_def atomic_load_def\<close>)

text \<open>C16: \<^verbatim>\<open>pthread_cond_broadcast\<close> on a well-formed condition variable that has waiters. It has to
  sleep exactly when the inner lock is held, or when G2 has waiters and G1 is still referenced from
  the kernel. Otherwise every waiter that has arrived so far has been signalled afterwards: if G2
  had waiters, G1 is closed, with all its positions below \<^verbatim>\<open>g1_start\<close>, and the old G2 is G1 and has
  been given a signal for each of its waiters; if not, G1 has been given one for each of its waiters
  that had none. All sleepers were woken of the group that was G1, if it had unsignalled waiters,
  and of the group that was G2, if it had waiters.\<close>

theorem pthread_cond_broadcast_correct:
  assumes ok: "cond_ok c" and waiters: "WaitersRef (wrefs c) \<noteq> 0"
  defines "must_sleep \<equiv> State (g1_orig_size c) \<noteq> three_states_unlocked \<or>
    g2_start c < arrived c \<and> drop_bit 1 (g_refs c (g1_index c)) \<noteq> 0"
  shows "case pthread_cond_broadcast c of
      None \<Rightarrow> must_sleep
    | Some (ws, c') \<Rightarrow>
        \<not> must_sleep \<and> broadcast_post c ws c' \<and> State (g1_orig_size c') = three_states_unlocked"
proof (cases "State (g1_orig_size c) = three_states_unlocked")
  case free: True
  let ?c = "c\<lparr>g1_orig_size := g1_orig_size c OR three_states_locked_no_waiter\<rparr>"
  have c: "cond_ok ?c" "g1_index ?c = g1_index c" "arrived ?c = arrived c" "g2_start ?c = g2_start c"
    using ok by (simp_all add: cond_views_lock)
  have unlocked: "State (w AND NOT three_states_mask) = three_states_unlocked" for w
    using State_ClearState by (simp add: ClearState_def)
  have call: "pthread_cond_broadcast c =
      (case broadcast_locked ?c of None \<Rightarrow> None | Some (ws, c) \<Rightarrow> Some (ws, inner_unlock c))"
    using waiters free by (simp add: pthread_cond_broadcast_def with_inner_lock_def inner_lock_def atomic_load_def)
  show ?thesis
  proof (cases "g2_start c < arrived c \<and> drop_bit 1 (g_refs c (g1_index c)) \<noteq> 0")
    case True
    then have "broadcast_locked ?c = None" using c by (intro broadcast_locked_sleeps) simp_all
    with call True show ?thesis by (simp add: must_sleep_def)
  next
    case False
    with broadcast_locked_correct [OF c(1)] c obtain ws c' where
      b: "broadcast_locked ?c = Some (ws, c')" "broadcast_post ?c ws c'" by auto
    have same: "broadcast_post c ws (inner_unlock c')"
      using b(2) by (simp add: broadcast_post_unlock broadcast_post_lock)
    with call b(1) False free unlocked show ?thesis
      by (simp add: must_sleep_def inner_unlock_def atomic_defs)
  qed
qed (use waiters in \<open>simp add: must_sleep_def pthread_cond_broadcast_def with_inner_lock_def inner_lock_def atomic_load_def\<close>)

text \<open>A condition variable with two waiters, none of them signalled.\<close>

definition cond_two :: pthread_cond_t where
  "cond_two = snd (snd (wait_enter (snd (snd (wait_enter (pthread_cond_init zero_cond))))))"

lemma cond_two_idle: "cond_idle 0 cond_two" "unsignalled cond_two = 2"
proof -
  let ?c = "pthread_cond_init zero_cond"
  have "run_sched cond_op_step [Wait_enter, Wait_enter] ?c = Some cond_two"
    by (simp add: cond_op_step_def cond_two_def)
  moreover have "cond_idle (length [Wait_enter, Wait_enter] + 0) ?c"
    by (rule cond_idle_init) simp
  ultimately show "cond_idle 0 cond_two" "unsignalled cond_two = 2"
    using counter.ops_count [of "[Wait_enter, Wait_enter]" 0 ?c] cond_idle_init(2) [of 0]
    by (auto simp del: run_sched.simps list.size)
qed

lemma cond_two_facts:
  "cond_ok cond_two" "WaitersRef (wrefs cond_two) \<noteq> 0"
  "State (g1_orig_size cond_two) = three_states_unlocked" "arrived cond_two = 2"
  "drop_bit 1 (g_refs cond_two (g1_index cond_two)) = 0"
proof -
  show "cond_ok cond_two" "State (g1_orig_size cond_two) = three_states_unlocked"
    using cond_two_idle by (simp_all add: cond_idle_def)
  show "drop_bit 1 (g_refs cond_two (g1_index cond_two)) = 0"
    using cond_two_idle g1_index_cases [of cond_two] by (auto simp: cond_idle_def)
  show "WaitersRef (wrefs cond_two) \<noteq> 0" "arrived cond_two = 2"
    by (simp_all add: cond_two_def zero_cond_def wait_enter_def pthread_cond_init_def atomic_defs WaitersRef_def
        arrived_def Seq_def cond_consts)
qed

lemma cond_two_signal: "\<exists>ws c'. pthread_cond_signal cond_two = Some (ws, c')"
  using with_inner_lock_idle [OF cond_two_idle(1), of signal_locked "\<lambda>n. n - 1"] signal_locked_correct
  unfolding pthread_cond_signal_def signal_post_def by fastforce

theorem pthread_cond_signal_correct_witness:
  "\<exists>ws c'. pthread_cond_signal cond_two = Some (ws, c') \<and> unsignalled c' = 1 \<and>
     ws = [Wake_one (g1_index c')]"
  using pthread_cond_signal_correct [OF cond_two_facts(1,2)] cond_two_facts cond_two_idle cond_two_signal
  by (auto simp: signal_post_def)

theorem pthread_cond_broadcast_correct_witness:
  "\<exists>ws c'. pthread_cond_broadcast cond_two = Some (ws, c') \<and> unsignalled c' = 0 \<and> g2_start c' = 2 \<and>
    g_signals c' (g1_index c') = g_signals cond_two (g1_index c') + 4"
proof -
  have start: "g2_start cond_two = 0"
    using cond_two_idle by (simp add: cond_two_def zero_cond_def wait_enter_def pthread_cond_init_def
        atomic_defs cond_views cond_consts Seq_def payload_def)
  obtain ws c' where run: "pthread_cond_broadcast cond_two = Some (ws, c')"
    using pthread_cond_broadcast_correct [OF cond_two_facts(1,2)] cond_two_facts by (auto split: option.splits)
  with pthread_cond_broadcast_correct [OF cond_two_facts(1,2)] start cond_two_facts show ?thesis
    by (auto simp: broadcast_post_def Let_def)
qed

end
