(* ===== verification/Cond_Conc.thy ===== *)
theory Cond_Conc
  imports Cond_Var
begin

text \<open>
  \<^verbatim>\<open>nptl/pthread_cond.h\<close>, the concurrent system: any number of threads that wait on one
  condition variable, signal it, broadcast it and destroy it, one access to shared memory per step.
  What the inner lock protects is accessed together with the next access that other threads can
  see. The two locks are abstract, as their theories justify: the inner lock is taken and released
  in one step, and somebody else may announce itself as a waiter in between; the mutex has an
  owner. The futex calls follow their contract: \<^verbatim>\<open>FUTEX_WAIT\<close> compares and blocks in one
  step and may return at any time.
\<close>

section \<open>Threads\<close>

text \<open>
  The program points with the C locals that are still needed. \<open>W_\<close> is \<^verbatim>\<open>pthread_cond_wait\<close> with
  \<^verbatim>\<open>dec_grefs\<close>, where the flag of \<open>W_unref\<close> says that the thread goes on to \<^verbatim>\<open>done\<close>; \<open>S_\<close> is
  \<^verbatim>\<open>pthread_cond_signal\<close> and \<^verbatim>\<open>pthread_cond_broadcast\<close>, \<open>Q_\<close> their call of
  \<^verbatim>\<open>quiesce_and_switch_g1\<close>, \<open>D_\<close> is \<^verbatim>\<open>pthread_cond_destroy\<close>.
\<close>

datatype job = Sig | Bcast

datatype wait_pc =
    W_wrefs u64 u32
  | W_unlock u64 u32
  | W_load u64 u32
  | W_cas u64 u32 u32
  | W_ref u64 u32
  | W_check u64 u32
  | W_check_start u64 u32
  | W_futex u64 u32
  | W_blocked u64 u32
  | W_unref u64 u32 bool
  | W_unwake u64 u32 bool
  | W_unref_wake u64 u32 bool
  | W_stolen u64 u32
  | W_slot u32 u64
  | W_again u32 u64 u32
  | W_give u32 u64 u32
  | W_give_wake u32
  | W_done
  | W_done_wake
  | W_relock

text \<open>The points of \<^verbatim>\<open>quiesce_and_switch_g1\<close> after its first check.\<close>

datatype switch_pc =
    Q_close
  | Q_refs
  | Q_mark
  | Q_futex u32
  | Q_blocked
  | Q_reload
  | Q_advance
  | Q_reopen
  | Q_flip

datatype signal_pc =
    S_fast
  | S_lock
  | S_wseq
  | S_size u32 u64
  | S_wake_first u32 u64
  | Q_check u32 u64
  | Q_at switch_pc u32 u32 u64
  | Q_orig u32 u32
  | Q_orig_cas u32 u32 u32
  | S_post u32
  | S_unlock "u32 option"
  | S_wake u32

datatype destroy_pc =
    D_start
  | D_futex u32
  | D_blocked
  | D_reload
  | D_done

datatype cpc =
    Idle
  | In_wait wait_pc
  | In_signal job signal_pc
  | In_destroy destroy_pc

record cond_sys =
  cv :: pthread_cond_t
  mutex_owner :: "tid option"
  cpcs :: "tid \<Rightarrow> cpc"
  nthreads :: nat

definition cmove :: "tid \<Rightarrow> cpc \<Rightarrow> (pthread_cond_t \<Rightarrow> pthread_cond_t) \<Rightarrow> cond_sys \<Rightarrow> cond_sys" where
  "cmove t p f s = s\<lparr>cv := f (cv s), cpcs := (cpcs s)(t := p)\<rparr>"

section \<open>Futexes\<close>

text \<open>The words of the condition variable that threads sleep on.\<close>

datatype futex = F_signals u32 | F_refs u32 | F_wrefs

fun blocked_on :: "cpc \<Rightarrow> futex option" where
  "blocked_on (In_wait (W_blocked seq g)) = Some (F_signals g)"
| "blocked_on (In_signal j (Q_at Q_blocked g orig start)) = Some (F_refs g)"
| "blocked_on (In_destroy D_blocked) = Some F_wrefs"
| "blocked_on _ = None"

text \<open>Where a thread goes on when \<^verbatim>\<open>FUTEX_WAIT\<close> returns.\<close>

fun futex_return :: "cpc \<Rightarrow> cpc" where
  "futex_return (In_wait (W_blocked seq g)) = In_wait (W_unref seq g False)"
| "futex_return (In_signal j (Q_at Q_blocked g orig start)) = In_signal j (Q_at Q_reload g orig start)"
| "futex_return (In_destroy D_blocked) = In_destroy D_reload"
| "futex_return p = p"

definition sleeping :: "futex \<Rightarrow> cond_sys \<Rightarrow> tid list" where
  "sleeping f s = filter (\<lambda>u. blocked_on (cpcs s u) = Some f) [0..<nthreads s]"

text \<open>\<^verbatim>\<open>FUTEX_WAKE\<close> of one thread, \<open>u\<close> if there is any, and of all.\<close>

definition wake_one :: "futex \<Rightarrow> tid \<Rightarrow> cond_sys \<Rightarrow> cond_sys option" where
  "wake_one f u s =
     (if sleeping f s = [] then Some s
      else if u \<in> set (sleeping f s)
      then Some (s\<lparr>cpcs := (cpcs s)(u := futex_return (cpcs s u))\<rparr>) else None)"

definition wake_all :: "futex \<Rightarrow> cond_sys \<Rightarrow> cond_sys" where
  "wake_all f s =
     s\<lparr>cpcs := (\<lambda>u. if blocked_on (cpcs s u) = Some f then futex_return (cpcs s u) else cpcs s u)\<rparr>"

section \<open>Waiting\<close>

text \<open>The head of the waiting loop with the value it has of \<^verbatim>\<open>g_signals[g]\<close>.\<close>

definition consume_head :: "u64 \<Rightarrow> u32 \<Rightarrow> u32 \<Rightarrow> wait_pc" where
  "consume_head seq g signals =
     (if signals AND ClosedBit \<noteq> 0 then W_done
      else if signals \<noteq> 0 then W_cas seq g signals else W_ref seq g)"

definition after_unref :: "u64 \<Rightarrow> u32 \<Rightarrow> bool \<Rightarrow> wait_pc" where
  "after_unref seq g leave = (if leave then W_done else W_load seq g)"

definition wgo :: "tid \<Rightarrow> wait_pc \<Rightarrow> (pthread_cond_t \<Rightarrow> pthread_cond_t) \<Rightarrow> cond_sys \<Rightarrow> cond_sys" where
  "wgo t p f s = cmove t (In_wait p) f s"

definition set_signals :: "u32 \<Rightarrow> u32 \<Rightarrow> pthread_cond_t \<Rightarrow> pthread_cond_t" where
  "set_signals g v c = c\<lparr>g_signals := (g_signals c)(g := v)\<rparr>"

definition set_refs :: "u32 \<Rightarrow> u32 \<Rightarrow> pthread_cond_t \<Rightarrow> pthread_cond_t" where
  "set_refs g v c = c\<lparr>g_refs := (g_refs c)(g := v)\<rparr>"

definition set_wrefs :: "u32 \<Rightarrow> pthread_cond_t \<Rightarrow> pthread_cond_t" where
  "set_wrefs v c = c\<lparr>wrefs := v\<rparr>"

text \<open>
  The first two stages are those of \<open>wait_enter\<close>, in two steps; the first is the call. \<open>u\<close> is
  the sleeper that a wake of one thread picks.
\<close>

primrec pthread_cond_wait :: "tid \<Rightarrow> bool \<Rightarrow> tid \<Rightarrow> wait_pc \<Rightarrow> cond_sys \<Rightarrow> cond_sys option" where
  "pthread_cond_wait t sp u (W_wrefs seq g) s =
     Some (wgo t (W_unlock seq g)
       (set_wrefs (snd (atomic_fetch_add (wrefs (cv s)) WaitersRefStep))) s)"
| "pthread_cond_wait t sp u (W_unlock seq g) s =
     Some (wgo t (W_load seq g) id (s\<lparr>mutex_owner := None\<rparr>))"
| "pthread_cond_wait t sp u (W_load seq g) s =
     Some (wgo t (consume_head seq g (atomic_load (g_signals (cv s) g))) id s)"
| "pthread_cond_wait t sp u (W_cas seq g signals) s =
     (case atomic_compare_exchange_weak sp (g_signals (cv s) g) signals (signals - SignalsStep) of
        (True, _, v) \<Rightarrow> Some (wgo t (W_stolen seq g) (set_signals g v) s)
      | (False, signals', _) \<Rightarrow> Some (wgo t (consume_head seq g signals') id s))"
| "pthread_cond_wait t sp u (W_ref seq g) s =
     Some (wgo t (W_check seq g)
       (set_refs g (snd (atomic_fetch_add (g_refs (cv s) g) GRefsStep))) s)"
| "pthread_cond_wait t sp u (W_check seq g) s =
     Some (wgo t (if atomic_load (g_signals (cv s) g) AND ClosedBit \<noteq> 0 then W_unref seq g True
                  else W_check_start seq g) id s)"
| "pthread_cond_wait t sp u (W_check_start seq g) s =
     Some (wgo t (if seq < drop_bit 1 (atomic_load (g1_start (cv s))) then W_unref seq g True
                  else W_futex seq g) id s)"
| "pthread_cond_wait t sp u (W_futex seq g) s =
     Some (wgo t (if g_signals (cv s) g = 0 then W_blocked seq g else W_unref seq g False) id s)"
| "pthread_cond_wait t sp u (W_blocked seq g) s = None"
| "pthread_cond_wait t sp u (W_unref seq g leave) s =
     (case atomic_fetch_add (g_refs (cv s) g) (- GRefsStep) of (old, new) \<Rightarrow>
        Some (wgo t (if old = GRefsStep + GRefsWake then W_unwake seq g leave
                     else after_unref seq g leave) (set_refs g new) s))"
| "pthread_cond_wait t sp u (W_unwake seq g leave) s =
     Some (wgo t (W_unref_wake seq g leave)
       (set_refs g (snd (atomic_fetch_and (g_refs (cv s) g) (NOT GRefsWake)))) s)"
| "pthread_cond_wait t sp u (W_unref_wake seq g leave) s =
     Some (wake_all (F_refs g) (wgo t (after_unref seq g leave) id s))"
| "pthread_cond_wait t sp u (W_stolen seq g) s =
     (let start = atomic_load (g1_start (cv s)) in
      Some (wgo t (if seq < drop_bit 1 start \<and> GAnother (G2 start) = g then W_slot g start
                   else W_done) id s))"
| "pthread_cond_wait t sp u (W_slot g start) s =
     Some (wgo t (W_again g start (atomic_load (g_signals (cv s) g))) id s)"
| "pthread_cond_wait t sp u (W_again g start v) s =
     Some (wgo t (if atomic_load (g1_start (cv s)) = start
                  then if v AND ClosedBit \<noteq> 0 then W_give_wake g else W_give g start v
                  else W_done) id s)"
| "pthread_cond_wait t sp u (W_give g start v) s =
     (case atomic_compare_exchange_weak sp (g_signals (cv s) g) v (v + SignalsStep) of
        (True, _, v') \<Rightarrow> Some (wgo t (W_give_wake g) (set_signals g v') s)
      | (False, v', _) \<Rightarrow> Some (wgo t (W_again g start v') id s))"
| "pthread_cond_wait t sp u (W_give_wake g) s = wake_one (F_signals g) u (wgo t W_done id s)"
| "pthread_cond_wait t sp u W_done s =
     (case wait_leave (cv s) of (wake, c) \<Rightarrow>
        Some (wgo t (if wake then W_done_wake else W_relock) (\<lambda>_. c) s))"
| "pthread_cond_wait t sp u W_done_wake s = Some (wake_all F_wrefs (wgo t W_relock id s))"
| "pthread_cond_wait t sp u W_relock s =
     Some (if mutex_owner s = None then cmove t Idle id (s\<lparr>mutex_owner := Some t\<rparr>) else s)"

section \<open>Signalling\<close>

text \<open>The head of the loop that waits for the references of the old G1.\<close>

definition quiesce_head :: "u32 \<Rightarrow> switch_pc" where
  "quiesce_head r = (if drop_bit 1 r \<noteq> 0 then Q_mark else Q_advance)"

definition post :: "job \<Rightarrow> u32 \<Rightarrow> pthread_cond_t \<Rightarrow> pthread_cond_t" where
  "post j g = (case j of Sig \<Rightarrow> post_signal g | Bcast \<Rightarrow> post_all g)"

definition sgo ::
  "tid \<Rightarrow> job \<Rightarrow> signal_pc \<Rightarrow> (pthread_cond_t \<Rightarrow> pthread_cond_t) \<Rightarrow> cond_sys \<Rightarrow> cond_sys" where
  "sgo t j p f s = cmove t (In_signal j p) f s"

text \<open>\<^verbatim>\<open>quiesce_and_switch_g1\<close>: \<open>orig\<close> and \<open>start\<close> are what it has read at its start.\<close>

primrec switch_step ::
  "tid \<Rightarrow> job \<Rightarrow> switch_pc \<Rightarrow> u32 \<Rightarrow> u32 \<Rightarrow> u64 \<Rightarrow> cond_sys \<Rightarrow> cond_sys option" where
  "switch_step t j Q_close g orig start s =
     Some (sgo t j (Q_at Q_refs g orig start) (close_group g) s)"
| "switch_step t j Q_refs g orig start s =
     Some (sgo t j (Q_at (quiesce_head (fst (atomic_fetch_or (g_refs (cv s) g) 0))) g orig start) id s)"
| "switch_step t j Q_mark g orig start s =
     (case atomic_fetch_or (g_refs (cv s) g) GRefsWake of (old, new) \<Rightarrow>
        let r = old OR GRefsWake in
        Some (sgo t j (Q_at (if drop_bit 1 r \<noteq> 0 then Q_futex r else Q_reload) g orig start)
                (set_refs g new) s))"
| "switch_step t j (Q_futex r) g orig start s =
     Some (sgo t j (Q_at (if g_refs (cv s) g = r then Q_blocked else Q_reload) g orig start) id s)"
| "switch_step t j Q_blocked g orig start s = None"
| "switch_step t j Q_reload g orig start s =
     Some (sgo t j (Q_at (quiesce_head (atomic_load (g_refs (cv s) g))) g orig start) id s)"
| "switch_step t j Q_advance g orig start s =
     Some (sgo t j (Q_at Q_reopen g orig start) (advance_g1_start g orig) s)"
| "switch_step t j Q_reopen g orig start s =
     Some (sgo t j (Q_at Q_flip g orig start) (reopen_group g) s)"
| "switch_step t j Q_flip g orig start s =
     (case flip_groups (cv s) of (seq, c) \<Rightarrow>
        let n = ucast (seq - start - ucast orig) in
        Some (sgo t j (Q_orig (GAnother g) n) (\<lambda>_. grow_group (GAnother g) n c) s))"

primrec signal_step ::
  "tid \<Rightarrow> bool \<Rightarrow> tid \<Rightarrow> job \<Rightarrow> signal_pc \<Rightarrow> cond_sys \<Rightarrow> cond_sys option" where
  "signal_step t sp u j S_fast s =
     Some (if WaitersRef (atomic_load (wrefs (cv s))) = 0 then cmove t Idle id s
           else sgo t j S_lock id s)"
| "signal_step t sp u j S_lock s =
     (case inner_lock (cv s) of
        Some c \<Rightarrow> Some (sgo t j S_wseq (\<lambda>_. c) s) | None \<Rightarrow> Some s)"
| "signal_step t sp u j S_wseq s =
     (let w = atomic_load (wseq (cv s)) in Some (sgo t j (S_size (GAnother (G2 w)) (Seq w)) id s))"
| "signal_step t sp u j (S_size g seq) s =
     Some (if g_size (cv s) g \<noteq> 0
           then sgo t j (case j of Sig \<Rightarrow> S_unlock (Some g) | Bcast \<Rightarrow> S_wake_first g seq) (post j g) s
           else sgo t j (Q_check g seq) id s)"
| "signal_step t sp u j (S_wake_first g seq) s =
     Some (wake_all (F_signals g) (sgo t j (Q_check g seq) id s))"
| "signal_step t sp u j (Q_check g seq) s =
     Some (sgo t j (if g2_pending (cv s) seq g = 0 then S_unlock None
                    else Q_at Q_close g (old_orig_size (cv s)) (old_g1_start (cv s))) id s)"
| "signal_step t sp u j (Q_at q g orig start) s = switch_step t j q g orig start s"
| "signal_step t sp u j (Q_orig g n) s =
     Some (sgo t j (Q_orig_cas g n (atomic_load (g1_orig_size (cv s)))) id s)"
| "signal_step t sp u j (Q_orig_cas g n old) s =
     (case atomic_compare_exchange_weak sp (g1_orig_size (cv s)) old (orig_size_word n old) of
        (True, _, w) \<Rightarrow>
          Some (sgo t j (if g_size (cv s) g \<noteq> 0 then S_post g else S_unlock None)
                  (\<lambda>c. c\<lparr>g1_orig_size := w\<rparr>) s)
      | (False, old', _) \<Rightarrow> Some (sgo t j (Q_orig_cas g n old') id s))"
| "signal_step t sp u j (S_post g) s = Some (sgo t j (S_unlock (Some g)) (post j g) s)"
| "signal_step t sp u j (S_unlock w) s =
     Some (cmove t (case w of None \<Rightarrow> Idle | Some g \<Rightarrow> In_signal j (S_wake g)) inner_unlock s)"
| "signal_step t sp u j (S_wake g) s =
     (case j of Sig \<Rightarrow> wake_one (F_signals g) u (cmove t Idle id s)
      | Bcast \<Rightarrow> Some (wake_all (F_signals g) (cmove t Idle id s)))"

section \<open>Destroying\<close>

definition destroy_head :: "u32 \<Rightarrow> destroy_pc" where
  "destroy_head w = (if WaitersRef w \<noteq> 0 then D_futex w else D_done)"

definition dgo :: "tid \<Rightarrow> destroy_pc \<Rightarrow> (pthread_cond_t \<Rightarrow> pthread_cond_t) \<Rightarrow> cond_sys \<Rightarrow> cond_sys" where
  "dgo t p f s = cmove t (In_destroy p) f s"

primrec destroy_step :: "tid \<Rightarrow> destroy_pc \<Rightarrow> cond_sys \<Rightarrow> cond_sys option" where
  "destroy_step t D_start s =
     (case atomic_fetch_or (wrefs (cv s)) DestroyingBit of (old, new) \<Rightarrow>
        Some (dgo t (destroy_head (old OR DestroyingBit)) (set_wrefs new) s))"
| "destroy_step t (D_futex w) s =
     Some (dgo t (if wrefs (cv s) = w then D_blocked else D_reload) id s)"
| "destroy_step t D_blocked s = None"
| "destroy_step t D_reload s = Some (dgo t (destroy_head (atomic_load (wrefs (cv s)))) id s)"
| "destroy_step t D_done s = None"

section \<open>The system\<close>

text \<open>
  A thread calls wait with the mutex held. In \<open>cond_act\<close> an execution has fewer than \<open>2 ^ 29\<close> waits, so
  that no field of the structure overflows. \<open>Return\<close> lets \<^verbatim>\<open>FUTEX_WAIT\<close> return without a wake-up,
  \<open>Contend\<close> is a thread that starts to wait for the inner lock while it is held.
\<close>

datatype cond_action =
    Lock_mutex tid
  | Unlock_mutex tid
  | Call_wait tid
  | Call_signal tid
  | Call_broadcast tid
  | Call_destroy tid
  | Cstep tid bool tid
  | Return tid
  | Contend

definition cond_step :: "tid \<Rightarrow> bool \<Rightarrow> tid \<Rightarrow> cond_sys \<Rightarrow> cond_sys option" where
  "cond_step t sp u s =
     (case cpcs s t of
        Idle \<Rightarrow> None
      | In_wait p \<Rightarrow> pthread_cond_wait t sp u p s
      | In_signal j p \<Rightarrow> signal_step t sp u j p s
      | In_destroy p \<Rightarrow> destroy_step t p s)"

definition call :: "tid \<Rightarrow> cpc \<Rightarrow> cond_sys \<Rightarrow> cond_sys option" where
  "call t p s =
     (if t < nthreads s \<and> cpcs s t = Idle then Some (cmove t p id s) else None)"

fun cond_act :: "cond_action \<Rightarrow> cond_sys \<Rightarrow> cond_sys option" where
  "cond_act (Lock_mutex t) s =
     (if mutex_owner s = None then call t Idle (s\<lparr>mutex_owner := Some t\<rparr>) else None)"
| "cond_act (Unlock_mutex t) s =
     (if mutex_owner s = Some t then call t Idle (s\<lparr>mutex_owner := None\<rparr>) else None)"
| "cond_act (Call_wait t) s =
     (if t < nthreads s \<and> cpcs s t = Idle \<and> mutex_owner s = Some t \<and> Seq (wseq (cv s)) + 1 < 2 ^ 29
      then case atomic_fetch_add (wseq (cv s)) SeqStep of
             (old, new) \<Rightarrow> Some (wgo t (W_wrefs (Seq old) (G2 old)) (\<lambda>c. c\<lparr>wseq := new\<rparr>) s)
      else None)"
| "cond_act (Call_signal t) s = call t (In_signal Sig S_fast) s"
| "cond_act (Call_broadcast t) s = call t (In_signal Bcast S_fast) s"
| "cond_act (Call_destroy t) s = call t (In_destroy D_start) s"
| "cond_act (Cstep t spurious u) s = cond_step t spurious u s"
| "cond_act (Return t) s =
     (if blocked_on (cpcs s t) \<noteq> None
      then Some (s\<lparr>cpcs := (cpcs s)(t := futex_return (cpcs s t))\<rparr>) else None)"
| "cond_act Contend s =
     (if State (g1_orig_size (cv s)) = three_states_locked_no_waiter
      then Some (s\<lparr>cv := (cv s)\<lparr>g1_orig_size :=
             ClearState (g1_orig_size (cv s)) OR three_states_locked_waiters\<rparr>\<rparr>)
      else None)"

text \<open>
  The same actions with the call of wait as the source has it, without the bound on the number of
  waits. The two agree as long as there are fewer than \<open>2 ^ 29\<close> waits.
\<close>

definition cond_code_act :: "cond_action \<Rightarrow> cond_sys \<Rightarrow> cond_sys option" where
  "cond_code_act a s =
     (case a of
        Call_wait t \<Rightarrow>
          (if t < nthreads s \<and> cpcs s t = Idle \<and> mutex_owner s = Some t
           then case atomic_fetch_add (wseq (cv s)) SeqStep of
                  (old, new) \<Rightarrow> Some (wgo t (W_wrefs (Seq old) (G2 old)) (\<lambda>c. c\<lparr>wseq := new\<rparr>) s)
           else None)
      | _ \<Rightarrow> cond_act a s)"

primrec waits :: "cond_action list \<Rightarrow> nat" where
  "waits [] = 0"
| "waits (a # as) = (case a of Call_wait t \<Rightarrow> 1 | _ \<Rightarrow> 0) + waits as"

definition cond_start :: "cond_sys \<Rightarrow> bool" where
  "cond_start s \<longleftrightarrow> (\<exists>c. cv s = pthread_cond_init c) \<and> mutex_owner s = None \<and> cpcs s = (\<lambda>_. Idle)"

end
