(* ===== verification/Cond_Inv.thy ===== *)
theory Cond_Inv
  imports Cond_Conc
begin

section \<open>The invariant\<close>

text \<open>Who holds the inner lock.\<close>

fun holds_inner :: "cpc \<Rightarrow> bool" where
  "holds_inner (In_signal j p) \<longleftrightarrow> (case p of S_fast \<Rightarrow> False | S_lock \<Rightarrow> False | S_wake g \<Rightarrow> False | _ \<Rightarrow> True)"
| "holds_inner _ \<longleftrightarrow> False"

text \<open>The position and group of a waiter, up to where it drops them.\<close>

fun waiter_seq :: "cpc \<Rightarrow> (u64 \<times> u32) option" where
  "waiter_seq (In_wait (W_wrefs seq g)) = Some (seq, g)"
| "waiter_seq (In_wait (W_unlock seq g)) = Some (seq, g)"
| "waiter_seq (In_wait (W_load seq g)) = Some (seq, g)"
| "waiter_seq (In_wait (W_cas seq g v)) = Some (seq, g)"
| "waiter_seq (In_wait (W_ref seq g)) = Some (seq, g)"
| "waiter_seq (In_wait (W_check seq g)) = Some (seq, g)"
| "waiter_seq (In_wait (W_check_start seq g)) = Some (seq, g)"
| "waiter_seq (In_wait (W_futex seq g)) = Some (seq, g)"
| "waiter_seq (In_wait (W_blocked seq g)) = Some (seq, g)"
| "waiter_seq (In_wait (W_unref seq g l)) = Some (seq, g)"
| "waiter_seq (In_wait (W_unwake seq g l)) = Some (seq, g)"
| "waiter_seq (In_wait (W_unref_wake seq g l)) = Some (seq, g)"
| "waiter_seq _ = None"

text \<open>A waiter that may be in the kernel: it has passed both checks and not yet returned.\<close>

fun blocking :: "cpc \<Rightarrow> bool" where
  "blocking (In_wait (W_futex seq g)) \<longleftrightarrow> True"
| "blocking (In_wait (W_blocked seq g)) \<longleftrightarrow> True"
| "blocking _ \<longleftrightarrow> False"

text \<open>A waiter of group \<open>g\<close> that has passed the check of the closed flag.\<close>

fun admitted :: "u32 \<Rightarrow> cpc \<Rightarrow> bool" where
  "admitted g (In_wait (W_check_start seq g')) \<longleftrightarrow> g' = g"
| "admitted g (In_wait (W_futex seq g')) \<longleftrightarrow> g' = g"
| "admitted g (In_wait (W_blocked seq g')) \<longleftrightarrow> g' = g"
| "admitted g _ \<longleftrightarrow> False"

text \<open>Who holds a reference on group \<open>g\<close>, and on the condition variable.\<close>

fun has_gref :: "u32 \<Rightarrow> cpc \<Rightarrow> bool" where
  "has_gref g (In_wait (W_check seq g')) \<longleftrightarrow> g' = g"
| "has_gref g (In_wait (W_check_start seq g')) \<longleftrightarrow> g' = g"
| "has_gref g (In_wait (W_futex seq g')) \<longleftrightarrow> g' = g"
| "has_gref g (In_wait (W_blocked seq g')) \<longleftrightarrow> g' = g"
| "has_gref g (In_wait (W_unref seq g' l)) \<longleftrightarrow> g' = g"
| "has_gref g _ \<longleftrightarrow> False"

fun has_wref :: "cpc \<Rightarrow> bool" where
  "has_wref (In_wait (W_wrefs seq g)) \<longleftrightarrow> False"
| "has_wref (In_wait W_done_wake) \<longleftrightarrow> False"
| "has_wref (In_wait W_relock) \<longleftrightarrow> False"
| "has_wref (In_wait _) \<longleftrightarrow> True"
| "has_wref _ \<longleftrightarrow> False"

fun waiting :: "cpc \<Rightarrow> bool" where
  "waiting (In_wait p) \<longleftrightarrow> True"
| "waiting _ \<longleftrightarrow> False"

definition count :: "(cpc \<Rightarrow> bool) \<Rightarrow> cond_sys \<Rightarrow> nat" where
  "count P s = card {t. t < nthreads s \<and> P (cpcs s t)}"

text \<open>
  The data behind the inner lock, by the point of the thread that holds it (\<open>Idle\<close>: nobody).
  While G1 is being replaced it goes through three stages.
\<close>

definition closing :: "pthread_cond_t \<Rightarrow> u32 \<Rightarrow> u32 \<Rightarrow> u64 \<Rightarrow> bool" where
  "closing c g orig start \<longleftrightarrow> cond_ok c \<and> g = g1_index c \<and> g_size c g = 0 \<and>
     orig = old_orig_size c \<and> start = old_g1_start c \<and> g2_start c < arrived c"

definition advanced :: "pthread_cond_t \<Rightarrow> u32 \<Rightarrow> u32 \<Rightarrow> u64 \<Rightarrow> bool" where
  "advanced c g orig start \<longleftrightarrow> G2 (g1_start c) = g \<and> g = g1_index c \<and>
     g_size c 0 = 0 \<and> g_size c 1 = 0 \<and> orig = old_orig_size c \<and>
     unat (old_g1_start c) = unat start + unat orig \<and> unat (old_g1_start c) < arrived c \<and>
     arrived c < 2 ^ 30"

definition flipped :: "pthread_cond_t \<Rightarrow> u32 \<Rightarrow> u32 \<Rightarrow> bool" where
  "flipped c g n \<longleftrightarrow> G2 (g1_start c) = G2 (wseq c) \<and> g = g1_index c \<and>
     g_size c g = n \<and> g_size c (GAnother g) = 0 \<and> n \<noteq> 0 \<and>
     unat (old_g1_start c) + unat n \<le> arrived c \<and> arrived c < 2 ^ 30"

fun data_ok :: "cpc \<Rightarrow> pthread_cond_t \<Rightarrow> bool" where
  "data_ok (In_signal j (S_size g seq)) c \<longleftrightarrow>
     cond_ok c \<and> g = g1_index c \<and> g2_start c \<le> unat seq \<and> unat seq \<le> arrived c"
| "data_ok (In_signal j (S_wake_first g seq)) c \<longleftrightarrow>
     cond_ok c \<and> g = g1_index c \<and> g2_start c \<le> unat seq \<and> unat seq \<le> arrived c \<and> g_size c g = 0"
| "data_ok (In_signal j (Q_check g seq)) c \<longleftrightarrow>
     cond_ok c \<and> g = g1_index c \<and> g2_start c \<le> unat seq \<and> unat seq \<le> arrived c \<and> g_size c g = 0"
| "data_ok (In_signal j (Q_at q g orig start)) c \<longleftrightarrow>
     (if q = Q_reopen \<or> q = Q_flip then advanced c g orig start else closing c g orig start)"
| "data_ok (In_signal j (Q_orig g n)) c \<longleftrightarrow> flipped c g n"
| "data_ok (In_signal j (Q_orig_cas g n old)) c \<longleftrightarrow> flipped c g n"
| "data_ok (In_signal j (S_post g)) c \<longleftrightarrow> cond_ok c \<and> g = g1_index c \<and> g_size c g \<noteq> 0"
| "data_ok _ c \<longleftrightarrow> cond_ok c"

text \<open>The first position of the group that new waiters join.\<close>

fun join_start :: "cpc \<Rightarrow> pthread_cond_t \<Rightarrow> nat" where
  "join_start (In_signal j (Q_at q g orig start)) c =
     (if q = Q_reopen \<or> q = Q_flip then unat (old_g1_start c) else g2_start c)"
| "join_start (In_signal j (Q_orig g n)) c = unat (old_g1_start c) + unat n"
| "join_start (In_signal j (Q_orig_cas g n old)) c = unat (old_g1_start c) + unat n"
| "join_start _ c = g2_start c"

text \<open>
  A waiter's group is the one its position says, as long as its group is not closed, and it
  never is in the kernel for a closed group.
\<close>

definition waiter_ok :: "nat \<Rightarrow> pthread_cond_t \<Rightarrow> cpc \<Rightarrow> bool" where
  "waiter_ok b c p \<longleftrightarrow> (\<forall>seq g. waiter_seq p = Some (seq, g) \<longrightarrow>
     unat seq < arrived c \<and> (g = 0 \<or> g = 1) \<and>
     (unat (old_g1_start c) \<le> unat seq \<longrightarrow>
        g = (if unat seq < b then g1_index c else G2 (wseq c))) \<and>
     (blocking p \<longrightarrow> unat (old_g1_start c) \<le> unat seq))"

text \<open>Once the references have been seen to be gone, nobody of the group passes the checks.\<close>

fun group_closed :: "cpc \<Rightarrow> cond_sys \<Rightarrow> bool" where
  "group_closed (In_signal j (Q_at q g orig start)) s \<longleftrightarrow>
     (q \<noteq> Q_close \<and> q \<noteq> Q_flip \<longrightarrow> g_signals (cv s) g AND ClosedBit \<noteq> 0) \<and>
     (q = Q_advance \<or> q = Q_reopen \<longrightarrow> (\<forall>u. \<not> admitted g (cpcs s u)))"
| "group_closed _ s \<longleftrightarrow> True"

definition phase_ok :: "cpc \<Rightarrow> cond_sys \<Rightarrow> bool" where
  "phase_ok p s \<longleftrightarrow> data_ok p (cv s) \<and> group_closed p s \<and>
     (\<forall>u. waiter_ok (join_start p (cv s)) (cv s) (cpcs s u))"

definition inner_ok :: "cond_sys \<Rightarrow> bool" where
  "inner_ok s \<longleftrightarrow>
     (State (g1_orig_size (cv s)) = three_states_unlocked \<longleftrightarrow> (\<forall>t. \<not> holds_inner (cpcs s t))) \<and>
     State (g1_orig_size (cv s)) \<in> {three_states_unlocked, three_states_locked_no_waiter,
       three_states_locked_waiters} \<and>
     (\<forall>t u. holds_inner (cpcs s t) \<and> holds_inner (cpcs s u) \<longrightarrow> t = u)"

definition refs_ok :: "cond_sys \<Rightarrow> bool" where
  "refs_ok s \<longleftrightarrow>
     unat (wrefs (cv s)) div 8 = count has_wref s \<and>
     (\<forall>g \<in> {0, 1}. unat (g_refs (cv s) g) div 2 = count (has_gref g) s) \<and>
     count waiting s \<le> arrived (cv s) \<and> arrived (cv s) < 2 ^ 29 \<and>
     (\<forall>t. nthreads s \<le> t \<longrightarrow> cpcs s t = Idle)"

definition cond_inv :: "cond_sys \<Rightarrow> bool" where
  "cond_inv s \<longleftrightarrow> inner_ok s \<and> refs_ok s \<and>
     (\<forall>t. holds_inner (cpcs s t) \<longrightarrow> phase_ok (cpcs s t) s) \<and>
     ((\<forall>t. \<not> holds_inner (cpcs s t)) \<longrightarrow> phase_ok Idle s)"

lemma cmove_simps [simp]:
  "cv (cmove t p f s) = f (cv s)" "mutex_owner (cmove t p f s) = mutex_owner s"
  "nthreads (cmove t p f s) = nthreads s"
  "cpcs (cmove t p f s) u = (if u = t then p else cpcs s u)"
  by (simp_all add: cmove_def)

lemma wake_all_simps [simp]:
  "cv (wake_all f s) = cv s" "mutex_owner (wake_all f s) = mutex_owner s"
  "nthreads (wake_all f s) = nthreads s"
  by (simp_all add: wake_all_def)

section \<open>A thread that returns from the kernel\<close>

text \<open>
  Threads that leave \<^verbatim>\<open>FUTEX_WAIT\<close> change nothing the invariant counts.
\<close>

definition woken_from :: "cond_sys \<Rightarrow> cond_sys \<Rightarrow> bool" where
  "woken_from s s' \<longleftrightarrow> cv s' = cv s \<and> nthreads s' = nthreads s \<and>
     (\<forall>u. cpcs s' u = cpcs s u \<or> cpcs s' u = futex_return (cpcs s u))"

lemma futex_return_simps [simp]:
  "has_wref (futex_return p) = has_wref p" "has_gref g (futex_return p) = has_gref g p"
  "waiting (futex_return p) = waiting p" "holds_inner (futex_return p) = holds_inner p"
  "waiter_seq (futex_return p) = waiter_seq p"
  "data_ok (futex_return p) c = data_ok p c" "join_start (futex_return p) c = join_start p c"
  "group_closed (futex_return p) s = group_closed p s"
  "futex_return p = Idle \<longleftrightarrow> p = Idle" "Idle = futex_return p \<longleftrightarrow> p = Idle"
  by (cases p rule: futex_return.cases; simp)+

lemma futex_return_mono:
  "blocking (futex_return p) \<Longrightarrow> blocking p" "admitted g (futex_return p) \<Longrightarrow> admitted g p"
  by (cases p rule: futex_return.cases; simp)+

lemma group_closed_mono:
  assumes "group_closed p s"
    and "\<And>g. g_signals (cv s) g AND ClosedBit \<noteq> 0 \<Longrightarrow> g_signals (cv s') g AND ClosedBit \<noteq> 0"
    and "\<And>g u. admitted g (cpcs s' u) \<Longrightarrow>
      admitted g (cpcs s u) \<or> g_signals (cv s) g AND ClosedBit = 0"
  shows "group_closed p s'"
proof (cases "\<exists>j q g orig start. p = In_signal j (Q_at q g orig start)")
  case True
  then obtain j q g orig start where p: "p = In_signal j (Q_at q g orig start)" by blast
  have "g_signals (cv s') g AND ClosedBit \<noteq> 0" if "q \<noteq> Q_close \<and> q \<noteq> Q_flip"
    using assms(1,2) p that by auto
  moreover have "\<not> admitted g (cpcs s' u)" if "q = Q_advance \<or> q = Q_reopen" for u
    using assms(1) assms(3) [of g u] p that by auto
  ultimately show ?thesis unfolding p group_closed.simps(1) by blast
next
  case False
  then show ?thesis by (cases "(p, s')" rule: group_closed.cases) auto
qed

lemma woken_from_inv:
  assumes inv: "cond_inv s" and w: "woken_from s s'"
  shows "cond_inv s'"
proof -
  have [simp]: "cv s' = cv s" "nthreads s' = nthreads s" using w by (simp_all add: woken_from_def)
  have pc: "cpcs s' u = cpcs s u \<or> cpcs s' u = futex_return (cpcs s u)" for u
    using w by (simp add: woken_from_def)
  have [simp]: "has_wref (cpcs s' u) = has_wref (cpcs s u)"
    "has_gref g (cpcs s' u) = has_gref g (cpcs s u)"
    "waiting (cpcs s' u) = waiting (cpcs s u)" "holds_inner (cpcs s' u) = holds_inner (cpcs s u)"
    "cpcs s' u = Idle \<longleftrightarrow> cpcs s u = Idle" "data_ok (cpcs s' u) c = data_ok (cpcs s u) c"
    "join_start (cpcs s' u) c = join_start (cpcs s u) c"
    "waiter_seq (cpcs s' u) = waiter_seq (cpcs s u)" for u g c
    using pc [of u] by auto
  have closed: "group_closed (cpcs s' u) s'" if "group_closed (cpcs s u) s" for u
  proof (rule group_closed_mono)
    show "group_closed (cpcs s' u) s" using that pc [of u] by auto
    show "admitted g (cpcs s' v) \<Longrightarrow> admitted g (cpcs s v) \<or> g_signals (cv s) g AND ClosedBit = 0"
      for g v using pc [of v] futex_return_mono(2) by metis
  qed simp
  have idle: "group_closed Idle s'" by simp
  have waiters: "waiter_ok b c (cpcs s' u)" if "waiter_ok b c (cpcs s u)" for b c u
    using pc [of u]
  proof
    assume "cpcs s' u = futex_return (cpcs s u)"
    with that futex_return_mono(1) [of "cpcs s u"] show ?thesis by (auto simp: waiter_ok_def)
  qed (use that in simp)
  have "inner_ok s' = inner_ok s" by (simp add: inner_ok_def)
  moreover have "refs_ok s' = refs_ok s" by (simp add: refs_ok_def count_def)
  ultimately have "inner_ok s'" "refs_ok s'" using inv by (simp_all add: cond_inv_def)
  moreover have "phase_ok (cpcs s' t) s'" if "phase_ok (cpcs s t) s" for t
    using that closed waiters by (simp add: phase_ok_def)
  moreover have "phase_ok Idle s'" if "phase_ok Idle s"
    using that waiters by (simp add: phase_ok_def)
  ultimately show ?thesis using inv by (simp add: cond_inv_def)
qed

lemma wake_all_woken: "woken_from s (wake_all f s)"
  by (simp add: woken_from_def wake_all_def)

lemma wake_one_woken: "wake_one f u s = Some s' \<Longrightarrow> woken_from s s'"
  by (auto simp: woken_from_def wake_one_def split: if_splits)

section \<open>A step of one thread\<close>

lemma count_cmove:
  assumes "t < nthreads s"
  shows "count P (cmove t p f s) + of_bool (P (cpcs s t)) = count P s + of_bool (P p)"
proof -
  let ?A = "{u. u < nthreads s \<and> u \<noteq> t \<and> P (cpcs s u)}"
  have fin: "finite ?A" and t: "t \<notin> ?A" by simp_all
  have "{u. u < nthreads s \<and> P (cpcs s u)} = (if P (cpcs s t) then insert t ?A else ?A)"
    and "{u. u < nthreads s \<and> P (cpcs (cmove t p f s) u)} = (if P p then insert t ?A else ?A)"
    using assms by auto
  then show ?thesis using fin t by (simp add: count_def)
qed

lemma inner_ok_keep:
  assumes inv: "inner_ok s" and pc: "holds_inner p = holds_inner (cpcs s t)"
    and w: "State (g1_orig_size (f (cv s))) = State (g1_orig_size (cv s))"
  shows "inner_ok (cmove t p f s)"
proof -
  have "holds_inner (cpcs (cmove t p f s) u) = holds_inner (cpcs s u)" for u using pc by simp
  with inv w show ?thesis unfolding inner_ok_def cmove_simps(1) by metis
qed

lemma refs_ok_step:
  assumes inv: "refs_ok s" and t: "t < nthreads s"
    and wref: "unat (wrefs (f (cv s))) div 8 + of_bool (has_wref (cpcs s t)) =
      unat (wrefs (cv s)) div 8 + of_bool (has_wref p)"
    and gref: "\<And>g. g = 0 \<or> g = 1 \<Longrightarrow>
      unat (g_refs (f (cv s)) g) div 2 + of_bool (has_gref g (cpcs s t)) =
      unat (g_refs (cv s) g) div 2 + of_bool (has_gref g p)"
    and arr: "arrived (f (cv s)) + of_bool (waiting (cpcs s t)) \<ge> arrived (cv s) + of_bool (waiting p)"
      "arrived (f (cv s)) < 2 ^ 29"
  shows "refs_ok (cmove t p f s)"
proof -
  let ?s = "cmove t p f s"
  note c = count_cmove [OF t, of _ p f]
  have "unat (wrefs (cv ?s)) div 8 = count has_wref ?s"
    using c [of has_wref] wref inv by (simp add: refs_ok_def)
  moreover have "unat (g_refs (cv ?s) g) div 2 = count (has_gref g) ?s" if "g = 0 \<or> g = 1" for g
    using c [of "has_gref g"] gref [OF that] inv that by (auto simp: refs_ok_def)
  moreover have "count waiting ?s \<le> arrived (cv ?s)"
    using c [of waiting] arr inv by (simp add: refs_ok_def)
  moreover have "\<forall>u. nthreads ?s \<le> u \<longrightarrow> cpcs ?s u = Idle" using inv t by (auto simp: refs_ok_def)
  ultimately show ?thesis using arr(2) by (auto simp: refs_ok_def)
qed

lemma cond_inv_phase:
  assumes inv: "cond_inv s"
  obtains p where "phase_ok p s" and "\<And>t. holds_inner (cpcs s t) \<Longrightarrow> cpcs s t = p"
    and "(\<forall>t. \<not> holds_inner (cpcs s t)) \<Longrightarrow> p = Idle"
    and "holds_inner p \<or> p = Idle"
proof (cases "\<exists>t. holds_inner (cpcs s t)")
  case True
  then obtain t where t: "holds_inner (cpcs s t)" ..
  show ?thesis
  proof (rule that [of "cpcs s t"])
    show "phase_ok (cpcs s t) s" using inv t by (simp add: cond_inv_def)
    show "cpcs s u = cpcs s t" if "holds_inner (cpcs s u)" for u
      using inv t that unfolding cond_inv_def inner_ok_def by metis
  qed (use t in auto)
next
  case False
  with inv have "phase_ok Idle s" by (simp add: cond_inv_def)
  with False show ?thesis by (intro that [of Idle]) auto
qed

text \<open>The fields the inner lock protects.\<close>

definition same_data :: "pthread_cond_t \<Rightarrow> pthread_cond_t \<Rightarrow> bool" where
  "same_data c c' \<longleftrightarrow> wseq c' = wseq c \<and> g1_start c' = g1_start c \<and> g_size c' = g_size c \<and>
     g1_orig_size c' = g1_orig_size c"

lemma same_data_views:
  assumes "same_data c c'"
  shows "cond_ok c' = cond_ok c" "data_ok p c' = data_ok p c" "join_start p c' = join_start p c"
    "waiter_ok b c' p = waiter_ok b c p" "arrived c' = arrived c"
proof -
  have v: "cond_ok c' = cond_ok c" "g1_index c' = g1_index c" "arrived c' = arrived c"
    "g2_start c' = g2_start c" "old_g1_start c' = old_g1_start c" "old_orig_size c' = old_orig_size c"
    using assms by (simp_all add: same_data_def cond_ok_def cond_views)
  with assms show "cond_ok c' = cond_ok c" "waiter_ok b c' p = waiter_ok b c p" "arrived c' = arrived c"
    by (simp_all add: waiter_ok_def same_data_def)
  show "data_ok p c' = data_ok p c"
    using assms v by (cases "(p, c)" rule: data_ok.cases)
      (simp_all add: closing_def advanced_def flipped_def same_data_def)
  show "join_start p c' = join_start p c"
    using v by (cases "(p, c)" rule: join_start.cases) simp_all
qed

text \<open>A step of a thread outside the inner lock that leaves this data alone.\<close>

lemma outside_step_inv:
  assumes inv: "cond_inv s" and t: "t < nthreads s"
    and out: "\<not> holds_inner (cpcs s t)" "\<not> holds_inner p"
    and data: "same_data (cv s) (f (cv s))"
    and wref: "unat (wrefs (f (cv s))) div 8 + of_bool (has_wref (cpcs s t)) =
      unat (wrefs (cv s)) div 8 + of_bool (has_wref p)"
    and gref: "\<And>g. g = 0 \<or> g = 1 \<Longrightarrow>
      unat (g_refs (f (cv s)) g) div 2 + of_bool (has_gref g (cpcs s t)) =
      unat (g_refs (cv s) g) div 2 + of_bool (has_gref g p)"
    and wait: "waiting p \<Longrightarrow> waiting (cpcs s t)"
    and seq: "waiter_seq p = None \<or> waiter_seq p = waiter_seq (cpcs s t)"
    and closed: "\<And>g. g_signals (cv s) g AND ClosedBit \<noteq> 0 \<Longrightarrow>
      g_signals (f (cv s)) g AND ClosedBit \<noteq> 0"
    and adm: "\<And>g. admitted g p \<Longrightarrow> admitted g (cpcs s t) \<or> g_signals (cv s) g AND ClosedBit = 0"
    and block: "blocking p \<Longrightarrow> blocking (cpcs s t) \<or>
      (\<forall>seq g. waiter_seq p = Some (seq, g) \<longrightarrow> unat (old_g1_start (cv s)) \<le> unat seq)"
  shows "cond_inv (cmove t p f s)"
proof -
  let ?s = "cmove t p f s"
  note v = same_data_views [OF data]
  have "inner_ok ?s"
    by (rule inner_ok_keep) (use inv out data in \<open>simp_all add: cond_inv_def same_data_def\<close>)
  moreover have "refs_ok ?s"
  proof (rule refs_ok_step)
    show "arrived (cv s) + of_bool (waiting p) \<le> arrived (f (cv s)) + of_bool (waiting (cpcs s t))"
      using wait v(5) by auto
    show "arrived (f (cv s)) < 2 ^ 29" using inv v(5) by (simp add: cond_inv_def refs_ok_def)
  qed (use inv in \<open>simp add: cond_inv_def\<close>, rule t, rule wref, erule gref)
  moreover have phase: "phase_ok q ?s" if q: "phase_ok q s" for q
  proof -
    have old: "waiter_ok (join_start q (cv s)) (cv s) (cpcs s t)"
      using q by (simp add: phase_ok_def)
    have "waiter_ok (join_start q (cv s)) (cv s) p"
    proof (cases "waiter_seq p")
      case None
      then show ?thesis by (simp add: waiter_ok_def)
    next
      case (Some x)
      with seq have same: "waiter_seq (cpcs s t) = waiter_seq p" by simp
      from old block show ?thesis unfolding waiter_ok_def same by blast
    qed
    moreover have "group_closed q ?s"
    proof (rule group_closed_mono [of q s])
      show "group_closed q s" using q by (simp add: phase_ok_def)
      show "g_signals (cv s) g AND ClosedBit \<noteq> 0 \<Longrightarrow> g_signals (cv ?s) g AND ClosedBit \<noteq> 0" for g
        using closed [of g] by simp
      show "admitted g (cpcs ?s u) \<Longrightarrow>
          admitted g (cpcs s u) \<or> g_signals (cv s) g AND ClosedBit = 0" for g u
        using adm [of g] by (cases "u = t") simp_all
    qed
    ultimately show ?thesis using q by (simp add: phase_ok_def v)
  qed
  moreover have hold: "holds_inner (cpcs ?s u) = holds_inner (cpcs s u)" for u
    using out by simp
  moreover have "phase_ok (cpcs ?s u) ?s" if "holds_inner (cpcs ?s u)" for u
  proof -
    from that out have "cpcs ?s u = cpcs s u" by (auto split: if_splits)
    with that inv show ?thesis by (auto simp: cond_inv_def intro!: phase)
  qed
  moreover have "phase_ok Idle ?s" if "\<forall>u. \<not> holds_inner (cpcs ?s u)"
    using that inv unfolding hold by (intro phase) (simp add: cond_inv_def)
  ultimately show ?thesis unfolding cond_inv_def by blast
qed

section \<open>The counters\<close>

lemma closed_iff: "v AND ClosedBit \<noteq> 0 \<longleftrightarrow> odd v"
  by (simp add: ClosedBit_def and_one_eq odd_iff_mod_2_eq_one)

lemma closed_step [simp]:
  "(v + SignalsStep) AND ClosedBit = 0 \<longleftrightarrow> v AND ClosedBit = 0"
  "(v - SignalsStep) AND ClosedBit = 0 \<longleftrightarrow> v AND ClosedBit = 0"
proof -
  have "odd (v + 2) \<longleftrightarrow> odd v" by simp
  moreover have "odd (v - 2) \<longleftrightarrow> odd v"
    by (metis diff_add_cancel even_add even_numeral)
  ultimately show "(v + SignalsStep) AND ClosedBit = 0 \<longleftrightarrow> v AND ClosedBit = 0"
    and "(v - SignalsStep) AND ClosedBit = 0 \<longleftrightarrow> v AND ClosedBit = 0"
    using closed_iff [of v] closed_iff [of "v + 2"] closed_iff [of "v - 2"]
    by (auto simp: SignalsStep_def)
qed

lemma wrefs_add:
  "unat w div 8 + 1 < 2 ^ 29 \<Longrightarrow> unat (w + WaitersRefStep) div 8 = unat w div 8 + 1"
  by (simp add: WaitersRefStep_def unat_word_ariths)

lemma wrefs_sub:
  assumes "unat w div 8 > 0"
  shows "unat (w - WaitersRefStep) div 8 + 1 = unat w div 8"
proof -
  have "8 \<le> unat w" using assms by (simp add: div_greater_zero_iff)
  then have "unat (w - 8) = unat w - 8" by (subst unat_sub) (auto simp: word_le_nat_alt)
  with \<open>8 \<le> unat w\<close> show ?thesis by (simp add: WaitersRefStep_def)
qed

lemma wrefs_or: "unat (w OR DestroyingBit) div 8 = unat w div 8"
proof -
  have four: "DestroyingBit = 2 ^ 2" by (simp add: DestroyingBit_def)
  have "WaitersRef (w OR DestroyingBit) = WaitersRef w"
    unfolding WaitersRef_def four
    by (rule bit_word_eqI) (simp add: bit_simps)
  then show ?thesis using WaitersRef_unat by metis
qed

lemma grefs_add:
  "unat w div 2 + 1 < 2 ^ 31 \<Longrightarrow> unat (w + GRefsStep) div 2 = unat w div 2 + 1"
  by (simp add: GRefsStep_def unat_word_ariths)

lemma grefs_sub:
  assumes "unat w div 2 > 0"
  shows "unat (w - GRefsStep) div 2 + 1 = unat w div 2"
proof -
  have "2 \<le> unat w" using assms by (simp add: div_greater_zero_iff)
  then have "unat (w - 2) = unat w - 2" by (subst unat_sub) (auto simp: word_le_nat_alt)
  with \<open>2 \<le> unat w\<close> show ?thesis by (simp add: GRefsStep_def)
qed

lemma bit_GRefsWake: "bit GRefsWake n \<longleftrightarrow> n = 0"
  by (simp add: GRefsWake_def bit_1_iff)

lemma grefs_wake_bit:
  "unat (w OR GRefsWake) div 2 = unat w div 2"
  "unat (w AND NOT GRefsWake) div 2 = unat w div 2"
proof -
  have half: "unat v div 2 = unat (drop_bit 1 v)" for v :: u32
    by (simp only: unat_drop_bit_eq) (simp add: drop_bit_Suc)
  have "drop_bit 1 (w OR GRefsWake) = drop_bit 1 w" "drop_bit 1 (w AND NOT GRefsWake) = drop_bit 1 w"
    by (rule bit_word_eqI; auto simp: bit_GRefsWake bit_simps dest: bit_imp_le_length)+
  then show "unat (w OR GRefsWake) div 2 = unat w div 2"
    "unat (w AND NOT GRefsWake) div 2 = unat w div 2" by (simp_all only: half)
qed

lemma count_mono:
  assumes "\<And>p. P p \<Longrightarrow> Q p"
  shows "count P s \<le> count Q s"
  using assms unfolding count_def by (intro card_mono) auto

lemma count_pos: "t < nthreads s \<Longrightarrow> P (cpcs s t) \<Longrightarrow> 0 < count P s"
  unfolding count_def by (subst card_gt_0_iff) auto

lemma count_strict:
  assumes "t < nthreads s" "\<not> P (cpcs s t)" "Q (cpcs s t)" "\<And>p. P p \<Longrightarrow> Q p"
  shows "count P s < count Q s"
  using assms unfolding count_def by (intro psubset_card_mono) auto

lemma has_gref_waiting: "has_gref g p \<Longrightarrow> waiting p"
  by (cases "(g, p)" rule: has_gref.cases) auto

lemma has_wref_waiting: "has_wref p \<Longrightarrow> waiting p"
  by (cases p rule: has_wref.cases) auto

section \<open>The steps of a wait\<close>

lemma thread_bound: "cond_inv s \<Longrightarrow> cpcs s t \<noteq> Idle \<Longrightarrow> t < nthreads s"
  unfolding cond_inv_def refs_ok_def by (metis linorder_not_less)

lemma wait_step_inv:
  assumes inv: "cond_inv s" and pc: "cpcs s t = In_wait p"
    and same: "same_data (cv s) (f (cv s))"
    and wref: "unat (wrefs (f (cv s))) div 8 + of_bool (has_wref (In_wait p)) =
      unat (wrefs (cv s)) div 8 + of_bool (has_wref (In_wait q))"
    and gref: "\<And>g. g = 0 \<or> g = 1 \<Longrightarrow>
      unat (g_refs (f (cv s)) g) div 2 + of_bool (has_gref g (In_wait p)) =
      unat (g_refs (cv s) g) div 2 + of_bool (has_gref g (In_wait q))"
    and "waiter_seq (In_wait q) = None \<or> waiter_seq (In_wait q) = waiter_seq (In_wait p)"
    and "\<And>g. g_signals (cv s) g AND ClosedBit \<noteq> 0 \<Longrightarrow>
      g_signals (f (cv s)) g AND ClosedBit \<noteq> 0"
    and "\<And>g. admitted g (In_wait q) \<Longrightarrow>
      admitted g (In_wait p) \<or> g_signals (cv s) g AND ClosedBit = 0"
    and "blocking (In_wait q) \<Longrightarrow> blocking (In_wait p) \<or>
      (\<forall>seq g. waiter_seq (In_wait q) = Some (seq, g) \<longrightarrow> unat (old_g1_start (cv s)) \<le> unat seq)"
  shows "cond_inv (wgo t q f s)"
  unfolding wgo_def
  by (rule outside_step_inv [OF inv thread_bound [OF inv]]) (use assms in simp_all)

lemma mutex_owner_inv [simp]: "cond_inv (s\<lparr>mutex_owner := x\<rparr>) = cond_inv s"
proof -
  have "group_closed p (s\<lparr>mutex_owner := x\<rparr>) = group_closed p s" for p
    by (cases "(p, s)" rule: group_closed.cases) auto
  then have "phase_ok p (s\<lparr>mutex_owner := x\<rparr>) = phase_ok p s" for p
    by (simp add: phase_ok_def)
  then show ?thesis by (simp add: cond_inv_def inner_ok_def refs_ok_def count_def)
qed

lemma set_fields [simp]:
  "same_data c (set_signals g v c)" "same_data c (set_refs g v c)" "same_data c (set_wrefs w c)"
  "same_data c c"
  "g_signals (set_signals g v c) = (g_signals c)(g := v)" "g_refs (set_signals g v c) = g_refs c"
  "wrefs (set_signals g v c) = wrefs c"
  "g_refs (set_refs g v c) = (g_refs c)(g := v)" "g_signals (set_refs g v c) = g_signals c"
  "wrefs (set_refs g v c) = wrefs c"
  "wrefs (set_wrefs w c) = w" "g_refs (set_wrefs w c) = g_refs c"
  "g_signals (set_wrefs w c) = g_signals c"
  by (simp_all add: same_data_def set_signals_def set_refs_def set_wrefs_def)

lemma head_simps [simp]:
  "has_wref (In_wait (consume_head seq g v))" "has_wref (In_wait (after_unref seq g l))"
  "\<not> has_gref g' (In_wait (consume_head seq g v))" "\<not> has_gref g' (In_wait (after_unref seq g l))"
  "\<not> admitted g' (In_wait (consume_head seq g v))" "\<not> admitted g' (In_wait (after_unref seq g l))"
  "\<not> blocking (In_wait (consume_head seq g v))" "\<not> blocking (In_wait (after_unref seq g l))"
  by (simp_all add: consume_head_def after_unref_def)

lemma head_seq:
  "waiter_seq (In_wait (consume_head seq g v)) = None \<or>
   waiter_seq (In_wait (consume_head seq g v)) = Some (seq, g)"
  "waiter_seq (In_wait (after_unref seq g l)) = None \<or>
   waiter_seq (In_wait (after_unref seq g l)) = Some (seq, g)"
  by (simp_all add: consume_head_def after_unref_def)

lemma refs_bounds:
  assumes inv: "cond_inv s" and t: "cpcs s t = In_wait p"
  shows "\<not> has_wref (In_wait p) \<Longrightarrow> unat (wrefs (cv s)) div 8 + 1 < 2 ^ 29"
    and "has_wref (In_wait p) \<Longrightarrow> 0 < unat (wrefs (cv s)) div 8"
    and "g = 0 \<or> g = 1 \<Longrightarrow> unat (g_refs (cv s) g) div 2 + 1 < 2 ^ 31"
    and "g = 0 \<or> g = 1 \<Longrightarrow> has_gref g (In_wait p) \<Longrightarrow> 0 < unat (g_refs (cv s) g) div 2"
proof -
  have n: "t < nthreads s" using thread_bound [OF inv] t by simp
  have refs: "unat (wrefs (cv s)) div 8 = count has_wref s" "count waiting s < 2 ^ 29"
    "\<And>g. g = 0 \<or> g = 1 \<Longrightarrow> unat (g_refs (cv s) g) div 2 = count (has_gref g) s"
    using inv by (auto simp: cond_inv_def refs_ok_def)
  show "unat (wrefs (cv s)) div 8 + 1 < 2 ^ 29" if "\<not> has_wref (In_wait p)"
    using count_strict [OF n, of has_wref waiting] that t refs has_wref_waiting by simp
  show "0 < unat (wrefs (cv s)) div 8" if "has_wref (In_wait p)"
    using count_pos [OF n, of has_wref] that t refs by simp
  show "unat (g_refs (cv s) g) div 2 + 1 < 2 ^ 31" if "g = 0 \<or> g = 1"
    using count_mono [of "has_gref g" waiting s] has_gref_waiting refs that by force
  show "0 < unat (g_refs (cv s) g) div 2" if "g = 0 \<or> g = 1" "has_gref g (In_wait p)"
    using count_pos [OF n, of "has_gref g"] that t refs by simp
qed

lemma waiter_group:
  assumes "cond_inv s" and "waiter_seq (cpcs s t) = Some (seq, g)"
  shows "g = 0 \<or> g = 1"
proof -
  obtain p where "phase_ok p s" using cond_inv_phase [OF assms(1)] by blast
  with assms(2) show ?thesis unfolding phase_ok_def waiter_ok_def by blast
qed

lemma wait_inv:
  assumes inv: "cond_inv s" and pc: "cpcs s t = In_wait p"
    and step: "pthread_cond_wait t sp u p s = Some s'"
  shows "cond_inv s'"
proof -
  note local_step = wait_step_inv [OF inv pc]
  note b = refs_bounds [OF inv pc]
  show ?thesis
  proof (cases p)
    case (W_wrefs seq g)
    with step have "s' = wgo t (W_unlock seq g) (set_wrefs (wrefs (cv s) + WaitersRefStep)) s"
      by (simp add: atomic_defs)
    with W_wrefs b(1) show ?thesis by (auto intro!: local_step simp: wrefs_add)
  next
    case (W_unlock seq g)
    have *: "cond_inv (s\<lparr>mutex_owner := None\<rparr>)" using inv by simp
    from W_unlock step have "s' = wgo t (W_load seq g) id (s\<lparr>mutex_owner := None\<rparr>)" by simp
    with W_unlock pc show ?thesis by (auto intro!: wait_step_inv [OF *])
  next
    case (W_load seq g)
    with step have "s' = wgo t (consume_head seq g (g_signals (cv s) g)) id s"
      by (simp add: atomic_defs)
    with W_load head_seq(1) [of seq g "g_signals (cv s) g"] show ?thesis by (auto intro!: local_step)
  next
    case (W_cas seq g v)
    with step consider "s' = wgo t (W_stolen seq g) (set_signals g (g_signals (cv s) g - SignalsStep)) s"
      | "s' = wgo t (consume_head seq g (g_signals (cv s) g)) id s"
      by (auto simp: atomic_defs split: if_splits)
    then show ?thesis
      by cases (use W_cas head_seq(1) [of seq g "g_signals (cv s) g"] in \<open>auto intro!: local_step split: if_splits\<close>)
  next
    case (W_ref seq g)
    then have g: "g = 0 \<or> g = 1" using waiter_group [OF inv, of t] pc by simp
    from W_ref step have "s' = wgo t (W_check seq g) (set_refs g (g_refs (cv s) g + GRefsStep)) s"
      by (simp add: atomic_defs)
    with W_ref b(3) [OF g] show ?thesis by (auto intro!: local_step simp: grefs_add)
  next
    case (W_check seq g)
    with step have "s' = wgo t (if g_signals (cv s) g AND ClosedBit \<noteq> 0 then W_unref seq g True
        else W_check_start seq g) id s" by (simp add: atomic_defs)
    with W_check show ?thesis by (auto intro!: local_step)
  next
    case (W_check_start seq g)
    with step have "s' = wgo t (if seq < old_g1_start (cv s) then W_unref seq g True
        else W_futex seq g) id s" by (simp add: atomic_defs old_g1_start_def Seq_def)
    with W_check_start show ?thesis
      by (auto intro!: local_step simp: word_less_nat_alt)
  next
    case (W_futex seq g)
    with step have "s' = wgo t (if g_signals (cv s) g = 0 then W_blocked seq g
        else W_unref seq g False) id s" by simp
    with W_futex show ?thesis by (auto intro!: local_step)
  next
    case (W_blocked seq g)
    with step show ?thesis by simp
  next
    case (W_unref seq g leave)
    then have g: "g = 0 \<or> g = 1" using waiter_group [OF inv, of t] pc by simp
    from W_unref step have "s' = wgo t (if g_refs (cv s) g = GRefsStep + GRefsWake
        then W_unwake seq g leave else after_unref seq g leave)
        (set_refs g (g_refs (cv s) g - GRefsStep)) s" by (simp add: atomic_defs)
    moreover have "unat (g_refs (cv s) g - GRefsStep) div 2 + 1 = unat (g_refs (cv s) g) div 2"
      using W_unref b(4) [OF g] by (intro grefs_sub) simp
    ultimately show ?thesis using W_unref head_seq(2) [of seq g leave]
      by (auto intro!: local_step)
  next
    case (W_unwake seq g leave)
    with step have "s' = wgo t (W_unref_wake seq g leave)
        (set_refs g (g_refs (cv s) g AND NOT GRefsWake)) s" by (simp add: atomic_defs)
    with W_unwake show ?thesis by (auto intro!: local_step simp: grefs_wake_bit)
  next
    case (W_unref_wake seq g leave)
    with step have s': "s' = wake_all (F_refs g) (wgo t (after_unref seq g leave) id s)" by simp
    have "cond_inv (wgo t (after_unref seq g leave) id s)"
      using W_unref_wake head_seq(2) [of seq g leave] by (auto intro!: local_step)
    then show ?thesis unfolding s' by (rule woken_from_inv [OF _ wake_all_woken])
  next
    case (W_stolen seq g)
    with step obtain q where "s' = wgo t q id s" "q = W_done \<or> q = W_slot g (g1_start (cv s))"
      by (auto simp: atomic_defs Let_def)
    with W_stolen show ?thesis by (auto intro!: local_step)
  next
    case (W_slot g start)
    with step show ?thesis by (auto intro!: local_step)
  next
    case (W_again g start v)
    with step obtain q where "s' = wgo t q id s" "q = W_done \<or> q = W_give_wake g \<or> q = W_give g start v"
      by (auto simp: atomic_defs)
    with W_again show ?thesis by (auto intro!: local_step)
  next
    case (W_give g start v)
    with step consider "s' = wgo t (W_give_wake g) (set_signals g (g_signals (cv s) g + SignalsStep)) s"
      | "s' = wgo t (W_again g start (g_signals (cv s) g)) id s"
      by (auto simp: atomic_defs split: if_splits)
    then show ?thesis by cases (use W_give in \<open>auto intro!: local_step split: if_splits\<close>)
  next
    case (W_give_wake g)
    then have "cond_inv (wgo t W_done id s)" by (auto intro!: local_step)
    with W_give_wake step show ?thesis using wake_one_woken woken_from_inv by auto
  next
    case W_done
    with step obtain q where s': "s' = wgo t q (\<lambda>_. set_wrefs (wrefs (cv s) - WaitersRefStep) (cv s)) s"
      and q: "q = W_done_wake \<or> q = W_relock"
      by (auto simp: wait_leave_def atomic_defs set_wrefs_def)
    have "unat (wrefs (cv s) - WaitersRefStep) div 8 + 1 = unat (wrefs (cv s)) div 8"
      using W_done b(2) by (intro wrefs_sub) simp
    with W_done q show ?thesis unfolding s' by (auto intro!: local_step)
  next
    case W_done_wake
    with step have s': "s' = wake_all F_wrefs (wgo t W_relock id s)" by simp
    have "cond_inv (wgo t W_relock id s)" using W_done_wake by (auto intro!: local_step)
    then show ?thesis unfolding s' by (rule woken_from_inv [OF _ wake_all_woken])
  next
    case W_relock
    have "cond_inv (cmove t Idle id (s\<lparr>mutex_owner := Some t\<rparr>))"
      by (rule outside_step_inv [OF _ thread_bound]) (use inv pc W_relock in simp_all)
    with W_relock step inv show ?thesis by (auto split: if_splits)
  qed
qed

section \<open>The steps of the thread that holds the inner lock\<close>

lemma waiter_ok_cong:
  assumes "wseq c' = wseq c" "g1_start c' = g1_start c"
  shows "waiter_ok b c' p = waiter_ok b c p"
  using assms by (simp add: waiter_ok_def cond_views)

lemma holder_step_inv:
  assumes inv: "cond_inv s" and pc: "cpcs s t = In_signal j p" and hold: "holds_inner (In_signal j p)"
    and refs: "wrefs (f (cv s)) = wrefs (cv s)"
      "\<And>g. unat (g_refs (f (cv s)) g) div 2 = unat (g_refs (cv s) g) div 2"
      "arrived (f (cv s)) = arrived (cv s)"
    and lock: "State (g1_orig_size (f (cv s))) = State (g1_orig_size (cv s))"
    and q: "holds_inner (In_signal j q)"
    and data: "data_ok (In_signal j q) (f (cv s))"
    and closed: "group_closed (In_signal j q) (cmove t (In_signal j q) f s)"
    and waiters: "\<And>u. waiter_ok (join_start (In_signal j p) (cv s)) (cv s) (cpcs s u) \<Longrightarrow>
      waiter_ok (join_start (In_signal j q) (f (cv s))) (f (cv s)) (cpcs s u)"
  shows "cond_inv (sgo t j q f s)"
proof -
  let ?s = "cmove t (In_signal j q) f s"
  have t: "t < nthreads s" using thread_bound [OF inv, of t] pc by simp
  have inner: "inner_ok s" and phase: "phase_ok (In_signal j p) s"
    using inv hold unfolding cond_inv_def by (simp, metis pc)
  have "inner_ok ?s" using inner pc hold q lock by (intro inner_ok_keep) simp_all
  moreover have "refs_ok ?s"
  proof (rule refs_ok_step)
    show "arrived (f (cv s)) < 2 ^ 29" using inv refs by (simp add: cond_inv_def refs_ok_def)
  qed (use inv t pc refs in \<open>simp_all add: cond_inv_def\<close>)
  moreover have "phase_ok (In_signal j q) ?s"
  proof -
    have "waiter_ok b c (In_signal j q)" for b c by (simp add: waiter_ok_def)
    with data closed waiters phase show ?thesis by (simp add: phase_ok_def)
  qed
  moreover have "u = t" if "holds_inner (cpcs ?s u)" for u
    using that inner hold pc unfolding inner_ok_def by (metis cmove_simps(4))
  moreover have "holds_inner (cpcs ?s t)" using q by simp
  ultimately show ?thesis
    unfolding cond_inv_def sgo_def by (metis cmove_simps(4))
qed

text \<open>Steps that change no data and keep the join position.\<close>

lemma holder_pc_step:
  assumes inv: "cond_inv s" and pc: "cpcs s t = In_signal j p" and hold: "holds_inner (In_signal j p)"
    and q: "holds_inner (In_signal j q)" and data: "data_ok (In_signal j q) (cv s)"
    and closed: "group_closed (In_signal j q) (cmove t (In_signal j q) id s)"
    and join: "join_start (In_signal j q) (cv s) = join_start (In_signal j p) (cv s)"
  shows "cond_inv (sgo t j q id s)"
  by (rule holder_step_inv [OF inv pc hold]) (use q data closed join in simp_all)

lemma holder_phase:
  assumes "cond_inv s" and "cpcs s t = In_signal j p" and "holds_inner (In_signal j p)"
  shows "data_ok (In_signal j p) (cv s)" and "group_closed (In_signal j p) s"
    and "waiter_ok (join_start (In_signal j p) (cv s)) (cv s) (cpcs s u)"
proof -
  have "phase_ok (In_signal j p) s" using assms unfolding cond_inv_def by metis
  then show "data_ok (In_signal j p) (cv s)" and "group_closed (In_signal j p) s"
    and "waiter_ok (join_start (In_signal j p) (cv s)) (cv s) (cpcs s u)"
    by (simp_all add: phase_ok_def)
qed

text \<open>The lock itself.\<close>

lemma inner_lock_inv:
  assumes inv: "cond_inv s" and pc: "cpcs s t = In_signal j S_lock" and lock: "inner_lock (cv s) = Some c"
  shows "cond_inv (sgo t j S_wseq (\<lambda>_. c) s)"
proof -
  let ?s = "cmove t (In_signal j S_wseq) (\<lambda>_. c) s"
  have t: "t < nthreads s" using thread_bound [OF inv, of t] pc by simp
  have c: "c = (cv s)\<lparr>g1_orig_size := g1_orig_size (cv s) OR three_states_locked_no_waiter\<rparr>"
    and free: "State (g1_orig_size (cv s)) = three_states_unlocked"
    using lock by (auto simp: inner_lock_def split: if_splits)
  have none: "\<not> holds_inner (cpcs s u)" for u
    using inv free by (simp add: cond_inv_def inner_ok_def)
  have phase: "phase_ok Idle s" using inv none by (simp add: cond_inv_def)
  have v: "cond_ok c = cond_ok (cv s)" "g2_start c = g2_start (cv s)" "arrived c = arrived (cv s)"
    by (simp_all add: c cond_views_lock)
  have hold: "holds_inner (cpcs ?s u) \<longleftrightarrow> u = t" for u using none by simp
  have locked: "State (g1_orig_size c) = three_states_locked_no_waiter"
    using free by (simp add: c State_acquire_fast)
  have "inner_ok ?s" unfolding inner_ok_def hold by (simp add: locked)
  moreover have "refs_ok ?s"
    by (rule refs_ok_step)
      (use inv t pc v in \<open>simp_all add: cond_inv_def c refs_ok_def\<close>)
  moreover have "phase_ok (In_signal j S_wseq) ?s"
  proof -
    have "waiter_ok b c p = waiter_ok b (cv s) p" for b p by (rule waiter_ok_cong) (simp_all add: c)
    moreover have "waiter_ok b (cv s) (In_signal j S_wseq)" for b by (simp add: waiter_ok_def)
    ultimately show ?thesis using phase v by (simp add: phase_ok_def)
  qed
  ultimately show ?thesis unfolding cond_inv_def hold sgo_def by simp
qed

lemma inner_unlock_inv:
  assumes inv: "cond_inv s" and pc: "cpcs s t = In_signal j (S_unlock w)"
    and q: "\<not> holds_inner q" "\<not> waiting q"
  shows "cond_inv (cmove t q inner_unlock s)"
proof -
  let ?s = "cmove t q inner_unlock s" and ?c = "inner_unlock (cv s)"
  have t: "t < nthreads s" using thread_bound [OF inv, of t] pc by simp
  have only: "u = t" if "holds_inner (cpcs s u)" for u
    using inv that pc unfolding cond_inv_def inner_ok_def by (metis (no_types) holds_inner.simps(1) signal_pc.simps)
  have hold: "\<not> holds_inner (cpcs ?s u)" for u using only q by auto
  have free: "State (g1_orig_size ?c) = three_states_unlocked"
    using State_ClearState by (simp add: inner_unlock_def atomic_defs ClearState_def)
  have v: "cond_ok ?c = cond_ok (cv s)" "g2_start ?c = g2_start (cv s)" "arrived ?c = arrived (cv s)"
    by (simp_all add: inner_unlock_def atomic_defs cond_views_lock)
  have same: "wrefs ?c = wrefs (cv s)" "g_refs ?c = g_refs (cv s)" "wseq ?c = wseq (cv s)"
    "g1_start ?c = g1_start (cv s)" by (simp_all add: inner_unlock_def)
  have no: "\<not> has_wref q" "\<And>g. \<not> has_gref g q" "waiter_seq q = None"
    using q(2) by (cases q; simp)+
  note d = holder_phase [OF inv pc]
  have "inner_ok ?s" unfolding inner_ok_def using hold free by simp
  moreover have "refs_ok ?s"
    by (rule refs_ok_step) (use inv t pc v same no q in \<open>simp_all add: cond_inv_def refs_ok_def\<close>)
  moreover have "phase_ok Idle ?s"
  proof -
    have "waiter_ok b ?c p = waiter_ok b (cv s) p" for b p by (rule waiter_ok_cong) (simp_all add: same)
    moreover have "waiter_ok b (cv s) q" for b using no by (simp add: waiter_ok_def)
    ultimately show ?thesis using d v by (simp add: phase_ok_def)
  qed
  ultimately show ?thesis unfolding cond_inv_def using hold by blast
qed

text \<open>The switch of the groups.\<close>

lemma pending_strict:
  assumes "cond_ok c" and "g2_start c \<le> unat seq" "unat seq \<le> arrived c"
    and "g_size c (GAnother g) = 0" and "g2_pending c seq g \<noteq> 0"
  shows "g2_start c < arrived c"
proof (rule ccontr)
  assume "\<not> g2_start c < arrived c"
  with assms(2,3) have eq: "unat seq = g2_start c" by simp
  have "unat (ucast (seq - old_g1_start c - ucast (old_orig_size c)) :: u32) =
      unat seq - unat (old_g1_start c) - unat (old_orig_size c)"
    using assms(1-3) by (intro group_size_unat) (auto simp: cond_ok_def g2_start_def)
  also have "\<dots> = 0" using eq by (simp add: g2_start_def)
  finally have "ucast (seq - old_g1_start c - ucast (old_orig_size c)) = (0 :: u32)"
    by (simp only: word_unat_eq_iff) simp
  then show False using assms(4,5) by (simp add: g2_pending_def)
qed

lemma close_ok:
  "closing (close_group g c) h orig start = closing c h orig start"
  "g2_start (close_group g c) = g2_start c" "waiter_ok b (close_group g c) p = waiter_ok b c p"
  by (simp_all add: closing_def close_group_def cond_ok_def cond_views waiter_ok_def)

lemma closed_after_close: "g_signals (close_group g c) g AND ClosedBit \<noteq> 0"
proof -
  have "bit ((g_signals c g OR ClosedBit) AND ClosedBit) 0"
    by (simp add: ClosedBit_def bit_simps)
  then show ?thesis by (auto simp: close_group_def atomic_defs)
qed

lemma no_reference:
  assumes inv: "cond_inv s" and g: "g = 0 \<or> g = 1" and zero: "drop_bit 1 (g_refs (cv s) g) = 0"
  shows "\<not> admitted g (cpcs s u)"
proof
  assume adm: "admitted g (cpcs s u)"
  then have ref: "has_gref g (cpcs s u)" by (cases "(g, cpcs s u)" rule: admitted.cases) auto
  then have "u < nthreads s" using thread_bound [OF inv, of u] by (cases "cpcs s u") auto
  from count_pos [OF this, of "has_gref g"] ref inv g
  have "0 < unat (g_refs (cv s) g) div 2" by (auto simp: cond_inv_def refs_ok_def)
  moreover have "unat (g_refs (cv s) g) div 2 = unat (drop_bit 1 (g_refs (cv s) g))"
    by (simp only: unat_drop_bit_eq) (simp add: drop_bit_Suc)
  ultimately show False using zero by simp
qed

lemma advance_ok:
  assumes closing: "closing c g orig start"
  defines "c' \<equiv> advance_g1_start g orig c"
  shows "advanced c' g orig start" and "unat (old_g1_start c') = g2_start c"
    and "wseq c' = wseq c" and "g1_orig_size c' = g1_orig_size c" and "arrived c' = arrived c"
    and "g_refs c' = g_refs c" and "wrefs c' = wrefs c" and "g_signals c' = g_signals c"
proof -
  have ok: "cond_ok c" and g: "g = g1_index c" and orig: "orig = old_orig_size c"
    and start: "start = old_g1_start c" and pend: "g2_start c < arrived c" and zero: "g_size c g = 0"
    using closing by (auto simp: closing_def)
  have start': "g1_start c' = g1_start c + ucast (push_bit 1 orig + (if g = 1 then 1 else - 1))"
    by (simp add: c'_def advance_g1_start_def atomic_defs)
  have adv: "unat (Seq (g1_start c')) = g2_start c" "G2 (g1_start c') = g"
    using advance_g1_start_unat [of "g1_start c" g orig] ok g orig unfolding start'
    by (auto simp: cond_ok_def g1_index_def g2_start_def old_g1_start_def atomic_load_def)
  show st: "unat (old_g1_start c') = g2_start c"
    using adv by (simp add: old_g1_start_def atomic_load_def)
  show same: "wseq c' = wseq c" "g1_orig_size c' = g1_orig_size c" "g_refs c' = g_refs c"
    "wrefs c' = wrefs c" "g_signals c' = g_signals c"
    by (simp_all add: c'_def advance_g1_start_def)
  then show arr: "arrived c' = arrived c" by (simp add: arrived_def)
  have size: "g_size c' = g_size c" by (simp add: c'_def advance_g1_start_def)
  have "g_size c (GAnother g) = 0" using ok g by (simp add: cond_ok_def g1_index_def)
  with zero g1_index_cases [of c] g have "g_size c 0 = 0" "g_size c 1 = 0" by auto
  with adv st arr same size g orig start pend ok show "advanced c' g orig start"
    by (auto simp: advanced_def g1_index_def old_orig_size_def g2_start_def cond_ok_def)
qed

lemma advance_waiter:
  assumes closing: "closing c g orig start" and w: "waiter_ok (g2_start c) c p"
    and out: "\<not> admitted g p"
  defines "c' \<equiv> advance_g1_start g orig c"
  shows "waiter_ok (unat (old_g1_start c')) c' p"
proof -
  note adv = advance_ok [OF closing, folded c'_def]
  have g: "g = g1_index c" using closing by (simp add: closing_def)
  have index: "g1_index c' = g1_index c" using adv(3) by (simp add: g1_index_def)
  show ?thesis unfolding waiter_ok_def
  proof (intro allI impI conjI)
    fix seq h assume p: "waiter_seq p = Some (seq, h)"
    have start: "unat (old_g1_start c) \<le> g2_start c" by (simp add: g2_start_def)
    from w p have old: "unat seq < arrived c" "h = 0 \<or> h = 1"
      "unat (old_g1_start c) \<le> unat seq \<Longrightarrow> h = (if unat seq < g2_start c then g1_index c else G2 (wseq c))"
      "blocking p \<Longrightarrow> unat (old_g1_start c) \<le> unat seq"
      unfolding waiter_ok_def by blast+
    show "unat seq < arrived c'" "h = 0 \<or> h = 1" using old adv by simp_all
    show "h = (if unat seq < unat (old_g1_start c') then g1_index c' else G2 (wseq c'))"
      if "unat (old_g1_start c') \<le> unat seq"
      using that old(3) start adv(2,3) by simp
    show "unat (old_g1_start c') \<le> unat seq" if b: "blocking p"
    proof (rule ccontr)
      assume "\<not> ?thesis"
      with old(3) old(4) [OF b] adv(2) g have "h = g" by auto
      moreover from b p have "admitted h p" by (cases p rule: blocking.cases) auto
      ultimately show False using out by simp
    qed
  qed
qed

lemma flip_ok:
  assumes adv: "advanced c g orig start" and flip: "flip_groups c = (seq, c')"
  defines "n \<equiv> ucast (seq - start - ucast orig) :: u32"
  defines "d \<equiv> grow_group (GAnother g) n c'"
  shows "flipped d (GAnother g) n" and "unat (old_g1_start d) + unat n = arrived c"
    and "arrived d = arrived c" and "old_g1_start d = old_g1_start c"
    and "g1_orig_size d = g1_orig_size c" and "g_refs d = g_refs c" and "wrefs d = wrefs c"
    and "G2 (wseq d) = g1_index c" and "g1_index d = G2 (wseq c)"
proof -
  have seq: "seq = Seq (wseq c)" and c': "c' = c\<lparr>wseq := wseq c XOR GroupBit\<rparr>"
    using flip by (auto simp: flip_groups_def atomic_defs)
  have n: "unat n = arrived c - unat start - unat orig"
    unfolding n_def seq arrived_def
    by (rule group_size_unat) (use adv in \<open>auto simp: advanced_def arrived_def\<close>)
  then have pos: "unat n \<noteq> 0" and sum: "unat (old_g1_start c) + unat n = arrived c"
    using adv by (auto simp: advanced_def)
  show arr: "arrived d = arrived c" by (simp add: d_def grow_group_def c' arrived_def)
  show start': "old_g1_start d = old_g1_start c" by (simp add: d_def grow_group_def c' old_g1_start_def)
  show "g1_orig_size d = g1_orig_size c" "g_refs d = g_refs c" "wrefs d = wrefs c"
    by (simp_all add: d_def grow_group_def c')
  show w: "G2 (wseq d) = g1_index c" and i: "g1_index d = G2 (wseq c)"
    by (simp_all add: d_def grow_group_def c' g1_index_def)
  show "unat (old_g1_start d) + unat n = arrived c" using sum start' by simp
  have g: "g = g1_index c" "g_size c (GAnother g) = 0" "g_size c g = 0" "G2 (g1_start c) = g"
    "arrived c < 2 ^ 30"
    using adv g1_index_cases [of c] by (auto simp: advanced_def)
  have d': "GAnother g = g1_index d" using g(1) i by (simp add: g1_index_def)
  then have "GAnother (g1_index d) = g" "g1_index c \<noteq> g1_index d"
    using g(1) by (metis GAnother_simps(3), metis GAnother_simps(4))
  moreover have "n \<noteq> 0" using pos by auto
  moreover have "g_size d = (g_size c)(GAnother g := n)" "g1_start d = g1_start c"
    using g(2) by (simp_all add: d_def grow_group_def c')
  ultimately show "flipped d (GAnother g) n"
    using g w sum start' arr d' unfolding flipped_def by simp
qed

lemma orig_ok:
  assumes fl: "flipped c g n"
  defines "d \<equiv> c\<lparr>g1_orig_size := orig_size_word n (g1_orig_size c)\<rparr>"
  shows "cond_ok d" and "g2_start d = unat (old_g1_start c) + unat n" and "g1_index d = g1_index c"
proof -
  have n: "unat n < 2 ^ 30" using fl by (auto simp: flipped_def)
  have orig: "old_orig_size d = n"
    using orig_size_word_simps(2) [OF n] by (simp add: d_def old_orig_size_payload)
  have start: "old_g1_start d = old_g1_start c" by (simp add: d_def old_g1_start_def)
  show g2: "g2_start d = unat (old_g1_start c) + unat n" by (simp add: g2_start_def orig start)
  show i: "g1_index d = g1_index c" by (simp add: d_def g1_index_def)
  have "g_size c (G2 (wseq c)) = 0"
    using fl by (auto simp: flipped_def g1_index_def)
  moreover have "arrived d = arrived c" "g_size d = g_size c" "wseq d = wseq c" "g1_start d = g1_start c"
    by (simp_all add: d_def arrived_def)
  moreover have "g_size c (g1_index c) = n" using fl by (auto simp: flipped_def)
  ultimately show "cond_ok d"
    using fl g2 i orig unfolding cond_ok_def flipped_def by simp
qed

lemma drop_bit_wake:
  "drop_bit 1 (w OR GRefsWake) = drop_bit 1 w" "w OR GRefsWake OR GRefsWake = w OR GRefsWake"
  by (rule bit_word_eqI, simp add: bit_GRefsWake bit_simps)+

lemma switch_close_inv:
  assumes inv: "cond_inv s" and pc: "cpcs s t = In_signal j (Q_at Q_close g orig start)"
  shows "cond_inv (sgo t j (Q_at Q_refs g orig start) (close_group g) s)"
proof -
  have hold: "holds_inner (In_signal j (Q_at Q_close g orig start))" by simp
  note h = holder_phase [OF inv pc hold]
  show ?thesis
  proof (rule holder_step_inv [OF inv pc hold])
    show "group_closed (In_signal j (Q_at Q_refs g orig start))
        (cmove t (In_signal j (Q_at Q_refs g orig start)) (close_group g) s)"
      using closed_after_close by simp
  qed (use h in \<open>simp_all add: close_ok\<close>, simp_all add: close_group_def arrived_def)
qed

lemma switch_head_inv:
  assumes inv: "cond_inv s" and pc: "cpcs s t = In_signal j (Q_at q g orig start)"
    and q: "q = Q_refs \<or> q = Q_reload"
  shows "cond_inv (sgo t j (Q_at (quiesce_head (g_refs (cv s) g)) g orig start) id s)"
proof -
  have hold: "holds_inner (In_signal j (Q_at q g orig start))" by simp
  note h = holder_phase [OF inv pc hold]
  have c: "closing (cv s) g orig start" using h(1) q by auto
  have closed: "g_signals (cv s) g AND ClosedBit \<noteq> 0" using h(2) q by auto
  have g: "g = 0 \<or> g = 1" using c g1_index_cases [of "cv s"] by (auto simp: closing_def)
  let ?q = "quiesce_head (g_refs (cv s) g)"
  have q': "?q = Q_mark \<or> ?q = Q_advance \<and> drop_bit 1 (g_refs (cv s) g) = 0"
    by (simp add: quiesce_head_def)
  then have adm: "\<not> admitted g (cpcs s u)" if "?q = Q_advance" for u
    using no_reference [OF inv g] that by auto
  show ?thesis
  proof (rule holder_pc_step [OF inv pc hold])
    show "group_closed (In_signal j (Q_at ?q g orig start)) (cmove t (In_signal j (Q_at ?q g orig start)) id s)"
      using closed adm q' by auto
    show "data_ok (In_signal j (Q_at ?q g orig start)) (cv s)"
      "join_start (In_signal j (Q_at ?q g orig start)) (cv s) =
       join_start (In_signal j (Q_at q g orig start)) (cv s)"
      using c q q' by auto
  qed simp
qed

lemma switch_mark_inv:
  assumes inv: "cond_inv s" and pc: "cpcs s t = In_signal j (Q_at Q_mark g orig start)"
    and q: "q = Q_reload \<or> q = Q_futex r"
  shows "cond_inv (sgo t j (Q_at q g orig start) (set_refs g (g_refs (cv s) g OR GRefsWake)) s)"
proof -
  have hold: "holds_inner (In_signal j (Q_at Q_mark g orig start))" by simp
  note h = holder_phase [OF inv pc hold]
  let ?f = "set_refs g (g_refs (cv s) g OR GRefsWake)"
  note v = same_data_views [OF set_fields(2)]
  have ne: "q \<noteq> Q_reopen" "q \<noteq> Q_flip" "q \<noteq> Q_advance" using q by auto
  show ?thesis
  proof (rule holder_step_inv [OF inv pc hold])
    show "data_ok (In_signal j (Q_at q g orig start)) (?f (cv s))"
      using h(1) ne unfolding v by simp
    show "waiter_ok (join_start (In_signal j (Q_at q g orig start)) (?f (cv s))) (?f (cv s)) (cpcs s u)" for u
      using h(3) [of u] ne unfolding v by simp
    show "group_closed (In_signal j (Q_at q g orig start)) (cmove t (In_signal j (Q_at q g orig start)) ?f s)"
      using h(2) ne by simp
    show "arrived (?f (cv s)) = arrived (cv s)" unfolding v ..
    show "unat (g_refs (?f (cv s)) h) div 2 = unat (g_refs (cv s) h) div 2" for h
      by (simp add: grefs_wake_bit)
  qed (simp_all add: set_refs_def)
qed

lemma switch_futex_inv:
  assumes inv: "cond_inv s" and pc: "cpcs s t = In_signal j (Q_at (Q_futex r) g orig start)"
    and q: "q = Q_blocked \<or> q = Q_reload"
  shows "cond_inv (sgo t j (Q_at q g orig start) id s)"
proof -
  have hold: "holds_inner (In_signal j (Q_at (Q_futex r) g orig start))" by simp
  note h = holder_phase [OF inv pc hold]
  have ne: "q \<noteq> Q_reopen" "q \<noteq> Q_flip" "q \<noteq> Q_advance" using q by auto
  show ?thesis
    by (rule holder_pc_step [OF inv pc hold]) (use h(1,2) ne in simp_all)
qed

lemma switch_advance_inv:
  assumes inv: "cond_inv s" and pc: "cpcs s t = In_signal j (Q_at Q_advance g orig start)"
  shows "cond_inv (sgo t j (Q_at Q_reopen g orig start) (advance_g1_start g orig) s)"
proof -
  have hold: "holds_inner (In_signal j (Q_at Q_advance g orig start))" by simp
  note h = holder_phase [OF inv pc hold]
  have c: "closing (cv s) g orig start" using h(1) by simp
  note adv = advance_ok [OF c]
  have out: "\<not> admitted g (cpcs s u)" for u using h(2) by simp
  show ?thesis
  proof (rule holder_step_inv [OF inv pc hold])
    show "waiter_ok (join_start (In_signal j (Q_at Q_reopen g orig start)) (advance_g1_start g orig (cv s)))
        (advance_g1_start g orig (cv s)) (cpcs s u)" for u
    proof -
      have "waiter_ok (g2_start (cv s)) (cv s) (cpcs s u)" using h(3) [of u] by simp
      from advance_waiter [OF c this out] show ?thesis by simp
    qed
    show "group_closed (In_signal j (Q_at Q_reopen g orig start))
        (cmove t (In_signal j (Q_at Q_reopen g orig start)) (advance_g1_start g orig) s)"
      using h(2) adv(8) by simp
    show "data_ok (In_signal j (Q_at Q_reopen g orig start)) (advance_g1_start g orig (cv s))"
      using adv(1) by simp
    show "arrived (advance_g1_start g orig (cv s)) = arrived (cv s)" by (rule adv(5))
    show "wrefs (advance_g1_start g orig (cv s)) = wrefs (cv s)" by (rule adv(7))
    show "State (g1_orig_size (advance_g1_start g orig (cv s))) = State (g1_orig_size (cv s))"
      unfolding adv(4) ..
    show "unat (g_refs (advance_g1_start g orig (cv s)) h) div 2 = unat (g_refs (cv s) h) div 2" for h
      unfolding adv(6) ..
  qed simp
qed

lemma switch_reopen_inv:
  assumes inv: "cond_inv s" and pc: "cpcs s t = In_signal j (Q_at Q_reopen g orig start)"
  shows "cond_inv (sgo t j (Q_at Q_flip g orig start) (reopen_group g) s)"
proof -
  have hold: "holds_inner (In_signal j (Q_at Q_reopen g orig start))" by simp
  note h = holder_phase [OF inv pc hold]
  have v: "wseq (reopen_group g c) = wseq c" "g1_start (reopen_group g c) = g1_start c"
    "g_refs (reopen_group g c) = g_refs c" "wrefs (reopen_group g c) = wrefs c"
    "g1_orig_size (reopen_group g c) = g1_orig_size c" "g_size (reopen_group g c) = g_size c" for c
    by (simp_all add: reopen_group_def)
  have a: "advanced (reopen_group g c) g orig start = advanced c g orig start" for c
    by (simp add: advanced_def v cond_views)
  have w: "waiter_ok b (reopen_group g c) p = waiter_ok b c p" for b c p
    by (rule waiter_ok_cong) (simp_all add: v)
  show ?thesis
    by (rule holder_step_inv [OF inv pc hold])
       (use h in \<open>simp_all add: v a w arrived_def old_g1_start_def\<close>)
qed

lemma switch_flip_inv:
  assumes inv: "cond_inv s" and pc: "cpcs s t = In_signal j (Q_at Q_flip g orig start)"
    and flip: "flip_groups (cv s) = (seq, c')"
  defines "n \<equiv> ucast (seq - start - ucast orig) :: u32"
  shows "cond_inv (sgo t j (Q_orig (GAnother g) n) (\<lambda>_. grow_group (GAnother g) n c') s)"
proof -
  have hold: "holds_inner (In_signal j (Q_at Q_flip g orig start))" by simp
  note h = holder_phase [OF inv pc hold]
  let ?d = "grow_group (GAnother g) n c'"
  have adv: "advanced (cv s) g orig start" using h(1) by simp
  note fl = flip_ok [OF adv flip, folded n_def]
  have w: "waiter_ok (arrived (cv s)) ?d p" if "waiter_ok (unat (old_g1_start (cv s))) (cv s) p" for p
    using that unfolding waiter_ok_def fl(3,4,8,9) by (metis linorder_not_less)
  show ?thesis
  proof (rule holder_step_inv [OF inv pc hold])
    show "waiter_ok (join_start (In_signal j (Q_orig (GAnother g) n)) ?d) ?d (cpcs s u)" for u
      using h(3) [of u] w fl(2) by simp
  qed (simp_all add: fl)
qed

lemma switch_inv:
  assumes inv: "cond_inv s" and pc: "cpcs s t = In_signal j (Q_at q g orig start)"
    and step: "switch_step t j q g orig start s = Some s'"
  shows "cond_inv s'"
proof (cases q)
  case Q_close
  with step switch_close_inv [OF inv] pc show ?thesis by auto
next
  case Q_refs
  with step switch_head_inv [OF inv pc] show ?thesis by (simp add: atomic_defs)
next
  case Q_mark
  let ?q = "if drop_bit 1 (g_refs (cv s) g) \<noteq> 0 then Q_futex (g_refs (cv s) g OR GRefsWake) else Q_reload"
  from step have s': "s' = sgo t j (Q_at ?q g orig start) (set_refs g (g_refs (cv s) g OR GRefsWake)) s"
    unfolding Q_mark switch_step.simps atomic_fetch_or_def prod.case Let_def drop_bit_wake
    by (rule sym [OF option.inject [THEN iffD1]])
  show ?thesis unfolding s'
    by (rule switch_mark_inv [OF inv pc [unfolded Q_mark], where r = "g_refs (cv s) g OR GRefsWake"]) simp
next
  case (Q_futex r)
  with step switch_futex_inv [OF inv pc [unfolded Q_futex]] show ?thesis by (auto split: if_splits)
next
  case Q_reload
  with step switch_head_inv [OF inv pc] show ?thesis by (simp add: atomic_defs)
next
  case Q_advance
  with step switch_advance_inv [OF inv] pc show ?thesis by auto
next
  case Q_reopen
  with step switch_reopen_inv [OF inv] pc show ?thesis by auto
next
  case Q_flip
  with step switch_flip_inv [OF inv] pc show ?thesis by (auto simp: Let_def split: prod.splits)
qed (use step in simp)

lemma post_waiters:
  "waiter_ok b (post j g c) p = waiter_ok b c p" "wrefs (post j g c) = wrefs c"
  "g_refs (post j g c) = g_refs c" "arrived (post j g c) = arrived c" "g2_start (post j g c) = g2_start c"
  "g1_index (post j g c) = g1_index c" "g1_orig_size (post j g c) = g1_orig_size c"
proof -
  show "waiter_ok b (post j g c) p = waiter_ok b c p"
    by (rule waiter_ok_cong) (cases j; simp add: post_def)+
qed (cases j; simp add: post_def)+

lemma post_ok: "cond_ok c \<Longrightarrow> g = g1_index c \<Longrightarrow> g_size c g \<noteq> 0 \<Longrightarrow> cond_ok (post j g c)"
  using post_signal_ok(1) post_all_ok(1) by (cases j) (auto simp: post_def)

lemma wake_all_inv: "cond_inv s \<Longrightarrow> cond_inv (wake_all f s)"
  by (rule woken_from_inv [OF _ wake_all_woken])

lemma not_waiting:
  "\<not> waiting q \<Longrightarrow> \<not> has_wref q" "\<not> waiting q \<Longrightarrow> \<not> has_gref g q" "\<not> waiting q \<Longrightarrow> waiter_seq q = None"
  "\<not> waiting q \<Longrightarrow> \<not> admitted g q" "\<not> waiting q \<Longrightarrow> \<not> blocking q"
  by (cases q; simp)+

lemma leave_inv:
  assumes inv: "cond_inv s" and pc: "cpcs s t = p" "p \<noteq> Idle" and p: "\<not> holds_inner p" "\<not> waiting p"
    and q: "\<not> holds_inner q" "\<not> waiting q"
  shows "cond_inv (cmove t q id s)"
proof -
  have t: "t < nthreads s" using thread_bound [OF inv] pc by simp
  note n = not_waiting [OF p(2)] not_waiting [OF q(2)]
  show ?thesis
    by (rule outside_step_inv [OF inv t]) (simp_all add: pc(1) p q n)
qed

lemma signal_inv:
  assumes inv: "cond_inv s" and pc: "cpcs s t = In_signal j p"
    and step: "signal_step t sp u j p s = Some s'"
  shows "cond_inv s'"
proof -
  note h = holder_phase [OF inv pc] and pc_step = holder_pc_step [OF inv pc]
  show ?thesis
  proof (cases p)
    case S_fast
    with step have "s' = cmove t Idle id s \<or> s' = cmove t (In_signal j S_lock) id s"
      by (auto simp: atomic_defs sgo_def split: if_splits)
    with S_fast leave_inv [OF inv pc] show ?thesis by auto
  next
    case S_lock
    with step inv inner_lock_inv [OF inv] pc show ?thesis by (auto split: option.splits)
  next
    case S_wseq
    with step have s': "s' = sgo t j (S_size (g1_index (cv s)) (Seq (wseq (cv s)))) id s"
      by (simp add: atomic_defs g1_index_def Let_def)
    from h(1) S_wseq have "cond_ok (cv s)" by simp
    then have "g2_start (cv s) \<le> unat (Seq (wseq (cv s))) \<and> unat (Seq (wseq (cv s))) \<le> arrived (cv s)"
      by (simp add: cond_ok_def arrived_def)
    with \<open>cond_ok (cv s)\<close> S_wseq show ?thesis unfolding s' by (intro pc_step) simp_all
  next
    case (S_size g seq)
    from h(1) S_size have d: "cond_ok (cv s)" "g = g1_index (cv s)" "g2_start (cv s) \<le> unat seq"
      "unat seq \<le> arrived (cv s)" by simp_all
    show ?thesis
    proof (cases "g_size (cv s) g = 0")
      case True
      with S_size step have "s' = sgo t j (Q_check g seq) id s" by simp
      with d True S_size show ?thesis by (auto intro!: pc_step)
    next
      case False
      let ?q = "case j of Sig \<Rightarrow> S_unlock (Some g) | Bcast \<Rightarrow> S_wake_first g seq"
      from S_size step False have s': "s' = sgo t j ?q (post j g) s" by simp
      have q: "data_ok (In_signal j ?q) (post j g (cv s))" "holds_inner (In_signal j ?q)"
        "join_start (In_signal j ?q) c = g2_start c" "group_closed (In_signal j ?q) x" for c x
        using d post_ok [OF d(1,2) False, of j] by (cases j; simp add: post_waiters; simp add: post_def)+
      show ?thesis unfolding s'
        by (rule holder_step_inv [OF inv pc]) (use S_size q in \<open>simp_all add: post_waiters\<close>)
    qed
  next
    case (S_wake_first g seq)
    with h(1) have "cond_inv (sgo t j (Q_check g seq) id s)" by (intro pc_step) auto
    with S_wake_first step wake_all_inv show ?thesis by auto
  next
    case (Q_check g seq)
    from h(1) Q_check have d: "cond_ok (cv s)" "g = g1_index (cv s)" "g2_start (cv s) \<le> unat seq"
      "unat seq \<le> arrived (cv s)" "g_size (cv s) g = 0" by auto
    show ?thesis
    proof (cases "g2_pending (cv s) seq g = 0")
      case True
      with Q_check step have "s' = sgo t j (S_unlock None) id s" by simp
      with d Q_check show ?thesis by (auto intro!: pc_step)
    next
      case False
      have "g_size (cv s) (GAnother g) = 0" using d by (simp add: cond_ok_def g1_index_def)
      with pending_strict [OF d(1,3,4) _ False] d
      have "closing (cv s) g (old_orig_size (cv s)) (old_g1_start (cv s))"
        by (simp add: closing_def)
      with False Q_check step show ?thesis by (auto intro!: pc_step)
    qed
  next
    case (Q_at q g orig start)
    with step pc show ?thesis by (auto intro: switch_inv [OF inv])
  next
    case (Q_orig g n)
    with step have "s' = sgo t j (Q_orig_cas g n (g1_orig_size (cv s))) id s" by (simp add: atomic_defs)
    with Q_orig h(1) show ?thesis by (auto intro!: pc_step)
  next
    case (Q_orig_cas g n old)
    from h(1) Q_orig_cas have fl: "flipped (cv s) g n" by simp
    let ?f = "\<lambda>c. c\<lparr>g1_orig_size := orig_size_word n (g1_orig_size (cv s))\<rparr>"
    from step Q_orig_cas have "s' = sgo t j (Q_orig_cas g n (g1_orig_size (cv s))) id s \<or>
        s' = sgo t j (if g_size (cv s) g \<noteq> 0 then S_post g else S_unlock None) ?f s"
      by (auto simp: atomic_defs split: if_splits)
    then show ?thesis
    proof
      assume "s' = sgo t j (Q_orig_cas g n (g1_orig_size (cv s))) id s"
      with Q_orig_cas fl show ?thesis by (auto intro!: pc_step)
    next
      assume s': "s' = sgo t j (if g_size (cv s) g \<noteq> 0 then S_post g else S_unlock None) ?f s"
      have "g_size (cv s) g \<noteq> 0" "g = g1_index (cv s)" using fl by (auto simp: flipped_def)
      moreover have "waiter_ok b (?f (cv s)) p = waiter_ok b (cv s) p" for b p
        by (rule waiter_ok_cong) simp_all
      ultimately show ?thesis
        using s' orig_ok [OF fl] orig_size_word_simps(1) [of n] Q_orig_cas
        by (auto intro!: holder_step_inv [OF inv pc] simp: arrived_def)
    qed
  next
    case (S_post g)
    with step have s': "s' = sgo t j (S_unlock (Some g)) (post j g) s" by simp
    from h(1) S_post have "cond_ok (cv s)" "g = g1_index (cv s)" "g_size (cv s) g \<noteq> 0" by auto
    then have "cond_ok (post j g (cv s))" by (rule post_ok)
    with S_post show ?thesis unfolding s'
      by (intro holder_step_inv [OF inv pc]) (simp_all add: post_waiters)
  next
    case (S_unlock w)
    with step inner_unlock_inv [OF inv] pc show ?thesis by (auto split: option.splits)
  next
    case (S_wake g)
    have "cond_inv (cmove t Idle id s)" using leave_inv [OF inv pc] S_wake by simp
    with S_wake step wake_all_inv wake_one_woken woken_from_inv show ?thesis
      by (auto split: job.splits)
  qed
qed

section \<open>The other actions\<close>

lemma destroy_inv:
  assumes inv: "cond_inv s" and pc: "cpcs s t = In_destroy p" and step: "destroy_step t p s = Some s'"
  shows "cond_inv s'"
proof -
  have t: "t < nthreads s" using thread_bound [OF inv] pc by simp
  have go: "cond_inv (dgo t q (set_wrefs w) s)"
    if "unat w div 8 = unat (wrefs (cv s)) div 8" for q w
    unfolding dgo_def by (rule outside_step_inv [OF inv t]) (simp_all add: pc that)
  have stay: "cond_inv (dgo t q id s)" for q
    unfolding dgo_def by (rule outside_step_inv [OF inv t]) (simp_all add: pc)
  show ?thesis using step go [OF wrefs_or] stay by (cases p) (auto simp: atomic_defs)
qed

lemma arrival_room_iff: "arrived c + 1 < 2 ^ 29 \<longleftrightarrow> Seq (wseq c) + 1 < 2 ^ 29"
proof -
  have "unat (Seq (wseq c)) < 2 ^ 63" using unsigned_less [of "wseq c", where 'a = nat] by (simp add: unat_Seq)
  then have "unat (Seq (wseq c) + 1) = arrived c + 1" by (simp add: arrived_def unat_word_ariths)
  moreover have "Seq (wseq c) + 1 < 2 ^ 29 \<longleftrightarrow> unat (Seq (wseq c) + 1) < unat (2 ^ 29 :: u64)"
    by (simp only: word_less_nat_alt)
  ultimately show ?thesis by simp
qed

lemmas arrival_room = iffD2 [OF arrival_room_iff]

lemma arrival_views:
  assumes "arrived c + 1 < 2 ^ 29"
  defines "c' \<equiv> c\<lparr>wseq := wseq c + SeqStep\<rparr>"
  shows "arrived c' = arrived c + 1" and "G2 (wseq c') = G2 (wseq c)" and "g1_index c' = g1_index c"
    and "g2_start c' = g2_start c" and "old_g1_start c' = old_g1_start c"
    and "old_orig_size c' = old_orig_size c"
    and "data_ok p c \<Longrightarrow> data_ok p c'" and "join_start p c' = join_start p c"
proof -
  have "unat (wseq c) + 2 < 2 ^ 64"
    using assms(1) seq_word_split [of "wseq c"] G2_cases [of "wseq c"] by (auto simp: arrived_def)
  note w = seq_step [OF this]
  show v: "arrived c' = arrived c + 1" "G2 (wseq c') = G2 (wseq c)"
    using w by (simp_all add: c'_def arrived_def)
  then show v': "g1_index c' = g1_index c" by (simp add: g1_index_def)
  show v'': "g2_start c' = g2_start c" "old_g1_start c' = old_g1_start c"
    "old_orig_size c' = old_orig_size c"
    by (simp_all add: c'_def cond_views)
  have same: "g_size c' = g_size c" "g1_start c' = g1_start c" by (simp_all add: c'_def)
  have ok: "cond_ok c \<Longrightarrow> cond_ok c'"
    using assms(1) v v' v'' by (simp add: cond_ok_def same)
  show "data_ok p c \<Longrightarrow> data_ok p c'"
    using ok v v' v'' assms(1)
    by (cases "(p, c)" rule: data_ok.cases)
       (auto simp: closing_def advanced_def flipped_def same split: if_splits)
  show "join_start p c' = join_start p c"
    using v'' by (cases "(p, c)" rule: join_start.cases) simp_all
qed

text \<open>New waiters come after the start of the group they join.\<close>

lemma join_start_arrived: "data_ok p c \<Longrightarrow> join_start p c \<le> arrived c"
  by (cases "(p, c)" rule: data_ok.cases)
     (auto simp: cond_ok_def closing_def advanced_def flipped_def split: if_splits)

lemma start_join: "data_ok p c \<Longrightarrow> unat (old_g1_start c) \<le> join_start p c"
  by (cases "(p, c)" rule: data_ok.cases) (auto simp: g2_start_def split: if_splits)

lemma arrival_inv:
  assumes inv: "cond_inv s" and t: "t < nthreads s" "cpcs s t = Idle"
    and room: "arrived (cv s) + 1 < 2 ^ 29"
  shows "cond_inv (wgo t (W_wrefs (Seq (wseq (cv s))) (G2 (wseq (cv s))))
    (\<lambda>c. c\<lparr>wseq := wseq (cv s) + SeqStep\<rparr>) s)"
proof -
  let ?p = "In_wait (W_wrefs (Seq (wseq (cv s))) (G2 (wseq (cv s))))"
  let ?c = "(cv s)\<lparr>wseq := wseq (cv s) + SeqStep\<rparr>"
  let ?s = "cmove t ?p (\<lambda>c. c\<lparr>wseq := wseq (cv s) + SeqStep\<rparr>) s"
  note v = arrival_views [OF room]
  have c: "cv ?s = ?c" by simp
  have hold: "holds_inner (cpcs ?s u) = holds_inner (cpcs s u)" for u using t by simp
  have "inner_ok ?s" by (rule inner_ok_keep) (use inv t in \<open>simp_all add: cond_inv_def\<close>)
  moreover have "refs_ok ?s"
  proof (rule refs_ok_step)
    show "arrived (cv s) + of_bool (waiting ?p) \<le> arrived ?c + of_bool (waiting (cpcs s t))"
      using v(1) t by simp
    show "arrived ?c < 2 ^ 29" using v(1) room by simp
  qed (use inv t in \<open>simp_all add: cond_inv_def\<close>)
  moreover have phase: "phase_ok p ?s" if p: "phase_ok p s" for p
  proof -
    have b: "join_start p (cv s) \<le> arrived (cv s)"
      using join_start_arrived p by (simp add: phase_ok_def)
    have new: "waiter_ok (join_start p (cv s)) ?c ?p"
      using b G2_cases [of "wseq (cv s)"] v(1-3,5) by (simp add: waiter_ok_def arrived_def)
    have old: "waiter_ok b (cv s) q \<Longrightarrow> waiter_ok b ?c q" for b q
      unfolding waiter_ok_def v(1-3,5) by (meson trans_less_add1)
    have "group_closed p ?s"
    proof (rule group_closed_mono [of p s])
      show "admitted g (cpcs ?s u) \<Longrightarrow> admitted g (cpcs s u) \<or> g_signals (cv s) g AND ClosedBit = 0"
        for g u by (cases "u = t") simp_all
    qed (use p in \<open>simp_all add: phase_ok_def\<close>)
    then show ?thesis using p new old v(7,8) unfolding phase_ok_def c by simp
  qed
  moreover have "phase_ok (cpcs ?s u) ?s" if "holds_inner (cpcs ?s u)" for u
  proof -
    from that t have "cpcs ?s u = cpcs s u" by (auto split: if_splits)
    with that inv show ?thesis by (auto simp: cond_inv_def intro!: phase)
  qed
  moreover have "phase_ok Idle ?s" if "\<forall>u. \<not> holds_inner (cpcs ?s u)"
    using that inv unfolding hold by (intro phase) (simp add: cond_inv_def)
  ultimately show ?thesis unfolding cond_inv_def wgo_def by blast
qed

lemma contend_inv:
  assumes inv: "cond_inv s" and held: "State (g1_orig_size (cv s)) = three_states_locked_no_waiter"
  shows "cond_inv (s\<lparr>cv := (cv s)\<lparr>g1_orig_size :=
    ClearState (g1_orig_size (cv s)) OR three_states_locked_waiters\<rparr>\<rparr>)" (is "cond_inv ?s")
proof -
  let ?c = "cv ?s"
  have pay: "payload (g1_orig_size ?c) = payload (g1_orig_size (cv s))" by simp
  have orig: "old_orig_size ?c = old_orig_size (cv s)"
    by (simp add: old_orig_size_payload)
  have v: "cond_ok ?c = cond_ok (cv s)" "g2_start ?c = g2_start (cv s)" "arrived ?c = arrived (cv s)"
    "g1_index ?c = g1_index (cv s)" "old_g1_start ?c = old_g1_start (cv s)"
    by (simp_all add: cond_views_lock) (simp add: old_g1_start_def)
  have w: "waiter_ok b ?c p = waiter_ok b (cv s) p" for b p by (rule waiter_ok_cong) simp_all
  have d: "data_ok p ?c = data_ok p (cv s)" for p
    using v orig by (cases "(p, ?c)" rule: data_ok.cases) (simp_all add: closing_def advanced_def flipped_def)
  have j: "join_start p ?c = join_start p (cv s)" for p
    using v by (cases "(p, ?c)" rule: join_start.cases) simp_all
  have "group_closed p ?s = group_closed p s" for p
    by (cases "(p, s)" rule: group_closed.cases) simp_all
  then have "phase_ok p ?s = phase_ok p s" for p
    unfolding phase_ok_def d j w by simp
  moreover have "refs_ok ?s = refs_ok s"
    using v(3) by (simp add: refs_ok_def count_def)
  moreover have "inner_ok ?s"
    using inv held unfolding inner_ok_def cond_inv_def by simp
  ultimately show ?thesis using inv by (simp add: cond_inv_def)
qed

lemma call_inv:
  assumes "cond_inv s" and "call t p s = Some s'" and "\<not> holds_inner p" "\<not> waiting p"
  shows "cond_inv s'"
proof -
  note n = not_waiting [OF assms(4)]
  from assms(2) have t: "t < nthreads s" "cpcs s t = Idle" and s': "s' = cmove t p id s"
    by (auto simp: call_def split: if_splits)
  show ?thesis unfolding s'
    by (rule outside_step_inv [OF assms(1) t(1)]) (simp_all add: t n assms(3,4))
qed

lemma cond_start_inv:
  assumes "cond_start s"
  shows "cond_inv s"
proof -
  obtain c where c: "cv s = pthread_cond_init c" and pc: "\<And>t. cpcs s t = Idle"
    using assms by (auto simp: cond_start_def)
  have idle: "cond_idle 0 (cv s)" unfolding c by (rule cond_idle_init) simp
  have "count P s = 0" if "\<not> P Idle" for P using that by (simp add: count_def pc)
  then have "refs_ok s" using idle pc
    by (auto simp: refs_ok_def cond_idle_def c pthread_cond_init_def)
  moreover have "inner_ok s" using idle pc by (simp add: inner_ok_def cond_idle_def)
  moreover have "phase_ok Idle s"
    using idle pc by (simp add: phase_ok_def cond_idle_def waiter_ok_def)
  ultimately show ?thesis using pc by (simp add: cond_inv_def)
qed

lemma cond_step_inv:
  assumes inv: "cond_inv s" and step: "cond_step t sp u s = Some s'"
  shows "cond_inv s'"
proof (cases "cpcs s t")
  case (In_wait p)
  with step have "pthread_cond_wait t sp u p s = Some s'" by (simp add: cond_step_def)
  then show ?thesis by (rule wait_inv [OF inv In_wait])
next
  case (In_signal j p)
  with step have "signal_step t sp u j p s = Some s'" by (simp add: cond_step_def)
  then show ?thesis by (rule signal_inv [OF inv In_signal])
next
  case (In_destroy p)
  with step have "destroy_step t p s = Some s'" by (simp add: cond_step_def)
  then show ?thesis by (rule destroy_inv [OF inv In_destroy])
qed (use step in \<open>simp add: cond_step_def\<close>)

lemma cond_act_inv:
  assumes inv: "cond_inv s" and act: "cond_act a s = Some s'"
  shows "cond_inv s'"
proof (cases a)
  case (Lock_mutex t)
  with act have "call t Idle (s\<lparr>mutex_owner := Some t\<rparr>) = Some s'" by (simp split: if_splits)
  from call_inv [OF _ this] inv show ?thesis by simp
next
  case (Unlock_mutex t)
  with act have "call t Idle (s\<lparr>mutex_owner := None\<rparr>) = Some s'" by (simp split: if_splits)
  from call_inv [OF _ this] inv show ?thesis by simp
next
  case (Call_wait t)
  with act have "t < nthreads s" "cpcs s t = Idle" "Seq (wseq (cv s)) + 1 < 2 ^ 29"
    and "s' = wgo t (W_wrefs (Seq (wseq (cv s))) (G2 (wseq (cv s)))) (\<lambda>c. c\<lparr>wseq := wseq (cv s) + SeqStep\<rparr>) s"
    by (simp_all add: atomic_defs split: if_splits)
  with arrival_inv [OF inv] arrival_room show ?thesis by blast
next
  case (Call_signal t)
  with act have "call t (In_signal Sig S_fast) s = Some s'" by simp
  from call_inv [OF inv this] show ?thesis by simp
next
  case (Call_broadcast t)
  with act have "call t (In_signal Bcast S_fast) s = Some s'" by simp
  from call_inv [OF inv this] show ?thesis by simp
next
  case (Call_destroy t)
  with act have "call t (In_destroy D_start) s = Some s'" by simp
  from call_inv [OF inv this] show ?thesis by simp
next
  case (Cstep t sp u)
  with act have "cond_step t sp u s = Some s'" by simp
  then show ?thesis by (rule cond_step_inv [OF inv])
next
  case (Return t)
  with act have "woken_from s s'" by (auto simp: woken_from_def split: if_splits)
  with inv show ?thesis by (rule woken_from_inv)
next
  case Contend
  with act have held: "State (g1_orig_size (cv s)) = three_states_locked_no_waiter"
    and s': "s' = s\<lparr>cv := (cv s)\<lparr>g1_orig_size :=
      ClearState (g1_orig_size (cv s)) OR three_states_locked_waiters\<rparr>\<rparr>"
    by (simp_all split: if_splits)
  from contend_inv [OF inv held] show ?thesis unfolding s' .
qed

interpretation cond: safe_system cond_act cond_start cond_inv
  by unfold_locales (rule cond_start_inv, assumption, rule cond_act_inv)

end
