(* ===== verification/Cond_Os.thy ===== *)
theory Cond_Os
  imports Cond_Inv Futex_Service
begin

text \<open>
  The condition variable on top of the kernel: the threads of \<open>Cond_Conc\<close>, but the words they sleep
  on lie in the memory of userspace at their offsets in the structure, and each \<^verbatim>\<open>futex_syscall\<close> goes
  through the syscall boundary into the wait queues of \<^verbatim>\<open>kernel/k_futex.h\<close>. The five words may share
  buckets with each other and with words of other threads. \<open>Cond_Conc\<close> abstracts from the kernel by
  threads that are asleep on a futex; here that abstraction is shown to be met.
\<close>

section \<open>The futex words in memory\<close>

text \<open>The offsets of \<^verbatim>\<open>g_refs\<close>, \<^verbatim>\<open>wrefs\<close> and \<^verbatim>\<open>g_signals\<close> behind two 64-bit fields.\<close>

fun futex_addr :: "addr \<Rightarrow> futex \<Rightarrow> addr" where
  "futex_addr base (F_refs g) = base + 16 + 4 * ucast g"
| "futex_addr base F_wrefs = base + 36"
| "futex_addr base (F_signals g) = base + 40 + 4 * ucast g"

fun futex_word :: "pthread_cond_t \<Rightarrow> futex \<Rightarrow> u32" where
  "futex_word c (F_refs g) = g_refs c g"
| "futex_word c F_wrefs = wrefs c"
| "futex_word c (F_signals g) = g_signals c g"

definition futex_words :: "futex list" where
  "futex_words = [F_refs 0, F_refs 1, F_wrefs, F_signals 0, F_signals 1]"

text \<open>\<^verbatim>\<open>g1_orig_size\<close>, whose low bits are the inner lock, lies behind \<^verbatim>\<open>g_size\<close>.\<close>

definition orig_addr :: "addr \<Rightarrow> addr" where
  "orig_addr base = base + 32"

definition store_words :: "'k os \<Rightarrow> addr \<Rightarrow> pthread_cond_t \<Rightarrow> 'k \<Rightarrow> 'k" where
  "store_words os base c k =
     os_store os (orig_addr base) (g1_orig_size c)
       (fold (\<lambda>f. os_store os (futex_addr base f) (futex_word c f)) futex_words k)"

section \<open>The calls\<close>

text \<open>
  The call of \<^verbatim>\<open>futex_syscall\<close> a thread is about to make: the word, the operation and its argument;
  where it goes on when the call returns, and where it is while it sleeps.
\<close>

fun futex_call :: "cpc \<Rightarrow> (futex \<times> int \<times> u32) option" where
  "futex_call (In_wait (W_futex seq g)) = Some (F_signals g, FUTEX_WAIT, 0)"
| "futex_call (In_wait (W_unref_wake seq g leave)) = Some (F_refs g, FUTEX_WAKE, INT_MAX)"
| "futex_call (In_wait (W_give_wake g)) = Some (F_signals g, FUTEX_WAKE, 1)"
| "futex_call (In_wait W_done_wake) = Some (F_wrefs, FUTEX_WAKE, INT_MAX)"
| "futex_call (In_signal j (Q_at (Q_futex r) g orig start)) = Some (F_refs g, FUTEX_WAIT, r)"
| "futex_call (In_signal j (S_wake_first g seq)) = Some (F_signals g, FUTEX_WAKE, INT_MAX)"
| "futex_call (In_signal Sig (S_wake g)) = Some (F_signals g, FUTEX_WAKE, 1)"
| "futex_call (In_signal Bcast (S_wake g)) = Some (F_signals g, FUTEX_WAKE, INT_MAX)"
| "futex_call (In_destroy (D_futex w)) = Some (F_wrefs, FUTEX_WAIT, w)"
| "futex_call _ = None"

fun after_call :: "cpc \<Rightarrow> cpc" where
  "after_call (In_wait (W_futex seq g)) = In_wait (W_unref seq g False)"
| "after_call (In_wait (W_unref_wake seq g leave)) = In_wait (after_unref seq g leave)"
| "after_call (In_wait (W_give_wake g)) = In_wait W_done"
| "after_call (In_wait W_done_wake) = In_wait W_relock"
| "after_call (In_signal j (Q_at (Q_futex r) g orig start)) = In_signal j (Q_at Q_reload g orig start)"
| "after_call (In_signal j (S_wake_first g seq)) = In_signal j (Q_check g seq)"
| "after_call (In_signal j (S_wake g)) = Idle"
| "after_call (In_destroy (D_futex w)) = In_destroy D_reload"
| "after_call p = p"

fun sleep_pc :: "cpc \<Rightarrow> cpc" where
  "sleep_pc (In_wait (W_futex seq g)) = In_wait (W_blocked seq g)"
| "sleep_pc (In_signal j (Q_at (Q_futex r) g orig start)) = In_signal j (Q_at Q_blocked g orig start)"
| "sleep_pc (In_destroy (D_futex w)) = In_destroy D_blocked"
| "sleep_pc p = p"

section \<open>The condition variable on an operating system\<close>

record 'k cond_os_sys =
  co_os :: 'k
  co_sys :: cond_sys

definition co_goto :: "tid \<Rightarrow> cpc \<Rightarrow> 'k \<Rightarrow> 'k cond_os_sys \<Rightarrow> 'k cond_os_sys" where
  "co_goto t p k s = \<lparr>co_os = k, co_sys = cmove t p id (co_sys s)\<rparr>"

text \<open>What userspace does on its own: an action of \<open>Cond_Conc\<close>, whose stores go to memory.\<close>

definition cond_user_step ::
  "'k os \<Rightarrow> addr \<Rightarrow> cond_action \<Rightarrow> 'k cond_os_sys \<Rightarrow> 'k cond_os_sys option" where
  "cond_user_step os base c s =
     map_option (\<lambda>v. \<lparr>co_os = store_words os base (cv v) (co_os s), co_sys = v\<rparr>) (cond_act c (co_sys s))"

definition cond_step_os ::
  "'k os \<Rightarrow> addr \<Rightarrow> tid \<Rightarrow> bool \<Rightarrow> 'k cond_os_sys \<Rightarrow> 'k cond_os_sys option" where
  "cond_step_os os base t spurious s =
     (let p = cpcs (co_sys s) t in
      case futex_call p of
        Some (f, futex_op, val) \<Rightarrow>
          (case os_futex os t (futex_addr base f) futex_op val (co_os s) of
             (Some ret, k) \<Rightarrow> Some (co_goto t (after_call p) k s)
           | (None, k) \<Rightarrow> Some (co_goto t (sleep_pc p) k s))
      | None \<Rightarrow>
          if blocked_on p = None then cond_user_step os base (Cstep t spurious t) s
          else map_option (\<lambda>k. co_goto t (futex_return p) k s) (os_resume os t (co_os s)))"

text \<open>The kernel decides whom a wake-up hits, and ends no wait by itself.\<close>

definition cond_os_act ::
  "'k os \<Rightarrow> addr \<Rightarrow> cond_action \<Rightarrow> 'k cond_os_sys \<Rightarrow> 'k cond_os_sys option" where
  "cond_os_act os base c s =
     (case c of
        Cstep t spurious u \<Rightarrow> cond_step_os os base t spurious s
      | Return t \<Rightarrow> None
      | _ \<Rightarrow> cond_user_step os base c s)"

lemma co_goto_simps [simp]:
  "co_os (co_goto t p k s) = k" "co_sys (co_goto t p k s) = cmove t p id (co_sys s)"
  by (simp_all add: co_goto_def)

text \<open>The calls, as \<open>Cond_Conc\<close> has them.\<close>

lemma cond_step_futex_wait:
  assumes "futex_call (cpcs s t) = Some (f, FUTEX_WAIT, val)"
  shows "cond_step t sp u s =
    Some (cmove t (if futex_word (cv s) f = val then sleep_pc (cpcs s t) else after_call (cpcs s t)) id s)"
  using assms by (cases "cpcs s t" rule: futex_call.cases)
    (auto simp: cond_step_def wgo_def sgo_def dgo_def syscall_codes)

lemma cond_step_futex_wake_all:
  assumes "futex_call (cpcs s t) = Some (f, FUTEX_WAKE, INT_MAX)"
  shows "cond_step t sp u s = Some (wake_all f (cmove t (after_call (cpcs s t)) id s))"
  using assms by (cases "cpcs s t" rule: futex_call.cases)
    (auto simp: cond_step_def wgo_def sgo_def dgo_def syscall_codes INT_MAX_def)

lemma cond_step_futex_wake_one:
  assumes "futex_call (cpcs s t) = Some (f, FUTEX_WAKE, 1)"
  shows "cond_step t sp u s = wake_one f u (cmove t (after_call (cpcs s t)) id s)"
  using assms by (cases "cpcs s t" rule: futex_call.cases)
    (auto simp: cond_step_def wgo_def sgo_def dgo_def syscall_codes INT_MAX_def)

lemma futex_call_cases:
  assumes "futex_call p = Some (f, futex_op, val)"
  obtains "futex_op = FUTEX_WAIT" | "futex_op = FUTEX_WAKE" "val = INT_MAX" | "futex_op = FUTEX_WAKE" "val = 1"
  using assms by (cases p rule: futex_call.cases) auto


section \<open>Groups\<close>

text \<open>The indices of groups a thread works with are 0 and 1.\<close>

fun pc_group :: "cpc \<Rightarrow> u32 option" where
  "pc_group (In_wait p) =
     (case p of
        W_slot g start \<Rightarrow> Some g | W_again g start v \<Rightarrow> Some g | W_give g start v \<Rightarrow> Some g
      | W_give_wake g \<Rightarrow> Some g | W_stolen seq g \<Rightarrow> Some g
      | _ \<Rightarrow> map_option snd (waiter_seq (In_wait p)))"
| "pc_group (In_signal j p) =
     (case p of
        S_size g seq \<Rightarrow> Some g | S_wake_first g seq \<Rightarrow> Some g | Q_check g seq \<Rightarrow> Some g
      | Q_at q g orig start \<Rightarrow> Some g | Q_orig g n \<Rightarrow> Some g | Q_orig_cas g n old \<Rightarrow> Some g
      | S_post g \<Rightarrow> Some g | S_unlock w \<Rightarrow> w | S_wake g \<Rightarrow> Some g | _ \<Rightarrow> None)"
| "pc_group _ = None"

definition group_ok :: "cpc \<Rightarrow> bool" where
  "group_ok p \<longleftrightarrow> (\<forall>g. pc_group p = Some g \<longrightarrow> g = 0 \<or> g = 1)"

lemma GAnother_cases: "g = 0 \<or> g = 1 \<Longrightarrow> GAnother g = 0 \<or> GAnother g = 1"
  by (auto simp: GAnother_def GroupBit_def)

lemma group_ok_wait:
  assumes ok: "group_ok (In_wait p)" and step: "pthread_cond_wait t sp u p s = Some s'"
    and call: "futex_call (In_wait p) = None" and pc: "cpcs s t = In_wait p"
  shows "group_ok (cpcs s' t) \<and> blocked_on (cpcs s' t) = None"
  using assms by (cases p)
    (auto simp: group_ok_def wgo_def consume_head_def after_unref_def Let_def wait_leave_def
       split: if_splits prod.splits bool.splits)

lemma group_ok_signal:
  assumes ok: "group_ok (In_signal j p)" and step: "signal_step t sp u j p s = Some s'"
    and call: "futex_call (In_signal j p) = None" and pc: "cpcs s t = In_signal j p"
  shows "group_ok (cpcs s' t) \<and> blocked_on (cpcs s' t) = None"
proof (cases "\<exists>q g orig start. p = Q_at q g orig start")
  case True
  then obtain q g orig start where p: "p = Q_at q g orig start" by blast
  have "GAnother g = 0 \<or> GAnother g = 1" using ok p by (intro GAnother_cases) (simp add: group_ok_def)
  with assms show ?thesis unfolding p by (cases q)
    (auto simp: group_ok_def sgo_def quiesce_head_def Let_def split: if_splits prod.splits)
next
  case False
  have "GAnother (G2 (atomic_load (wseq (cv s)))) = 0 \<or> GAnother (G2 (atomic_load (wseq (cv s)))) = 1"
    by (intro GAnother_cases G2_cases)
  with False assms show ?thesis by (cases p)
    (auto simp: group_ok_def sgo_def Let_def split: if_splits prod.splits bool.splits option.splits job.splits)
qed

lemma group_ok_destroy:
  assumes step: "destroy_step t p s = Some s'" and call: "futex_call (In_destroy p) = None"
  shows "group_ok (cpcs s' t) \<and> blocked_on (cpcs s' t) = None"
  using assms by (cases p)
    (auto simp: group_ok_def dgo_def destroy_head_def split: if_splits prod.splits)


section \<open>Steps that stay in userspace\<close>

text \<open>
  Such a step depends, of all threads, on the point of its own only, and changes no other: it is
  the same step whatever the other threads' points \<open>X\<close> are.
\<close>

definition own_step :: "tid \<Rightarrow> (cond_sys \<Rightarrow> cond_sys option) \<Rightarrow> cond_sys \<Rightarrow> cond_sys \<Rightarrow> bool" where
  "own_step t f s v \<longleftrightarrow> cpcs v = (cpcs s)(t := cpcs v t) \<and> nthreads v = nthreads s \<and>
     (\<forall>X. X t = cpcs s t \<longrightarrow> f (s\<lparr>cpcs := X\<rparr>) = Some (v\<lparr>cpcs := X(t := cpcs v t)\<rparr>))"

lemma own_step_wait:
  assumes "pthread_cond_wait t sp u p s = Some v" and "futex_call (In_wait p) = None"
  shows "own_step t (pthread_cond_wait t sp u p) s v"
  using assms unfolding own_step_def
  by (cases p) (auto simp: wgo_def cmove_def Let_def fun_upd_idem split: if_splits prod.splits bool.splits)

lemma own_step_signal:
  assumes "signal_step t sp u j p s = Some v" and "futex_call (In_signal j p) = None"
    and "cpcs s t = In_signal j p"
  shows "own_step t (signal_step t sp u j p) s v"
proof (cases "\<exists>q g orig start. p = Q_at q g orig start")
  case True
  then obtain q g orig start where p: "p = Q_at q g orig start" by blast
  with assms show ?thesis unfolding p own_step_def by (cases q)
    (auto simp: sgo_def cmove_def Let_def fun_upd_idem split: if_splits prod.splits)
next
  case False
  with assms show ?thesis unfolding own_step_def by (cases p)
    (auto simp: sgo_def cmove_def Let_def fun_upd_idem
       split: if_splits prod.splits bool.splits option.splits job.splits)
qed

lemma own_step_destroy:
  assumes "destroy_step t p s = Some v" and "futex_call (In_destroy p) = None"
  shows "own_step t (destroy_step t p) s v"
  using assms unfolding own_step_def
  by (cases p) (auto simp: dgo_def cmove_def fun_upd_idem split: if_splits prod.splits)


lemma own_step_cond_step:
  assumes step: "cond_step t sp u s = Some v" and call: "futex_call (cpcs s t) = None"
    and group: "group_ok (cpcs s t)"
  shows "own_step t (cond_step t sp u) s v \<and> group_ok (cpcs v t) \<and> blocked_on (cpcs v t) = None"
proof (cases "cpcs s t")
  case (In_wait p)
  have "own_step t (cond_step t sp u) s v" if "own_step t (pthread_cond_wait t sp u p) s v"
    using that In_wait by (simp add: own_step_def cond_step_def)
  with In_wait assms own_step_wait [of t sp u p s v] group_ok_wait [of p t sp u s v] show ?thesis
    by (simp add: cond_step_def)
next
  case (In_signal j p)
  have "own_step t (cond_step t sp u) s v" if "own_step t (signal_step t sp u j p) s v"
    using that In_signal by (simp add: own_step_def cond_step_def)
  with In_signal assms own_step_signal [of t sp u j p s v] group_ok_signal [of j p t sp u s v] show ?thesis
    by (simp add: cond_step_def)
next
  case (In_destroy p)
  have "own_step t (cond_step t sp u) s v" if "own_step t (destroy_step t p) s v"
    using that In_destroy by (simp add: own_step_def cond_step_def)
  with In_destroy assms own_step_destroy [of t p s v] group_ok_destroy [of t p s v] show ?thesis
    by (simp add: cond_step_def)
qed (use step in \<open>simp add: cond_step_def\<close>)

text \<open>Whose action it is.\<close>

fun actor :: "cond_action \<Rightarrow> nat \<Rightarrow> tid" where
  "actor (Lock_mutex t) n = t"
| "actor (Unlock_mutex t) n = t"
| "actor (Call_wait t) n = t"
| "actor (Call_signal t) n = t"
| "actor (Call_broadcast t) n = t"
| "actor (Call_destroy t) n = t"
| "actor (Cstep t sp u) n = t"
| "actor (Return t) n = t"
| "actor Contend n = n"

definition stays_user :: "cond_action \<Rightarrow> cond_sys \<Rightarrow> bool" where
  "stays_user c s \<longleftrightarrow> (case c of Return t \<Rightarrow> False
     | Cstep t sp u \<Rightarrow> futex_call (cpcs s t) = None \<and> blocked_on (cpcs s t) = None | _ \<Rightarrow> True)"

lemma own_step_call:
  assumes "call t p s = Some v"
  shows "own_step t (call t p) s v \<and> cpcs v t = p \<and> t < nthreads s \<and> cpcs s t = Idle"
  using assms by (auto simp: own_step_def call_def cmove_def split: if_splits)

lemma own_step_cond_act:
  assumes act: "cond_act c s = Some v" and user: "stays_user c s"
    and idle: "\<And>t. nthreads s \<le> t \<Longrightarrow> cpcs s t = Idle" and group: "\<And>t. group_ok (cpcs s t)"
  defines "t \<equiv> actor c (nthreads s)"
  shows "own_step t (cond_act c) s v" and "group_ok (cpcs v t)"
    and "blocked_on (cpcs s t) = None \<and> blocked_on (cpcs v t) = None"
    and "nthreads s \<le> t \<Longrightarrow> cpcs v t = Idle"
proof -
  have "own_step t (cond_act c) s v \<and> group_ok (cpcs v t) \<and>
      (blocked_on (cpcs s t) = None \<and> blocked_on (cpcs v t) = None) \<and> (nthreads s \<le> t \<longrightarrow> cpcs v t = Idle)"
  proof (cases c)
    case (Lock_mutex u)
    with act show ?thesis
      by (auto simp: t_def own_step_def call_def cmove_def group_ok_def split: if_splits)
  next
    case (Unlock_mutex u)
    with act show ?thesis
      by (auto simp: t_def own_step_def call_def cmove_def group_ok_def split: if_splits)
  next
    case (Call_wait u)
    with act show ?thesis using G2_cases [of "wseq (cv s)"]
      by (auto simp: t_def own_step_def wgo_def cmove_def group_ok_def atomic_defs split: if_splits)
  next
    case (Cstep u sp w)
    have u: "u < nthreads s"
    proof (rule ccontr)
      assume "\<not> u < nthreads s"
      with idle [of u] act Cstep show False by (simp add: cond_step_def)
    qed
    with own_step_cond_step [of u sp w s v] act user group [of u] Cstep show ?thesis
      by (auto simp: t_def own_step_def stays_user_def)
  next
    case Contend
    with act idle [of "nthreads s"] show ?thesis
      by (auto simp: t_def own_step_def group_ok_def fun_upd_idem split: if_splits)
  qed (use act user in \<open>auto simp: t_def stays_user_def group_ok_def own_step_def call_def cmove_def split: if_splits\<close>)
  then show "own_step t (cond_act c) s v" and "group_ok (cpcs v t)"
    and "blocked_on (cpcs s t) = None \<and> blocked_on (cpcs v t) = None"
    and "nthreads s \<le> t \<Longrightarrow> cpcs v t = Idle" by blast+
qed

end
