(* ===== verification/Cond_Props.thy ===== *)
theory Cond_Props
  imports Cond_Inv
begin

text \<open>
  The properties of the concurrent condition variable, with the executions that witness them.
\<close>

section \<open>Executions\<close>

abbreviation steps :: "tid \<Rightarrow> nat \<Rightarrow> cond_action list" where
  "steps t n \<equiv> replicate n (Cstep t False 0)"

definition enter_wait :: "tid \<Rightarrow> cond_action list" where
  "enter_wait t = Lock_mutex t # Call_wait t # steps t 2"

definition cond_sys0 :: cond_sys where
  "cond_sys0 = \<lparr>cv = pthread_cond_init zero_cond, mutex_owner = None, cpcs = (\<lambda>_. Idle), nthreads = 6\<rparr>"

lemma cond_start_0: "cond_start cond_sys0"
  by (auto simp: cond_start_def cond_sys0_def)

text \<open>
  The execution that loses a signal. Thread 0 consumes a signal and stops before it reads
  \<^verbatim>\<open>g1_start\<close>; the groups are switched twice, so that its slot is G1 again, with the threads 2 and
  3; it gives back a signal it never stole, and thread 3 leaves with it. So G1 counts an
  unsignalled waiter that does not exist when thread 4 comes.
\<close>

definition stolen_signal :: "cond_action list" where
  "stolen_signal =
     enter_wait 0 @ Call_signal 5 # steps 5 15 @ steps 0 2 @
     enter_wait 1 @ Call_signal 5 # steps 5 15 @ steps 1 5 @ [Unlock_mutex 1] @
     enter_wait 2 @ enter_wait 3 @ Call_signal 5 # steps 5 15 @
     steps 0 7 @ [Unlock_mutex 0] @ steps 2 5 @ [Unlock_mutex 2] @ steps 3 5 @ [Unlock_mutex 3] @
     enter_wait 4 @ steps 4 5"

definition cond_example :: cond_sys where
  "cond_example = the (run_sched cond_act stolen_signal cond_sys0)"

text \<open>Thread 1 destroys the condition variable while thread 0 still waits, and blocks until it leaves.\<close>

definition destroy_late :: "cond_action list" where
  "destroy_late =
     enter_wait 0 @ Call_signal 5 # steps 5 15 @ steps 0 3 @
     Call_destroy 1 # steps 1 2 @ steps 0 2"

definition destroy_example :: cond_sys where
  "destroy_example = the (run_sched cond_act destroy_late cond_sys0)"

lemma cond_example_run:
  "run_sched cond_act stolen_signal cond_sys0 = Some cond_example"
  "cpcs cond_example 4 = In_wait (W_blocked 4 1)"
  "State (g1_orig_size (cv cond_example)) = three_states_unlocked"
proof -
  have "case run_sched cond_act stolen_signal cond_sys0 of None \<Rightarrow> False | Some s \<Rightarrow>
      cpcs s 4 = In_wait (W_blocked 4 1) \<and> State (g1_orig_size (cv s)) = three_states_unlocked"
    by code_simp
  then show "run_sched cond_act stolen_signal cond_sys0 = Some cond_example"
    "cpcs cond_example 4 = In_wait (W_blocked 4 1)"
    "State (g1_orig_size (cv cond_example)) = three_states_unlocked"
    by (auto simp: cond_example_def split: option.splits)
qed

lemma cond_example_reachable: "reachable cond_act cond_start cond_example"
  by (rule run_sched_from_init [where init = cond_start, OF cond_start_0 cond_example_run(1)])

lemma destroy_example_run:
  "run_sched cond_act destroy_late cond_sys0 = Some destroy_example"
  "cpcs destroy_example 0 = In_wait W_relock" "cpcs destroy_example 1 = In_destroy D_reload"
  "WaitersRef (wrefs (cv destroy_example)) = 0"
proof -
  have "case run_sched cond_act destroy_late cond_sys0 of None \<Rightarrow> False | Some s \<Rightarrow>
      cpcs s 0 = In_wait W_relock \<and> cpcs s 1 = In_destroy D_reload \<and> WaitersRef (wrefs (cv s)) = 0"
    by code_simp
  then show "run_sched cond_act destroy_late cond_sys0 = Some destroy_example"
    "cpcs destroy_example 0 = In_wait W_relock" "cpcs destroy_example 1 = In_destroy D_reload"
    "WaitersRef (wrefs (cv destroy_example)) = 0"
    by (auto simp: destroy_example_def split: option.splits)
qed

lemma destroy_example_reachable: "reachable cond_act cond_start destroy_example"
  by (rule run_sched_from_init [where init = cond_start, OF cond_start_0 destroy_example_run(1)])

section \<open>Properties\<close>

text \<open>C8: the data behind the inner lock. At most one thread is in a critical section of signal or
  broadcast, and the lock word says so; whenever nobody is, both sequence words name the same
  group, G1 does not extend past the waiters that have arrived, no more of its waiters are
  unsignalled than it has, and every waiter that is still in the waiting loop and not in a closed
  group is in the group its position says: G1 below the start of G2 and G2 from there on.\<close>

theorem cond_inner_lock_protects:
  assumes "reachable cond_act cond_start s"
  shows "(\<exists>\<^sub>\<le>\<^sub>1 t. holds_inner (cpcs s t)) \<and>
    (State (g1_orig_size (cv s)) = three_states_unlocked \<longleftrightarrow> (\<nexists>t. holds_inner (cpcs s t))) \<and>
    (State (g1_orig_size (cv s)) = three_states_unlocked \<longrightarrow>
       cond_ok (cv s) \<and>
       (\<forall>t seq g. waiter_seq (cpcs s t) = Some (seq, g) \<and> unat (old_g1_start (cv s)) \<le> unat seq \<longrightarrow>
          g = (if unat seq < g2_start (cv s) then g1_index (cv s) else G2 (wseq (cv s)))))"
proof -
  have inv: "inner_ok s" "(\<nexists>t. holds_inner (cpcs s t)) \<Longrightarrow> phase_ok Idle s"
    using cond.reachable_inv [OF assms] by (simp_all add: cond_inv_def)
  have "cond_ok (cv s) \<and> (\<forall>t. waiter_ok (g2_start (cv s)) (cv s) (cpcs s t))"
    if "\<nexists>t. holds_inner (cpcs s t)"
    using inv(2) [OF that] by (simp add: phase_ok_def)
  with inv(1) show ?thesis unfolding inner_ok_def waiter_ok_def Uniq_def by blast
qed

theorem cond_inner_lock_protects_witness:
  "reachable cond_act cond_start cond_example \<and> cond_ok (cv cond_example)"
  using cond_inner_lock_protects [OF cond_example_reachable] cond_example_run(3)
    cond_example_reachable by simp

text \<open>C2: no waiter sleeps in a closed group. A thread asleep in the kernel, or about to go to
  sleep, has a position that is not below \<^verbatim>\<open>g1_start\<close>, whatever switches of the groups have
  happened since it joined; in particular no thread of a group is there when a signaler, having
  seen the references of this group drop to zero, advances \<^verbatim>\<open>g1_start\<close> and reopens the slot.\<close>

theorem no_waiter_sleeps_in_closed_group:
  assumes "reachable cond_act cond_start s"
    and "waiter_seq (cpcs s t) = Some (seq, g)" and "blocking (cpcs s t)"
  shows "unat (old_g1_start (cv s)) \<le> unat seq \<and> unat seq < arrived (cv s) \<and>
    (\<forall>u j q orig start. cpcs s u = In_signal j (Q_at q g orig start) \<longrightarrow> q \<noteq> Q_advance \<and> q \<noteq> Q_reopen)"
proof -
  have inv: "cond_inv s" using cond.reachable_inv [OF assms(1)] .
  obtain p where p: "phase_ok p s" and hold: "\<And>u. holds_inner (cpcs s u) \<Longrightarrow> cpcs s u = p"
    using cond_inv_phase [OF inv] by blast
  have "admitted g (cpcs s t)"
    using assms(2,3) by (cases "cpcs s t" rule: blocking.cases) auto
  then have "q \<noteq> Q_advance \<and> q \<noteq> Q_reopen" if "cpcs s u = In_signal j (Q_at q g orig start)"
    for u j q orig start
    using hold [of u] that p by (auto simp: phase_ok_def)
  with p assms(2,3) show ?thesis unfolding phase_ok_def waiter_ok_def by blast
qed

theorem no_waiter_sleeps_in_closed_group_witness:
  "cpcs cond_example 4 = In_wait (W_blocked 4 1) \<and> unat (old_g1_start (cv cond_example)) \<le> 4"
  using no_waiter_sleeps_in_closed_group [OF cond_example_reachable, of 4 4 1] cond_example_run(2)
  by simp

text \<open>Only the calls of wait count: no other step changes how many waiters have arrived.\<close>

lemma arrived_wseq: "wseq c' = wseq c \<Longrightarrow> arrived c' = arrived c"
  by (simp add: arrived_def)

lemma wake_one_cv: "wake_one f u s = Some s' \<Longrightarrow> cv s' = cv s"
  by (auto simp: wake_one_def split: if_splits)

lemma wake_all_cv [simp]: "cv (wake_all f s) = cv s"
  by (simp add: wake_all_def)

lemmas wseq_steps = signaler_steps post_def wait_leave_def inner_lock_def inner_unlock_def
  set_signals_def set_refs_def set_wrefs_def atomic_defs

lemma wait_arrived: "pthread_cond_wait t sp u p s = Some s' \<Longrightarrow> arrived (cv s') = arrived (cv s)"
  by (cases p) (auto simp: wgo_def cmove_def wseq_steps Let_def
      intro!: arrived_wseq split: if_splits prod.splits dest!: wake_one_cv)

lemma switch_arrived: "switch_step t j q g orig start s = Some s' \<Longrightarrow> arrived (cv s') = arrived (cv s)"
  by (cases q) (auto simp: arrived_def sgo_def cmove_def wseq_steps Let_def split: if_splits prod.splits)

lemma signal_arrived: "signal_step t sp u j p s = Some s' \<Longrightarrow> arrived (cv s') = arrived (cv s)"
  by (cases p) (auto simp: sgo_def cmove_def wseq_steps Let_def switch_arrived
      intro!: arrived_wseq split: if_splits prod.splits option.splits job.splits dest!: wake_one_cv)

lemma destroy_arrived: "destroy_step t p s = Some s' \<Longrightarrow> arrived (cv s') = arrived (cv s)"
  by (cases p) (auto simp: dgo_def cmove_def set_wrefs_def atomic_defs intro!: arrived_wseq)

lemma act_arrived:
  "cond_act a s = Some s' \<Longrightarrow> \<forall>t. a \<noteq> Call_wait t \<Longrightarrow> arrived (cv s') = arrived (cv s)"
  by (cases a) (auto simp: call_def cmove_def cond_step_def intro: arrived_wseq
      split: if_splits cpc.splits dest: wait_arrived signal_arrived destroy_arrived)

lemma code_act_bounded:
  assumes "cond_code_act a s = Some s'" and "arrived (cv s) + waits [a] < 2 ^ 29"
  shows "cond_act a s = Some s' \<and> arrived (cv s') = arrived (cv s) + waits [a]"
proof (cases a)
  case (Call_wait t)
  with assms have room: "arrived (cv s) + 1 < 2 ^ 29" by simp
  with Call_wait assms(1) arrival_views(1) [OF room] arrival_room_iff [of "cv s"] show ?thesis
    by (auto simp: cond_code_act_def atomic_defs wgo_def cmove_def split: if_splits)
qed (use assms act_arrived [of a s s'] in \<open>simp_all add: cond_code_act_def\<close>)

lemma code_run_bounded:
  "run_sched cond_code_act cs s = Some s' \<Longrightarrow> arrived (cv s) + waits cs < 2 ^ 29 \<Longrightarrow>
    run_sched cond_act cs s = Some s' \<and> arrived (cv s') = arrived (cv s) + waits cs"
proof (induction cs arbitrary: s)
  case (Cons a cs)
  then obtain v where v: "cond_code_act a s = Some v" "run_sched cond_code_act cs v = Some s'"
    by (auto split: option.splits)
  have "cond_act a s = Some v \<and> arrived (cv v) = arrived (cv s) + waits [a]"
    by (rule code_act_bounded [OF v(1)]) (use Cons.prems(2) in simp)
  with Cons.IH [OF v(2)] Cons.prems(2) show ?case by simp
qed simp

lemma count_filter: "count p s = length (filter (\<lambda>t. p (cpcs s t)) [0..<nthreads s])"
proof -
  have "{t. t < nthreads s \<and> p (cpcs s t)} = set (filter (\<lambda>t. p (cpcs s t)) [0..<nthreads s])" by auto
  then show ?thesis by (simp only: count_def distinct_card distinct_filter distinct_upt)
qed

text \<open>C25: the reference counters. After any execution of the code with fewer than \<open>2 ^ 29\<close> calls
  of wait, \<^verbatim>\<open>wrefs\<close> counts the threads between the stages 2 and 5 of a wait, and \<^verbatim>\<open>g_refs[g]\<close>
  the threads of the group between taking a reference and dropping it in \<^verbatim>\<open>dec_grefs\<close>, next to
  the flag bits they share a word with. The position in \<^verbatim>\<open>wseq\<close> is the number of the calls of wait
  so far, and neither counter exceeds it: \<^verbatim>\<open>wrefs\<close>, with 29 bits for its count, does not wrap
  around, and nor do the others.\<close>

theorem cond_reference_counts:
  assumes "cond_start s0" and "run_sched cond_code_act cs s0 = Some s" and "waits cs < 2 ^ 29"
    and "g = 0 \<or> g = 1"
  shows "unat (WaitersRef (wrefs (cv s))) = count has_wref s \<and>
    unat (drop_bit 1 (g_refs (cv s) g)) = count (has_gref g) s \<and>
    arrived (cv s) = waits cs \<and>
    count has_wref s \<le> waits cs \<and> count (has_gref g) s \<le> count has_wref s"
proof -
  have "arrived (cv s0) = 0"
    using assms(1) by (auto simp: cond_start_def arrived_def pthread_cond_init_def Seq_def)
  with code_run_bounded [OF assms(2)] assms(3)
  have run: "run_sched cond_act cs s0 = Some s" and arr: "arrived (cv s) = waits cs" by simp_all
  have refs: "unat (wrefs (cv s)) div 8 = count has_wref s"
    "unat (g_refs (cv s) g) div 2 = count (has_gref g) s" "count waiting s \<le> arrived (cv s)"
    using cond.reachable_inv [OF run_sched_from_init [where init = cond_start, OF assms(1) run]] assms(4)
    by (auto simp: cond_inv_def refs_ok_def)
  have "unat (WaitersRef (wrefs (cv s))) = count has_wref s"
    using refs(1) by (simp add: WaitersRef_unat)
  moreover have "unat (drop_bit 1 (g_refs (cv s) g)) = count (has_gref g) s"
    by (simp only: unat_drop_bit_eq) (use refs(2) in \<open>simp add: drop_bit_Suc\<close>)
  moreover have "has_gref g p \<Longrightarrow> has_wref p" for p
    by (cases "(g, p)" rule: has_gref.cases) auto
  ultimately show ?thesis
    using refs arr count_mono [of has_wref waiting s] has_wref_waiting count_mono [of "has_gref g" has_wref s]
    by (metis order_trans)
qed

text \<open>In the execution of \<open>stolen_signal\<close>, with five waits, the thread that is left is counted in
  both words.\<close>

theorem cond_reference_counts_witness:
  "\<exists>s. run_sched cond_code_act stolen_signal cond_sys0 = Some s \<and> arrived (cv s) = 5 \<and>
     unat (WaitersRef (wrefs (cv s))) = 1 \<and> unat (drop_bit 1 (g_refs (cv s) 1)) = 1"
proof -
  have "case run_sched cond_code_act stolen_signal cond_sys0 of None \<Rightarrow> False | Some s \<Rightarrow>
      waits stolen_signal = 5 \<and> length (filter (\<lambda>t. has_wref (cpcs s t)) [0..<nthreads s]) = 1 \<and>
      length (filter (\<lambda>t. has_gref 1 (cpcs s t)) [0..<nthreads s]) = 1"
    by code_simp
  with cond_reference_counts [OF cond_start_0, of stolen_signal _ 1] show ?thesis
    by (auto simp: count_filter simp del: run_sched.simps split: option.splits)
qed

text \<open>C20: \<^verbatim>\<open>pthread_cond_destroy\<close> returns only when no waiter uses the condition variable: at the
  step with which it returns, no thread is between the stages 2 and 5 of a wait, where it would
  still access the structure.\<close>

theorem cond_destroy_waits_for_waiters:
  assumes "reachable cond_act cond_start s"
    and "cond_act (Cstep t sp u) s = Some s'"
    and "cpcs s t = In_destroy p" and "cpcs s' t = In_destroy D_done"
  shows "\<not> has_wref (cpcs s' v)"
proof
  assume v: "has_wref (cpcs s' v)"
  have inv: "cond_inv s'"
    using cond.reachable_inv [OF assms(1)] assms(2) by (rule cond.act_inv)
  have step: "destroy_step t p s = Some s'" using assms(2,3) by (simp add: cond_step_def)
  then have "WaitersRef (wrefs (cv s')) = 0"
    using assms(4) by (cases p)
      (auto simp: atomic_defs dgo_def destroy_head_def set_wrefs_def split: if_splits)
  then have "count has_wref s' = 0"
    using inv WaitersRef_unat [of "wrefs (cv s')"] by (simp add: cond_inv_def refs_ok_def)
  moreover have "v < nthreads s'" using thread_bound [OF inv, of v] v by (cases "cpcs s' v") auto
  ultimately show False using count_pos [of v s' has_wref] v by simp
qed

theorem cond_destroy_waits_for_waiters_witness:
  "\<exists>s'. cond_act (Cstep 1 False 0) destroy_example = Some s' \<and> cpcs s' 1 = In_destroy D_done \<and>
     \<not> has_wref (cpcs s' 0)"
proof -
  have step: "cond_act (Cstep 1 False 0) destroy_example = Some (dgo 1 D_done id destroy_example)"
    using destroy_example_run(3,4)
    by (simp add: cond_step_def destroy_head_def atomic_load_def del: One_nat_def)
  have "cpcs (dgo 1 D_done id destroy_example) 1 = In_destroy D_done" by (simp add: dgo_def)
  with cond_destroy_waits_for_waiters [OF destroy_example_reachable step destroy_example_run(3), of 0] step
  show ?thesis by blast
qed

text \<open>C13: a signal can be lost. In the state after this execution thread 4 is the only thread
  that uses the condition variable, and it is asleep; a \<^verbatim>\<open>pthread_cond_signal\<close> that then runs from
  its call to its return wakes nobody, and thread 4 sleeps on.\<close>

theorem cond_signal_can_be_lost:
  "\<exists>s s'. cond_start cond_sys0 \<and> run_sched cond_act stolen_signal cond_sys0 = Some s \<and>
     map (cpcs s) [0..<nthreads s] = [Idle, Idle, Idle, Idle, In_wait (W_blocked 4 1), Idle] \<and>
     run_sched cond_act (Call_signal 5 # steps 5 6) s = Some s' \<and>
     map (cpcs s') [0..<nthreads s'] = map (cpcs s) [0..<nthreads s]"
proof -
  have "case run_sched cond_act stolen_signal cond_sys0 of None \<Rightarrow> False | Some s \<Rightarrow>
      map (cpcs s) [0..<nthreads s] = [Idle, Idle, Idle, Idle, In_wait (W_blocked 4 1), Idle] \<and>
      (case run_sched cond_act (Call_signal 5 # steps 5 6) s of None \<Rightarrow> False | Some s' \<Rightarrow>
         map (cpcs s') [0..<nthreads s'] = [Idle, Idle, Idle, Idle, In_wait (W_blocked 4 1), Idle])"
    by code_simp
  then show ?thesis using cond_start_0 by (auto simp del: run_sched.simps split: option.splits)
qed

end
