(* ===== verification/Cond_Kernel.thy ===== *)
theory Cond_Kernel
  imports Cond_Os Cond_Props
begin

text \<open>
  The condition variable of \<open>Cond_Os\<close> with the kernel of \<^verbatim>\<open>kernel/k_futex.h\<close> behind its calls is an
  instance of the system of \<open>Cond_Conc\<close>: first for any operating system that keeps the contract of
  \<open>Futex_Service\<close>, then for the kernel.
\<close>

section \<open>The abstraction\<close>

text \<open>A thread that has been woken but has not run since is past its wait in \<open>Cond_Conc\<close>.\<close>

definition seen_pc :: "('k \<Rightarrow> tid \<Rightarrow> bool) \<Rightarrow> 'k cond_os_sys \<Rightarrow> tid \<Rightarrow> cpc" where
  "seen_pc pend s t =
     (let p = cpcs (co_sys s) t in
      if blocked_on p \<noteq> None \<and> pend (co_os s) t then futex_return p else p)"

definition cond_abs :: "('k \<Rightarrow> tid \<Rightarrow> bool) \<Rightarrow> 'k cond_os_sys \<Rightarrow> cond_sys" where
  "cond_abs pend s = (co_sys s)\<lparr>cpcs := seen_pc pend s\<rparr>"

definition words_stored :: "'k os \<Rightarrow> addr \<Rightarrow> pthread_cond_t \<Rightarrow> 'k \<Rightarrow> bool" where
  "words_stored os base c k \<longleftrightarrow>
     (\<forall>f \<in> set futex_words. os_mem os k (futex_addr base f) = futex_word c f) \<and>
     os_mem os k (orig_addr base) = g1_orig_size c"

text \<open>
  The threads of the condition variable use no other futex while they are in its operations; other
  threads may sleep elsewhere.
\<close>

definition cond_os_start ::
  "'k os \<Rightarrow> ('k \<Rightarrow> addr \<Rightarrow> tid list) \<Rightarrow> ('k \<Rightarrow> bool) \<Rightarrow> nat \<Rightarrow> addr \<Rightarrow> 'k cond_os_sys \<Rightarrow> bool" where
  "cond_os_start os on ok N base s \<longleftrightarrow> ok (co_os s) \<and> nthreads (co_sys s) \<le> N \<and> cond_start (co_sys s) \<and>
     words_stored os base (cv (co_sys s)) (co_os s) \<and>
     (\<forall>f \<in> set futex_words. on (co_os s) (futex_addr base f) = []) \<and>
     (\<forall>b. \<forall>t \<in> set (on (co_os s) b). nthreads (co_sys s) \<le> t)"

text \<open>
  The words that a thread may be asleep on: besides those of its program point, the word \<open>L t\<close> of a
  lock it waits for. Here \<open>L\<close> is nowhere; the locks are those of \<open>Cond_Locks\<close>.
\<close>

definition sleeps_at :: "addr \<Rightarrow> addr option \<Rightarrow> cpc \<Rightarrow> addr \<Rightarrow> bool" where
  "sleeps_at base l p b \<longleftrightarrow>
     (case l of Some a \<Rightarrow> b = a | None \<Rightarrow> (\<exists>f. blocked_on p = Some f \<and> b = futex_addr base f))"

definition elsewhere_ok :: "addr \<Rightarrow> (tid \<Rightarrow> addr option) \<Rightarrow> cond_sys \<Rightarrow> bool" where
  "elsewhere_ok base L v \<longleftrightarrow> (\<forall>t a. L t = Some a \<longrightarrow>
     t < nthreads v \<and> blocked_on (cpcs v t) = None \<and> (\<forall>f \<in> set futex_words. futex_addr base f \<noteq> a))"

definition asleep_ok ::
  "('k \<Rightarrow> addr \<Rightarrow> tid list) \<Rightarrow> ('k \<Rightarrow> tid \<Rightarrow> bool) \<Rightarrow> addr \<Rightarrow> (tid \<Rightarrow> addr option) \<Rightarrow>
   'k cond_os_sys \<Rightarrow> bool" where
  "asleep_ok on pend base L s \<longleftrightarrow>
     (\<forall>f \<in> set futex_words. \<forall>t \<in> set (on (co_os s) (futex_addr base f)). t < nthreads (co_sys s)) \<and>
     (\<forall>t b. t < nthreads (co_sys s) \<longrightarrow>
        t \<in> set (on (co_os s) b) \<longleftrightarrow>
        sleeps_at base (L t) (cpcs (co_sys s) t) b \<and> \<not> pend (co_os s) t)"

definition cond_os_inv ::
  "'k os \<Rightarrow> ('k \<Rightarrow> addr \<Rightarrow> tid list) \<Rightarrow> ('k \<Rightarrow> tid \<Rightarrow> bool) \<Rightarrow> ('k \<Rightarrow> bool) \<Rightarrow> nat \<Rightarrow> addr \<Rightarrow>
   (tid \<Rightarrow> addr option) \<Rightarrow> 'k cond_os_sys \<Rightarrow> bool" where
  "cond_os_inv os on pend ok N base L s \<longleftrightarrow> ok (co_os s) \<and> nthreads (co_sys s) \<le> N \<and>
     words_stored os base (cv (co_sys s)) (co_os s) \<and> (\<forall>t. group_ok (cpcs (co_sys s) t)) \<and>
     (\<forall>t. nthreads (co_sys s) \<le> t \<longrightarrow> cpcs (co_sys s) t = Idle) \<and> elsewhere_ok base L (co_sys s) \<and>
     asleep_ok on pend base L s"

lemma cond_abs_simps [simp]:
  "cv (cond_abs pend s) = cv (co_sys s)" "nthreads (cond_abs pend s) = nthreads (co_sys s)"
  "mutex_owner (cond_abs pend s) = mutex_owner (co_sys s)" "cpcs (cond_abs pend s) = seen_pc pend s"
  by (simp_all add: cond_abs_def)

lemma blocked_futex_return [simp]: "blocked_on (futex_return p) = None"
  by (cases p rule: futex_return.cases) auto

lemma blocked_seen: "blocked_on (seen_pc pend s t) = Some f \<longleftrightarrow>
    blocked_on (cpcs (co_sys s) t) = Some f \<and> \<not> pend (co_os s) t"
  by (auto simp: seen_pc_def Let_def)

lemma group_ok_futex_return [simp]: "group_ok (futex_return p) = group_ok p"
  by (cases p rule: futex_return.cases) (simp_all add: group_ok_def)

lemma blocked_futex_words: "group_ok p \<Longrightarrow> blocked_on p = Some f \<Longrightarrow> f \<in> set futex_words"
  by (cases p rule: blocked_on.cases) (auto simp: group_ok_def futex_words_def)

lemma call_futex_words: "group_ok p \<Longrightarrow> futex_call p = Some (f, futex_op, val) \<Longrightarrow> f \<in> set futex_words"
  by (cases p rule: futex_call.cases) (auto simp: group_ok_def futex_words_def)

lemma futex_addr_inj:
  "f \<in> set futex_words \<Longrightarrow> f' \<in> set futex_words \<Longrightarrow> futex_addr base f = futex_addr base f' \<Longrightarrow> f = f'"
  by (auto simp: futex_words_def)

lemma call_pcs:
  assumes "futex_call p = Some (f, futex_op, val)"
  shows "blocked_on p = None" and "blocked_on (after_call p) = None"
    and "group_ok p \<Longrightarrow> group_ok (after_call p)" and "p \<noteq> Idle"
    and "futex_op = FUTEX_WAIT \<Longrightarrow> blocked_on (sleep_pc p) = Some f \<and> (group_ok p \<longrightarrow> group_ok (sleep_pc p))"
  using assms by (cases p rule: futex_call.cases; auto simp: group_ok_def after_unref_def syscall_codes)+

context futex_service begin

abbreviation "cabs \<equiv> cond_abs pend"
abbreviation "cinv base L \<equiv> cond_os_inv os on pend ok N base L"

lemma cond_start_os_inv: "cond_os_start os on ok N base s \<Longrightarrow> cinv base (\<lambda>_. None) s \<and> cond_start (cabs s)"
proof -
  assume s: "cond_os_start os on ok N base s"
  then have "asleep_ok on pend base (\<lambda>_. None) s"
    by (simp add: cond_os_start_def asleep_ok_def cond_start_def sleeps_at_def) (metis leD)
  with s show ?thesis
    by (simp add: cond_os_start_def cond_os_inv_def cond_start_def group_ok_def seen_pc_def elsewhere_ok_def
        fun_eq_iff)
qed

lemma store_words:
  assumes "ok k"
  shows "ok (store_words os base c k) \<and> words_stored os base c (store_words os base c k) \<and>
    on (store_words os base c k) = on k \<and> pend (store_words os base c k) = pend k \<and>
    (\<forall>b. b \<noteq> orig_addr base \<and> (\<forall>f \<in> set futex_words. futex_addr base f \<noteq> b) \<longrightarrow>
       os_mem os (store_words os base c k) b = os_mem os k b)"
  using assms by (auto simp: store_words_def futex_words_def words_stored_def orig_addr_def store_only)

text \<open>A thread moves on, and the kernel at most forgets that it had been woken.\<close>

lemma cinv_move:
  assumes inv: "cinv base L s" and t: "t < nthreads (co_sys s)" and k: "ok k" "os_mem os k = os_mem os (co_os s)"
      "on k = on (co_os s)" "\<And>u. u \<noteq> t \<Longrightarrow> pend k u = pend (co_os s) u"
    and p: "blocked_on p = None" "group_ok p"
    and left: "L t = None" "blocked_on (cpcs (co_sys s) t) = None \<or> pend (co_os s) t"
  shows "cinv base L (co_goto t p k s)" and "cabs (co_goto t p k s) = cmove t p id (cabs s)"
proof -
  have "asleep_ok on pend base L (co_goto t p k s)"
    using inv t k p left by (auto simp: cond_os_inv_def asleep_ok_def sleeps_at_def split: option.splits)
  moreover have "elsewhere_ok base L (co_sys (co_goto t p k s))"
    using inv left by (auto simp: cond_os_inv_def elsewhere_ok_def)
  ultimately show "cinv base L (co_goto t p k s)"
    using inv t k p by (auto simp: cond_os_inv_def words_stored_def)
  show "cabs (co_goto t p k s) = cmove t p id (cabs s)"
    using k p by (auto simp: cond_abs_def cmove_def seen_pc_def Let_def fun_eq_iff)
qed

lemma cond_user_simulated:
  assumes inv: "cinv base L s" and step: "cond_user_step os base c s = Some s'"
    and user: "stays_user c (co_sys s)" and L: "L (actor c (nthreads (co_sys s))) = None"
  shows "cinv base L s' \<and> cond_act c (cabs s) = Some (cabs s')"
proof -
  let ?s = "co_sys s" and ?t = "actor c (nthreads (co_sys s))"
  from step obtain v where act: "cond_act c ?s = Some v"
    and s': "s' = \<lparr>co_os = store_words os base (cv v) (co_os s), co_sys = v\<rparr>"
    by (auto simp: cond_user_step_def)
  from inv have ok: "ok (co_os s)" and idle: "\<And>t. nthreads ?s \<le> t \<Longrightarrow> cpcs ?s t = Idle"
    and group: "\<And>t. group_ok (cpcs ?s t)" by (simp_all add: cond_os_inv_def)
  note own = own_step_cond_act [OF act user idle group]
  from own(1) have pcs: "cpcs v = (cpcs ?s)(?t := cpcs v ?t)" and n: "nthreads v = nthreads ?s"
    and same: "X ?t = cpcs ?s ?t \<Longrightarrow> cond_act c (?s\<lparr>cpcs := X\<rparr>) = Some (v\<lparr>cpcs := X(?t := cpcs v ?t)\<rparr>)" for X
    unfolding own_step_def by blast+
  define p where "p = cpcs v ?t"
  have pc: "cpcs v u = (if u = ?t then p else cpcs ?s u)" for u
    using fun_cong [OF pcs, of u] by (simp add: p_def)
  have p: "group_ok p" "blocked_on (cpcs ?s ?t) = None" "blocked_on p = None"
    "nthreads ?s \<le> ?t \<Longrightarrow> p = Idle"
    using own(2-4) by (simp_all add: p_def)
  note store = store_words [OF ok, of base "cv v"]
  have seen: "seen_pc pend s' = (seen_pc pend s)(?t := p)"
    using p store by (simp add: seen_pc_def s' Let_def fun_eq_iff pc)
  have "seen_pc pend s ?t = cpcs ?s ?t" using p by (simp add: seen_pc_def Let_def)
  from same [of "seen_pc pend s", OF this, folded p_def] have "cond_act c (cabs s) = Some (cabs s')"
    by (simp add: cond_abs_def seen) (simp add: s')
  moreover have "asleep_ok on pend base L s'"
    using inv p store n L by (simp add: cond_os_inv_def asleep_ok_def sleeps_at_def s' pc)
  moreover have "elsewhere_ok base L (co_sys s')"
    using inv p n L by (auto simp: cond_os_inv_def elsewhere_ok_def s' pc)
  ultimately show ?thesis
    using inv p store n by (simp add: cond_os_inv_def s' pc)
qed

lemma cond_wait_simulated:
  assumes inv: "cinv base L s" and call: "futex_call (cpcs (co_sys s) t) = Some (f, FUTEX_WAIT, val)"
    and step: "cond_step_os os base t sp s = Some s'" and L: "L t = None"
  shows "cinv base L s' \<and> cond_step t sp u (cabs s) = Some (cabs s')"
proof -
  let ?p = "cpcs (co_sys s) t" and ?a = "futex_addr base f"
  note pcs = call_pcs [OF call]
  from inv have ok: "ok (co_os s)" and group: "group_ok ?p" by (simp_all add: cond_os_inv_def)
  have t: "t < nthreads (co_sys s)" using inv pcs(4) unfolding cond_os_inv_def by (meson not_le)
  with inv have tN: "t < N" by (simp add: cond_os_inv_def)
  have asleep: "t \<notin> set (on (co_os s) b)" for b
    using inv t pcs(1) L by (simp add: cond_os_inv_def asleep_ok_def sleeps_at_def)
  have f: "f \<in> set futex_words" using group call by (rule call_futex_words)
  then have word: "os_mem os (co_os s) ?a = futex_word (cv (co_sys s)) f"
    using inv by (simp add: cond_os_inv_def words_stored_def)
  have seen: "seen_pc pend s t = ?p" using pcs(1) by (simp add: seen_pc_def Let_def)
  note abs = cond_step_futex_wait [of "cabs s" t f val sp u, unfolded cond_abs_simps seen, OF call]
  show ?thesis
  proof (cases "os_mem os (co_os s) ?a = val")
    case False
    then obtain k where k: "os_futex os t ?a FUTEX_WAIT val (co_os s) = (Some (- EWOULDBLOCK), k)" "ok k"
      "os_mem os k = os_mem os (co_os s)" "on k = on (co_os s)" "pend k = (pend (co_os s))(t := False)"
      by (rule futex_wait_refused [OF ok tN asleep])
    from step call k have s': "s' = co_goto t (after_call ?p) k s" by (simp add: cond_step_os_def Let_def)
    from cinv_move [OF inv t k(2-4), of "after_call ?p"] k(5) pcs(1-3) group L
    have "cinv base L s'" "cabs s' = cmove t (after_call ?p) id (cabs s)" unfolding s' by simp_all
    with abs False word show ?thesis by simp
  next
    case True
    then obtain k where k: "os_futex os t ?a FUTEX_WAIT val (co_os s) = (None, k)" "ok k"
      "os_mem os k = os_mem os (co_os s)" "on k = (on (co_os s))(?a := t # on (co_os s) ?a)"
      "pend k = (pend (co_os s))(t := False)"
      by (rule futex_wait_slept [OF ok tN asleep])
    from step call k have s': "s' = co_goto t (sleep_pc ?p) k s" by (simp add: cond_step_os_def Let_def)
    have sleep: "blocked_on (sleep_pc ?p) = Some f" "group_ok (sleep_pc ?p)" using pcs(5) group by simp_all
    from inv have old: "asleep_ok on pend base L s" by (simp add: cond_os_inv_def)
    have old1: "u < nthreads (co_sys s)"
      if "f' \<in> set futex_words" "u \<in> set (on (co_os s) (futex_addr base f'))" for f' u
      using old that unfolding asleep_ok_def by blast
    have on: "u \<in> set (on k b) \<longleftrightarrow> u = t \<and> b = ?a \<or> u \<in> set (on (co_os s) b)" for u b
      using k(4) by simp
    have "asleep_ok on pend base L s'"
      unfolding asleep_ok_def
    proof (intro conjI ballI allI impI)
      fix f' u assume "f' \<in> set futex_words" "u \<in> set (on (co_os s') (futex_addr base f'))"
      then show "u < nthreads (co_sys s')"
        using old1 [of f' u] old1 [OF f, of u] t k(4) by (cases "futex_addr base f' = ?a") (auto simp: s')
    next
      fix u b assume u: "u < nthreads (co_sys s')"
      then have "u \<in> set (on (co_os s) b) \<longleftrightarrow>
          sleeps_at base (L u) (cpcs (co_sys s) u) b \<and> \<not> pend (co_os s) u"
        using old by (simp add: asleep_ok_def s')
      then show "u \<in> set (on (co_os s') b) \<longleftrightarrow>
          sleeps_at base (L u) (cpcs (co_sys s') u) b \<and> \<not> pend (co_os s') u"
        unfolding s' co_goto_simps on using k(5) sleep(1) asleep [of b] L
        by (cases "u = t") (simp_all add: sleeps_at_def)
    qed
    moreover have "elsewhere_ok base L (co_sys s')"
      using inv L by (auto simp: cond_os_inv_def elsewhere_ok_def s')
    ultimately have "cinv base L s'"
      using inv t k(2,3) sleep(2) by (simp add: cond_os_inv_def words_stored_def s')
    moreover have "cabs s' = cmove t (sleep_pc ?p) id (cabs s)"
      using k by (auto simp: s' cond_abs_def cmove_def seen_pc_def Let_def fun_eq_iff)
    ultimately show ?thesis using abs True word by simp
  qed
qed

lemma cond_resume_simulated:
  assumes inv: "cinv base L s" and blocked: "blocked_on (cpcs (co_sys s) t) \<noteq> None"
    and step: "os_resume os t (co_os s) = Some k" and L: "L t = None"
  shows "cinv base L (co_goto t (futex_return (cpcs (co_sys s) t)) k s) \<and>
    cabs (co_goto t (futex_return (cpcs (co_sys s) t)) k s) = cabs s"
proof -
  let ?p = "cpcs (co_sys s) t"
  from inv have ok: "ok (co_os s)" by (simp add: cond_os_inv_def)
  have pend: "pend (co_os s) t" using step resume_blocked [OF ok] by force
  have "?p \<noteq> Idle" using blocked by auto
  then have t: "t < nthreads (co_sys s)" using inv unfolding cond_os_inv_def by (meson not_le)
  from resume_runs [OF ok pend] step have k: "ok k" "os_mem os k = os_mem os (co_os s)" "on k = on (co_os s)"
    "pend k = (pend (co_os s))(t := False)" by auto
  have "group_ok (futex_return ?p)" using inv by (simp add: cond_os_inv_def)
  from cinv_move [OF inv t k(1-3) _ blocked_futex_return this L] k(4) pend
  have move: "cinv base L (co_goto t (futex_return ?p) k s)"
    "cabs (co_goto t (futex_return ?p) k s) = cmove t (futex_return ?p) id (cabs s)" by simp_all
  have "seen_pc pend s t = futex_return ?p" using pend blocked by (simp add: seen_pc_def Let_def)
  then have "cmove t (futex_return ?p) id (cabs s) = cabs s" by (simp add: cmove_def cond_abs_def fun_upd_idem)
  with move show ?thesis by simp
qed

text \<open>The sleepers of a word are those that \<open>Cond_Conc\<close> has asleep on its futex.\<close>

lemma sleepers_seen:
  assumes inv: "cinv base L s" and f: "f \<in> set futex_words"
  shows "u \<in> set (on (co_os s) (futex_addr base f)) \<longleftrightarrow>
      u < nthreads (co_sys s) \<and> blocked_on (cpcs (co_sys s) u) = Some f \<and> \<not> pend (co_os s) u"
    and "set (sleeping f (cabs s)) = set (on (co_os s) (futex_addr base f))"
proof -
  from inv have old: "asleep_ok on pend base L s" and group: "group_ok (cpcs (co_sys s) u)" for u
    by (simp_all add: cond_os_inv_def)
  have same: "futex_addr base f = futex_addr base f' \<longleftrightarrow> f = f'" if "blocked_on (cpcs (co_sys s) u) = Some f'" for f' u
    using futex_addr_inj [OF f blocked_futex_words [OF group that]] by blast
  have iff: "u \<in> set (on (co_os s) (futex_addr base f)) \<longleftrightarrow>
      u < nthreads (co_sys s) \<and> blocked_on (cpcs (co_sys s) u) = Some f \<and> \<not> pend (co_os s) u" for u
  proof (cases "u < nthreads (co_sys s)")
    case True
    with old have at: "u \<in> set (on (co_os s) (futex_addr base f)) \<longleftrightarrow>
        sleeps_at base (L u) (cpcs (co_sys s) u) (futex_addr base f) \<and> \<not> pend (co_os s) u"
      by (simp add: asleep_ok_def)
    show ?thesis
    proof (cases "L u")
      case None
      with True same at show ?thesis by (auto simp: sleeps_at_def)
    next
      case (Some a)
      with inv f have "futex_addr base f \<noteq> a" "blocked_on (cpcs (co_sys s) u) = None"
        by (auto simp: cond_os_inv_def elsewhere_ok_def)
      with at Some show ?thesis by (simp add: sleeps_at_def)
    qed
  next
    case False
    with old f show ?thesis unfolding asleep_ok_def by blast
  qed
  then show "u \<in> set (on (co_os s) (futex_addr base f)) \<longleftrightarrow>
      u < nthreads (co_sys s) \<and> blocked_on (cpcs (co_sys s) u) = Some f \<and> \<not> pend (co_os s) u" .
  show "set (sleeping f (cabs s)) = set (on (co_os s) (futex_addr base f))"
    by (auto simp: sleeping_def blocked_seen iff)
qed

text \<open>A wake-up that takes the sleepers \<open>W\<close> of a word off the queue.\<close>

lemma asleep_wake:
  assumes ok: "ok (co_os s)" and old: "asleep_ok on pend base L s"
    and k: "on k = (on (co_os s))(a := rest)" "pend k = (\<lambda>u. pend (co_os s) u \<or> u \<in> set W)"
    and W: "on (co_os s) a = W @ rest"
    and p: "blocked_on p = None" "blocked_on (cpcs (co_sys s) t) = None" "L t = None"
  shows "asleep_ok on pend base L (co_goto t p k s)"
proof -
  let ?s = "co_goto t p k s"
  have apart: "set W \<inter> set rest = {}" using sleepers_distinct [OF ok, of a] by (simp add: W)
  have on: "u \<in> set (on k b) \<longleftrightarrow> u \<in> set (on (co_os s) b) \<and> u \<notin> set W" for u b
  proof (cases "b = a")
    case True
    with apart W k(1) show ?thesis by auto
  next
    case False
    then have "u \<notin> set W" if "u \<in> set (on (co_os s) b)"
      using sleeper_once [OF ok that, of a] W by auto
    with False k(1) show ?thesis by auto
  qed
  show ?thesis
    unfolding asleep_ok_def
  proof (intro conjI ballI allI impI)
    fix f' u assume "f' \<in> set futex_words" "u \<in> set (on (co_os ?s) (futex_addr base f'))"
    then show "u < nthreads (co_sys ?s)" using old unfolding asleep_ok_def by (simp add: on)
  next
    fix u b assume u: "u < nthreads (co_sys ?s)"
    then have "u \<in> set (on (co_os s) b) \<longleftrightarrow>
        sleeps_at base (L u) (cpcs (co_sys s) u) b \<and> \<not> pend (co_os s) u"
      using old by (simp add: asleep_ok_def)
    then show "u \<in> set (on (co_os ?s) b) \<longleftrightarrow>
        sleeps_at base (L u) (cpcs (co_sys ?s) u) b \<and> \<not> pend (co_os ?s) u"
      unfolding co_goto_simps on using k(2) p by (cases "u = t") (auto simp: sleeps_at_def)
  qed
qed

lemma cinv_wake:
  assumes inv: "cinv base L s" and t: "t < nthreads (co_sys s)" and f: "f \<in> set futex_words"
    and k: "ok k" "os_mem os k = os_mem os (co_os s)"
      "on k = (on (co_os s))(futex_addr base f := rest)"
      "pend k = (\<lambda>u. pend (co_os s) u \<or> u \<in> set W)"
    and W: "on (co_os s) (futex_addr base f) = W @ rest"
    and p: "blocked_on p = None" "group_ok p" "blocked_on (cpcs (co_sys s) t) = None" and L: "L t = None"
  shows "cinv base L (co_goto t p k s)"
    and "cabs (co_goto t p k s) =
      (cmove t p id (cabs s))\<lparr>cpcs := (\<lambda>u. if u \<in> set W then futex_return (cpcs (co_sys s) u)
         else if u = t then p else seen_pc pend s u)\<rparr>"
proof -
  let ?s = "co_goto t p k s"
  have inW: "u < nthreads (co_sys s) \<and> blocked_on (cpcs (co_sys s) u) = Some f \<and> \<not> pend (co_os s) u"
    if "u \<in> set W" for u
    using sleepers_seen(1) [OF inv f, of u] that W by simp
  have "t \<notin> set W" using inW [of t] p(3) by auto
  have "asleep_ok on pend base L ?s"
    by (rule asleep_wake [where s = s and a = "futex_addr base f" and rest = rest and W = W])
       (use inv k W p L in \<open>simp_all add: cond_os_inv_def\<close>)
  moreover have "elsewhere_ok base L (co_sys ?s)"
    using inv p(1) L by (auto simp: cond_os_inv_def elsewhere_ok_def)
  ultimately show "cinv base L ?s"
    using inv t k(1,2) p by (simp add: cond_os_inv_def words_stored_def)
  show "cabs ?s = (cmove t p id (cabs s))\<lparr>cpcs := (\<lambda>u. if u \<in> set W then futex_return (cpcs (co_sys s) u)
         else if u = t then p else seen_pc pend s u)\<rparr>"
    using k(4) inW p \<open>t \<notin> set W\<close>
    by (auto simp: cond_abs_def cmove_def seen_pc_def Let_def fun_eq_iff)
qed

lemma cond_wake_simulated:
  assumes inv: "cinv base L s" and call: "futex_call (cpcs (co_sys s) t) = Some (f, FUTEX_WAKE, val)"
    and val: "val = INT_MAX \<or> val = 1" and step: "cond_step_os os base t sp s = Some s'" and L: "L t = None"
  shows "cinv base L s' \<and> (\<exists>u. cond_step t sp u (cabs s) = Some (cabs s'))"
proof -
  let ?p = "cpcs (co_sys s) t" and ?a = "futex_addr base f"
  let ?q = "after_call ?p" and ?on = "on (co_os s) (futex_addr base f)"
  note pcs = call_pcs [OF call]
  from inv have ok: "ok (co_os s)" and group: "group_ok ?p" by (simp_all add: cond_os_inv_def)
  have t: "t < nthreads (co_sys s)" using inv pcs(4) unfolding cond_os_inv_def by (meson not_le)
  have f: "f \<in> set futex_words" using group call by (rule call_futex_words)
  have seen: "seen_pc pend s t = ?p" using pcs(1) by (simp add: seen_pc_def Let_def)
  let ?m = "cmove t ?q id (cabs s)"
  have moved: "set (sleeping f ?m) = set ?on"
  proof -
    have "sleeping f ?m = sleeping f (cabs s)"
      using pcs(1,2) seen by (auto simp: sleeping_def intro!: filter_cong)
    then show ?thesis using sleepers_seen(2) [OF inv f] by simp
  qed
  have wakes: "seen_pc pend s u = cpcs (co_sys s) u" if "u \<in> set ?on" for u
    using sleepers_seen(1) [OF inv f, of u] that by (simp add: seen_pc_def Let_def)
  have not_t: "t \<notin> set ?on" using sleepers_seen(1) [OF inv f, of t] pcs(1) by auto
  have asleep: "blocked_on (cpcs ?m u) = Some f \<longleftrightarrow> u \<in> set ?on" for u
  proof (cases "u < nthreads (co_sys s)")
    case True
    with sleepers_seen(1) [OF inv f, of u] pcs(1,2) show ?thesis by (auto simp: blocked_seen)
  next
    case False
    then have "cpcs (co_sys s) u = Idle" using inv by (simp add: cond_os_inv_def)
    with sleepers_seen(1) [OF inv f, of u] pcs(2) False show ?thesis by (auto simp: blocked_seen)
  qed
  from val show ?thesis
  proof
    assume all: "val = INT_MAX"
    obtain k where k: "os_futex os t ?a FUTEX_WAKE INT_MAX (co_os s) = (Some (int (length ?on)), k)"
      "ok k" "os_mem os k = os_mem os (co_os s)" "on k = (on (co_os s))(?a := [])"
      "pend k = (\<lambda>u. pend (co_os s) u \<or> u \<in> set ?on)"
      by (rule futex_wake_all [OF ok])
    from step call k(1) all have s': "s' = co_goto t ?q k s" by (simp add: cond_step_os_def Let_def)
    note wake = cinv_wake [OF inv t f k(2-5) append_Nil2 [symmetric] pcs(2) pcs(3) [OF group] pcs(1) L]
    have pcs_eq: "(\<lambda>u. if u \<in> set ?on then futex_return (cpcs ?m u) else cpcs ?m u) =
        (\<lambda>u. if u \<in> set ?on then futex_return (cpcs (co_sys s) u) else if u = t then ?q else seen_pc pend s u)"
      (is "?X = ?Y")
    proof
      fix u show "?X u = ?Y u" using wakes [of u] not_t by (cases "u = t") simp_all
    qed
    have "wake_all f ?m = cabs s'"
      unfolding s' wake(2) wake_all_def asleep pcs_eq ..
    with cond_step_futex_wake_all [of "cabs s" t f sp t] call all seen
      wake(1) show ?thesis
      unfolding s' by (intro conjI exI [of _ t]) simp_all
  next
    assume one: "val = 1"
    obtain k where k: "os_futex os t ?a FUTEX_WAKE 1 (co_os s) = (Some (int (length (take 1 ?on))), k)"
      "ok k" "os_mem os k = os_mem os (co_os s)" "on k = (on (co_os s))(?a := tl ?on)"
      "pend k = (\<lambda>u. pend (co_os s) u \<or> u \<in> set (take 1 ?on))"
      by (rule futex_wake_one [OF ok])
    from step call k(1) one have s': "s' = co_goto t ?q k s" by (simp add: cond_step_os_def Let_def)
    have split: "?on = take 1 ?on @ tl ?on" by (cases ?on) simp_all
    note wake = cinv_wake [OF inv t f k(2-5) split pcs(2) pcs(3) [OF group] pcs(1) L]
    note abs = cond_step_futex_wake_one [of "cabs s" t f sp, unfolded cond_abs_simps seen, OF call [unfolded one]]
    show ?thesis
    proof (cases ?on)
      case Nil
      then have "sleeping f ?m = []" using moved by simp
      then have "wake_one f t ?m = Some ?m" by (simp add: wake_one_def)
      moreover have "cabs s' = ?m"
        unfolding s' wake(2) by (simp add: Nil cmove_def cond_abs_def fun_upd_def)
      ultimately show ?thesis using wake(1) abs [of t] unfolding s' by metis
    next
      case (Cons x xs)
      then have x: "x \<in> set (sleeping f ?m)" "sleeping f ?m \<noteq> []" "x \<noteq> t"
        using moved not_t by (metis list.set_intros(1) list.set(1) empty_iff)+
      then have "wake_one f x ?m = Some (?m\<lparr>cpcs := (cpcs ?m)(x := futex_return (cpcs ?m x))\<rparr>)"
        by (simp add: wake_one_def)
      moreover have "cpcs ?m x = cpcs (co_sys s) x" using wakes [of x] x(3) by (simp add: Cons)
      moreover have "(cpcs ?m)(x := futex_return (cpcs (co_sys s) x)) =
          (\<lambda>u. if u \<in> set (take 1 ?on) then futex_return (cpcs (co_sys s) u)
               else if u = t then ?q else seen_pc pend s u)"
        by (auto simp: Cons fun_eq_iff)
      ultimately have "wake_one f x ?m = Some (cabs s')" unfolding s' wake(2) by simp
      with wake(1) abs [of x] show ?thesis unfolding s' by metis
    qed
  qed
qed

lemma cond_os_simulated:
  assumes inv: "cinv base L s" and step: "cond_os_act os base c s = Some s'"
    and L: "L (actor c (nthreads (co_sys s))) = None"
  shows "cinv base L s' \<and> (cabs s' = cabs s \<or> (\<exists>c. cond_act c (cabs s) = Some (cabs s')))"
proof (cases "\<exists>t sp u. c = Cstep t sp u")
  case False
  with step have "cond_user_step os base c s = Some s'" "stays_user c (co_sys s)"
    by (auto simp: cond_os_act_def stays_user_def split: cond_action.splits)
  from cond_user_simulated [OF inv this L] show ?thesis by blast
next
  case True
  then obtain t sp u where c: "c = Cstep t sp u" by blast
  with step L have step: "cond_step_os os base t sp s = Some s'" and L: "L t = None"
    by (simp_all add: cond_os_act_def)
  let ?p = "cpcs (co_sys s) t"
  show ?thesis
  proof (cases "futex_call ?p")
    case None
    show ?thesis
    proof (cases "blocked_on ?p = None")
      case True
      with step None have "cond_user_step os base (Cstep t sp t) s = Some s'"
        by (simp add: cond_step_os_def Let_def)
      from cond_user_simulated [OF inv this] None True L
      have "cinv base L s' \<and> cond_act (Cstep t sp t) (cabs s) = Some (cabs s')" by (simp add: stays_user_def)
      then show ?thesis by blast
    next
      case False
      with step None obtain k where "os_resume os t (co_os s) = Some k"
        "s' = co_goto t (futex_return ?p) k s"
        by (auto simp: cond_step_os_def Let_def)
      with cond_resume_simulated [OF inv False _ L] show ?thesis by simp
    qed
  next
    case (Some call)
    then obtain f futex_op val where call: "futex_call ?p = Some (f, futex_op, val)" by (cases call) auto
    from call show ?thesis
    proof (cases rule: futex_call_cases)
      case 1
      with cond_wait_simulated [OF inv _ step L] call have "cinv base L s' \<and> cond_act (Cstep t sp t) (cabs s) = Some (cabs s')"
        by simp
      then show ?thesis by blast
    next
      case 2
      with cond_wake_simulated [OF inv _ _ step L] call
      have "cinv base L s' \<and> (\<exists>u. cond_act (Cstep t sp u) (cabs s) = Some (cabs s'))" by simp
      then show ?thesis by blast
    next
      case 3
      with cond_wake_simulated [OF inv _ _ step L] call
      have "cinv base L s' \<and> (\<exists>u. cond_act (Cstep t sp u) (cabs s) = Some (cabs s'))" by simp
      then show ?thesis by blast
    qed
  qed
qed

end

section \<open>The condition variable on the kernel\<close>

abbreviation cond_kernel_act ::
  "nat \<Rightarrow> addr \<Rightarrow> cond_action \<Rightarrow> kernel cond_os_sys \<Rightarrow> kernel cond_os_sys option" where
  "cond_kernel_act N base \<equiv> cond_os_act (kernel_os N) base"

abbreviation cond_kernel_start :: "nat \<Rightarrow> addr \<Rightarrow> kernel cond_os_sys \<Rightarrow> bool" where
  "cond_kernel_start N base \<equiv> cond_os_start (kernel_os N) (sleepers_on N) (kernel_ok N) N base"

abbreviation cond_kernel_inv :: "nat \<Rightarrow> addr \<Rightarrow> kernel cond_os_sys \<Rightarrow> bool" where
  "cond_kernel_inv N base \<equiv>
     cond_os_inv (kernel_os N) (sleepers_on N) woken_up (kernel_ok N) N base (\<lambda>_. None)"

interpretation cond_kernel: simulated_system "cond_kernel_act N base" "cond_kernel_start N base"
  "cond_kernel_inv N base" "\<lambda>v v'. \<exists>c. cond_act c v = Some v'" cond_start "\<lambda>s v. v = cond_abs woken_up s"
  for N base
proof
  show "cond_kernel_inv N base s" if "cond_kernel_start N base s" for s
    using kernel_service.cond_start_os_inv [OF that] by blast
  show "\<exists>v. cond_start v \<and> v = cond_abs woken_up s" if "cond_kernel_start N base s" for s
    using kernel_service.cond_start_os_inv [OF that] by blast
next
  fix s c s' v
  assume step: "cond_kernel_inv N base s" "cond_kernel_act N base c s = Some s'"
  note sim = kernel_service.cond_os_simulated [OF step refl]
  from sim show "cond_kernel_inv N base s'" by blast
  assume "v = cond_abs woken_up s"
  with sim show "\<exists>v'. v' = cond_abs woken_up s' \<and> (\<lambda>v v'. \<exists>c. cond_act c v = Some v')\<^sup>=\<^sup>= v v'" by auto
qed


text \<open>A waiter that nobody has woken is not below the start of G1.\<close>

lemma waiter_not_closed:
  assumes "reachable cond_act cond_start v" and "cpcs v t = In_wait (W_blocked seq g)"
  shows "unat (old_g1_start (cv v)) \<le> unat seq"
proof -
  obtain p where "phase_ok p v" using cond_inv_phase [OF cond.reachable_inv [OF assms(1)]] by blast
  then have "waiter_ok (join_start p (cv v)) (cv v) (cpcs v t)" by (simp add: phase_ok_def)
  with assms(2) show ?thesis by (simp add: waiter_ok_def)
qed

section \<open>Properties\<close>

text \<open>C36: the condition variable on top of the kernel, as long as the kernel executes one futex call at
  a time (of calls that overlap, a wake can miss a waiter, \<open>futex_fast_path_misses_waiter\<close>). With
  \<^verbatim>\<open>futex_syscall\<close>, \<^verbatim>\<open>kernel_futex_wait\<close> and \<^verbatim>\<open>kernel_futex_wake\<close> behind its calls, each executed without
  another in between, it reaches only states that the condition variable of the
  abstract futexes reaches; the kernel sees its words as it left them; a thread blocked on one of
  them is in the kernel's queue of this word or has been woken; and no waiter whose group has been
  closed is left asleep in the kernel.\<close>

theorem cond_over_kernel_refines_cond:
  assumes "reachable (cond_kernel_act N base) (cond_kernel_start N base) s"
  shows "reachable cond_act cond_start (cond_abs woken_up s) \<and>
    (\<forall>f \<in> set futex_words. user_mem (co_os s) (futex_addr base f) = futex_word (cv (co_sys s)) f) \<and>
    (\<forall>t f. blocked_on (cpcs (co_sys s) t) = Some f \<longrightarrow>
       woken_up (co_os s) t \<or> t \<in> set (sleepers_on N (co_os s) (futex_addr base f))) \<and>
    (\<forall>t seq g. cpcs (co_sys s) t = In_wait (W_blocked seq g) \<longrightarrow>
       woken_up (co_os s) t \<or> unat (old_g1_start (cv (co_sys s))) \<le> unat seq)"
proof -
  let ?v = "cond_abs woken_up s"
  from cond_kernel.reachable_rel [OF assms] have v: "reachable cond_act cond_start ?v"
    by (auto intro: rtranclp_reachable [OF _ reachable_init])
  have inv: "cond_kernel_inv N base s" by (rule cond_kernel.reachable_inv [OF assms])
  then have "user_mem (co_os s) (futex_addr base f) = futex_word (cv (co_sys s)) f" if "f \<in> set futex_words" for f
    using that by (simp add: cond_os_inv_def words_stored_def kernel_os_def)
  moreover have "woken_up (co_os s) t \<or> t \<in> set (sleepers_on N (co_os s) (futex_addr base f))"
    if blocked: "blocked_on (cpcs (co_sys s) t) = Some f" for t f
  proof -
    have "cpcs (co_sys s) t \<noteq> Idle" using blocked by auto
    then have "t < nthreads (co_sys s)" using inv unfolding cond_os_inv_def by (meson not_le)
    then show ?thesis
      using kernel_service.sleepers_seen(1) [OF inv, of f t] blocked blocked_futex_words [OF _ blocked] inv
      by (auto simp: cond_os_inv_def)
  qed
  moreover have "unat (old_g1_start (cv (co_sys s))) \<le> unat seq"
    if "cpcs (co_sys s) t = In_wait (W_blocked seq g)" "\<not> woken_up (co_os s) t" for t seq g
    using waiter_not_closed [OF v, of t seq g] that by (simp add: seen_pc_def Let_def)
  ultimately show ?thesis using v by blast
qed


text \<open>Two waiters asleep in the kernel and a broadcaster about to wake them.\<close>

definition cond_kernel_zero :: "kernel cond_os_sys" where
  "cond_kernel_zero = \<lparr>co_os = kernel_zero, co_sys = cond_sys0\<rparr>"

definition kernel_run :: "cond_action list" where
  "kernel_run =
     [Lock_mutex 0, Call_wait 0] @ replicate 7 (Cstep 0 False 0) @
     [Lock_mutex 1, Call_wait 1] @ replicate 7 (Cstep 1 False 0) @
     [Call_broadcast 2] @ replicate 14 (Cstep 2 False 0)"

definition kernel_run_end :: "kernel cond_os_sys" where
  "kernel_run_end = the (run_sched (cond_kernel_act 6 64) kernel_run cond_kernel_zero)"

lemma kernel_run_states:
  "run_sched (cond_kernel_act 6 64) kernel_run cond_kernel_zero = Some kernel_run_end"
  "cpcs (co_sys kernel_run_end) 0 = In_wait (W_blocked 0 0)"
  "cpcs (co_sys kernel_run_end) 2 = In_signal Bcast (S_wake 0)"
  "sleepers_on 6 (co_os kernel_run_end) 104 = [1, 0]"
  "\<not> woken_up (co_os kernel_run_end) 0"
proof -
  have "case run_sched (cond_kernel_act 6 64) kernel_run cond_kernel_zero of None \<Rightarrow> False | Some s \<Rightarrow>
      cpcs (co_sys s) 0 = In_wait (W_blocked 0 0) \<and> cpcs (co_sys s) 2 = In_signal Bcast (S_wake 0) \<and>
      sleepers_on 6 (co_os s) 104 = [1, 0] \<and> \<not> woken_up (co_os s) 0"
    by code_simp
  then show "run_sched (cond_kernel_act 6 64) kernel_run cond_kernel_zero = Some kernel_run_end"
    "cpcs (co_sys kernel_run_end) 0 = In_wait (W_blocked 0 0)"
    "cpcs (co_sys kernel_run_end) 2 = In_signal Bcast (S_wake 0)"
    "sleepers_on 6 (co_os kernel_run_end) 104 = [1, 0]" "\<not> woken_up (co_os kernel_run_end) 0"
    by (auto simp: kernel_run_end_def split: option.splits)
qed

lemma kernel_run_start: "cond_kernel_start 6 64 cond_kernel_zero"
  by (auto simp: cond_os_start_def cond_kernel_zero_def cond_start_0 kernel_zero_ok words_stored_def
      futex_words_def kernel_os_def)
     (simp_all add: kernel_zero_def cond_sys0_def pthread_cond_init_def)

lemma kernel_run_reachable: "reachable (cond_kernel_act 6 64) (cond_kernel_start 6 64) kernel_run_end"
  by (rule run_sched_from_init [where init = "cond_kernel_start 6 64", OF kernel_run_start kernel_run_states(1)])

theorem cond_over_kernel_refines_cond_witness:
  "reachable cond_act cond_start (cond_abs woken_up kernel_run_end) \<and>
   user_mem (co_os kernel_run_end) 104 = g_signals (cv (co_sys kernel_run_end)) 0 \<and>
   old_g1_start (cv (co_sys kernel_run_end)) = 0"
proof -
  note facts = cond_over_kernel_refines_cond [OF kernel_run_reachable]
  from facts have "\<forall>t seq g. cpcs (co_sys kernel_run_end) t = In_wait (W_blocked seq g) \<longrightarrow>
      woken_up (co_os kernel_run_end) t \<or>
      unat (old_g1_start (cv (co_sys kernel_run_end))) \<le> unat seq" by blast
  then have "unat (old_g1_start (cv (co_sys kernel_run_end))) \<le> unat (0 :: u64)"
    using kernel_run_states(2,5) by blast
  with facts show ?thesis by (auto simp: futex_words_def unat_eq_zero)
qed

text \<open>C38: the wake-ups of the condition variable reach the threads asleep in the kernel, as long as
  the kernel executes one futex call at a time. Wherever signal, broadcast, a leaving waiter or the
  repair after a stolen signal call \<^verbatim>\<open>FUTEX_WAKE\<close> and no other futex call is under way in the
  kernel, the call returns; the kernel's queue of the word holds exactly the threads blocked on it
  that nobody has woken; with \<^verbatim>\<open>INT_MAX\<close> all of them are made runnable, with 1 the one that came
  last; the queues of all other words, in the same bucket or not, are left alone. A wait that is
  under way at that moment can be missed (\<open>futex_fast_path_misses_waiter\<close>), a thread that has gone
  to sleep cannot (\<open>fast_path_sees_sleepers\<close>).\<close>

theorem cond_wakes_reach_kernel_sleepers:
  assumes "reachable (cond_kernel_act N base) (cond_kernel_start N base) s"
    and "futex_call (cpcs (co_sys s) t) = Some (f, FUTEX_WAKE, val)"
  shows "\<exists>s'. cond_kernel_act N base (Cstep t sp u) s = Some s' \<and>
    cpcs (co_sys s') = (cpcs (co_sys s))(t := after_call (cpcs (co_sys s) t)) \<and>
    (let Q = sleepers_on N (co_os s) (futex_addr base f); W = (if val = 1 then take 1 Q else Q) in
     set Q = {u. blocked_on (cpcs (co_sys s) u) = Some f \<and> \<not> woken_up (co_os s) u} \<and>
     sleepers_on N (co_os s') = (sleepers_on N (co_os s))(futex_addr base f := drop (length W) Q) \<and>
     (\<forall>u. woken_up (co_os s') u \<longleftrightarrow> woken_up (co_os s) u \<or> u \<in> set W))"
proof -
  let ?Q = "sleepers_on N (co_os s) (futex_addr base f)" and ?p = "cpcs (co_sys s) t"
  have inv: "cond_kernel_inv N base s" by (rule cond_kernel.reachable_inv [OF assms(1)])
  then have ok: "kernel_ok N (co_os s)" and group: "group_ok ?p" by (simp_all add: cond_os_inv_def)
  have "u < nthreads (co_sys s)" if "blocked_on (cpcs (co_sys s) u) = Some f" for u
  proof (rule ccontr)
    assume "\<not> ?thesis"
    with inv have "cpcs (co_sys s) u = Idle" by (simp add: cond_os_inv_def)
    with that show False by simp
  qed
  with kernel_service.sleepers_seen(1) [OF inv call_futex_words [OF group assms(2)]]
  have Q: "set ?Q = {u. blocked_on (cpcs (co_sys s) u) = Some f \<and> \<not> woken_up (co_os s) u}" by blast
  have step: "cond_kernel_act N base (Cstep t sp u) s = Some (co_goto t (after_call ?p) k s)"
    if "os_futex (kernel_os N) t (futex_addr base f) FUTEX_WAKE val (co_os s) = (Some r, k)" for r k
    using that assms(2) by (simp add: cond_os_act_def cond_step_os_def Let_def)
  from futex_call_cases [OF assms(2)] consider "val = INT_MAX" | "val = 1" by (auto simp: syscall_codes)
  then show ?thesis
  proof cases
    case 1
    obtain k where k: "os_futex (kernel_os N) t (futex_addr base f) FUTEX_WAKE INT_MAX (co_os s) =
        (Some (int (length ?Q)), k)"
      "sleepers_on N k = (sleepers_on N (co_os s))(futex_addr base f := [])"
      "woken_up k = (\<lambda>u. woken_up (co_os s) u \<or> u \<in> set ?Q)"
      by (rule kernel_service.futex_wake_all [OF ok])
    from step [OF k(1) [folded 1]] k(2,3) Q 1 show ?thesis
      by (intro exI [of _ "co_goto t (after_call ?p) k s"]) (simp add: Let_def INT_MAX_def cmove_def)
  next
    case 2
    obtain k where k: "os_futex (kernel_os N) t (futex_addr base f) FUTEX_WAKE 1 (co_os s) =
        (Some (int (length (take 1 ?Q))), k)"
      "sleepers_on N k = (sleepers_on N (co_os s))(futex_addr base f := tl ?Q)"
      "woken_up k = (\<lambda>u. woken_up (co_os s) u \<or> u \<in> set (take 1 ?Q))"
      by (rule kernel_service.futex_wake_one [OF ok])
    have "drop (length (take 1 ?Q)) ?Q = tl ?Q" by (cases ?Q) simp_all
    with step [OF k(1) [folded 2]] k(2,3) Q 2 show ?thesis
      by (intro exI [of _ "co_goto t (after_call ?p) k s"]) (simp add: Let_def cmove_def)
  qed
qed

theorem cond_wakes_reach_kernel_sleepers_witness:
  "\<exists>s'. cond_kernel_act 6 64 (Cstep 2 False 0) kernel_run_end = Some s' \<and>
     sleepers_on 6 (co_os s') 104 = [] \<and> woken_up (co_os s') 0 \<and> woken_up (co_os s') 1"
proof -
  have "futex_call (cpcs (co_sys kernel_run_end) 2) = Some (F_signals 0, FUTEX_WAKE, INT_MAX)"
    by (simp add: kernel_run_states)
  from cond_wakes_reach_kernel_sleepers [OF kernel_run_reachable this, of False 0] show ?thesis
    by (auto simp: Let_def INT_MAX_def kernel_run_states(4))
qed

end
