(* ===== verification/Cond_Mutex.thy ===== *)
theory Cond_Mutex
  imports Cond_Props
begin

text \<open>
  The mutex of the condition variable's users: who owns it while threads enter, sleep in and leave
  \<^verbatim>\<open>pthread_cond_wait\<close>, and what that gives a thread that changes the condition under the mutex
  and then signals.
\<close>

section \<open>The invariant\<close>

text \<open>Before \<^verbatim>\<open>pthread_mutex_unlock\<close> in the wait, and between it and \<^verbatim>\<open>pthread_mutex_lock\<close>.\<close>

fun entering :: "cpc \<Rightarrow> bool" where
  "entering (In_wait (W_wrefs seq g)) \<longleftrightarrow> True"
| "entering (In_wait (W_unlock seq g)) \<longleftrightarrow> True"
| "entering _ \<longleftrightarrow> False"

definition released :: "cpc \<Rightarrow> bool" where
  "released p \<longleftrightarrow> waiting p \<and> \<not> entering p"

definition owner_ok :: "tid option \<Rightarrow> tid \<Rightarrow> cpc \<Rightarrow> bool" where
  "owner_ok m t p \<longleftrightarrow> (entering p \<longrightarrow> m = Some t) \<and> (released p \<longrightarrow> m \<noteq> Some t)"

definition mutex_inv :: "cond_sys \<Rightarrow> bool" where
  "mutex_inv s \<longleftrightarrow> (\<forall>t. owner_ok (mutex_owner s) t (cpcs s t))"

lemma owner_ok_Idle [simp]: "owner_ok m t Idle" "owner_ok m t (In_signal j p)" "owner_ok m t (In_destroy d)"
  by (simp_all add: owner_ok_def released_def)

lemma owner_ok_futex_return [simp]: "owner_ok m t (futex_return p) \<longleftrightarrow> owner_ok m t p"
  by (cases p rule: futex_return.cases) (simp_all add: owner_ok_def released_def)

lemma mutex_inv_cmove:
  "mutex_inv s \<Longrightarrow> owner_ok (mutex_owner s) t p \<Longrightarrow> mutex_inv (cmove t p f s)"
  by (simp add: mutex_inv_def)

lemma mutex_inv_wake_all: "mutex_inv (wake_all f s) \<longleftrightarrow> mutex_inv s"
  by (simp add: mutex_inv_def wake_all_def)

lemma mutex_inv_wake_one: "mutex_inv s \<Longrightarrow> wake_one f u s = Some s' \<Longrightarrow> mutex_inv s'"
  by (auto simp: mutex_inv_def wake_one_def split: if_splits)

text \<open>Moves of the thread that owns the mutex, or takes it while it is free.\<close>

lemma mutex_inv_release:
  assumes "mutex_inv s" and "mutex_owner s = Some t" and "\<not> entering p"
  shows "mutex_inv (cmove t p f (s\<lparr>mutex_owner := None\<rparr>))"
  using assms by (auto simp: mutex_inv_def owner_ok_def)

lemma mutex_inv_acquire:
  assumes "mutex_inv s" and "mutex_owner s = None"
  shows "mutex_inv (cmove t Idle f (s\<lparr>mutex_owner := Some t\<rparr>))"
  using assms by (auto simp: mutex_inv_def owner_ok_def released_def)

lemma wgo_simps [simp]: "mutex_owner (wgo t p f s) = mutex_owner s"
  by (simp add: wgo_def)

lemma released_simps:
  "released (In_wait p) \<longleftrightarrow> \<not> entering (In_wait p)"
  by (simp add: released_def)

lemma mutex_inv_wgo:
  "mutex_inv s \<Longrightarrow> owner_ok (mutex_owner s) t (In_wait p) \<Longrightarrow> mutex_inv (wgo t p f s)"
  by (simp add: wgo_def mutex_inv_cmove)

lemma owner_ok_stay:
  "owner_ok m t p \<Longrightarrow> entering q = entering p \<Longrightarrow> waiting q = waiting p \<Longrightarrow> owner_ok m t q"
  by (simp add: owner_ok_def released_def)

lemma entering_heads [simp]:
  "\<not> entering (In_wait (consume_head seq g v))" "\<not> entering (In_wait (after_unref seq g leave))"
  by (auto simp: consume_head_def after_unref_def)

lemma wait_step_mutex:
  assumes inv: "mutex_inv s" and pc: "cpcs s t = In_wait p"
    and step: "pthread_cond_wait t sp u p s = Some s'"
  shows "mutex_inv s'"
proof -
  have ok: "owner_ok (mutex_owner s) t (In_wait p)" using inv pc by (metis mutex_inv_def)
  have go: "mutex_inv (wgo t q f s)" if "entering (In_wait q) = entering (In_wait p)" for q f
    using inv ok that by (intro mutex_inv_wgo) (auto intro: owner_ok_stay)
  show ?thesis
  proof (cases p)
    case (W_unlock seq g)
    with ok have "mutex_owner s = Some t" by (simp add: owner_ok_def)
    with W_unlock step inv show ?thesis by (auto simp: wgo_def intro: mutex_inv_release)
  next
    case (W_cas seq g v)
    with step go show ?thesis by (auto split: prod.splits bool.splits)
  next
    case (W_give g st v)
    with step go show ?thesis by (auto split: prod.splits bool.splits)
  next
    case (W_give_wake g)
    with step have "wake_one (F_signals g) u (wgo t W_done id s) = Some s'" by simp
    moreover have "mutex_inv (wgo t W_done id s)" using go W_give_wake by simp
    ultimately show ?thesis using mutex_inv_wake_one by blast
  next
    case W_relock
    with step inv show ?thesis by (auto intro: mutex_inv_acquire split: if_splits)
  qed (use step go in \<open>auto simp: mutex_inv_wake_all Let_def split: prod.splits\<close>)
qed

lemma signal_step_mutex:
  assumes inv: "mutex_inv s" and step: "signal_step t sp u j p s = Some s'"
  shows "mutex_inv s'"
proof -
  have go: "mutex_inv (sgo t j q f s)" "mutex_inv (cmove t Idle f s)" for q f
    using inv by (simp_all add: sgo_def mutex_inv_cmove)
  show ?thesis
  proof (cases p)
    case (Q_at q g orig start)
    with step go show ?thesis by (cases q) (auto simp: Let_def split: prod.splits if_splits)
  next
    case (S_wake g)
    with step go mutex_inv_wake_one [OF go(2)] show ?thesis
      by (auto simp: mutex_inv_wake_all split: job.splits)
  next
    case (S_unlock w)
    with step inv show ?thesis by (auto intro!: mutex_inv_cmove split: option.splits)
  qed (use inv step go in \<open>auto simp: mutex_inv_wake_all Let_def split: prod.splits bool.splits option.splits\<close>)
qed

lemma destroy_step_mutex:
  assumes inv: "mutex_inv s" and step: "destroy_step t p s = Some s'"
  shows "mutex_inv s'"
  using step inv by (cases p) (auto simp: dgo_def intro!: mutex_inv_cmove split: prod.splits)

lemma cond_act_mutex:
  assumes inv: "mutex_inv s" and act: "cond_act c s = Some s'"
  shows "mutex_inv s'"
proof (cases c)
  case (Cstep t sp u)
  with act inv wait_step_mutex [OF inv] signal_step_mutex [OF inv] destroy_step_mutex [OF inv] show ?thesis
    by (auto simp: cond_step_def split: cpc.splits)
next
  case (Lock_mutex t)
  with act inv show ?thesis by (auto simp: call_def intro: mutex_inv_acquire split: if_splits)
next
  case (Unlock_mutex t)
  with act inv show ?thesis by (auto simp: call_def intro: mutex_inv_release split: if_splits)
next
  case (Call_wait t)
  with act inv show ?thesis
    by (auto simp: wgo_def owner_ok_def released_def intro!: mutex_inv_cmove split: if_splits prod.splits)
next
  case (Return t)
  with act inv show ?thesis by (auto simp: mutex_inv_def split: if_splits)
next
  case Contend
  with act inv show ?thesis by (auto simp: mutex_inv_def split: if_splits)
qed (use act inv in \<open>auto simp: call_def intro!: mutex_inv_cmove split: if_splits\<close>)

interpretation cond_mutex: safe_system cond_act cond_start mutex_inv
proof unfold_locales
  show "cond_start s \<Longrightarrow> mutex_inv s" for s by (simp add: cond_start_def mutex_inv_def)
qed (rule cond_act_mutex)

lemma wait_step_returns:
  assumes "pthread_cond_wait t sp u p s = Some s'" and "cpcs s t = In_wait p"
  shows "waiting (cpcs s' t) \<or> p = W_relock \<and> mutex_owner s = None \<and> mutex_owner s' = Some t"
proof -
  have all: "waiting (cpcs (wake_all f v) t) \<longleftrightarrow> waiting (cpcs v t)" for f v
    by (simp add: wake_all_def)
  have one: "waiting (cpcs v' t) \<longleftrightarrow> waiting (cpcs v t)" if "wake_one f w v = Some v'" for f w v v'
    using that by (auto simp: wake_one_def split: if_splits)
  have go: "waiting (cpcs (wgo t q f v) t)" for q f v by (simp add: wgo_def)
  show ?thesis
  proof (cases p)
    case (W_cas seq g v)
    with assms go show ?thesis by (auto split: prod.splits bool.splits)
  next
    case (W_give g st v)
    with assms go show ?thesis by (auto split: prod.splits bool.splits)
  next
    case (W_give_wake g)
    with assms have "wake_one (F_signals g) u (wgo t W_done id s) = Some s'" by simp
    from one [OF this] go show ?thesis by simp
  next
    case W_relock
    with assms show ?thesis by (auto split: if_splits)
  qed (use assms go in \<open>auto simp: all Let_def split: prod.splits\<close>)
qed

section \<open>Properties\<close>

text \<open>C21: the mutex in \<^verbatim>\<open>pthread_cond_wait\<close>. A thread owns it until its third stage, does not own it
  while it waits, sleeps or leaves, and owns it when the call returns; so no two threads are
  between the call and the third stage at once.\<close>

theorem cond_wait_holds_mutex_on_return:
  assumes "reachable cond_act cond_start s"
  shows "(entering (cpcs s t) \<longrightarrow> mutex_owner s = Some t) \<and> (released (cpcs s t) \<longrightarrow> mutex_owner s \<noteq> Some t) \<and>
    (\<forall>sp u s'. waiting (cpcs s t) \<and> cond_act (Cstep t sp u) s = Some s' \<and> \<not> waiting (cpcs s' t) \<longrightarrow>
       mutex_owner s = None \<and> mutex_owner s' = Some t)"
proof -
  have "mutex_inv s" using assms by (rule cond_mutex.reachable_inv)
  then have ok: "owner_ok (mutex_owner s) t (cpcs s t)" by (simp add: mutex_inv_def)
  have "mutex_owner s = None \<and> mutex_owner s' = Some t"
    if w: "waiting (cpcs s t)" and step: "cond_act (Cstep t sp u) s = Some s'" and nw: "\<not> waiting (cpcs s' t)" for sp u s'
  proof -
    from w obtain p where p: "cpcs s t = In_wait p" by (cases "cpcs s t") auto
    with step have step': "pthread_cond_wait t sp u p s = Some s'" by (simp add: cond_step_def)
    from wait_step_returns [OF this p] nw show ?thesis by simp
  qed
  with ok show ?thesis unfolding owner_ok_def by blast
qed


theorem cond_wait_holds_mutex_on_return_witness:
  "reachable cond_act cond_start cond_example \<and> mutex_owner cond_example \<noteq> Some 4"
  using cond_wait_holds_mutex_on_return [OF cond_example_reachable, of 4] cond_example_run(2)
    cond_example_reachable by (simp add: released_def)

text \<open>C11: no signal is lost at the door. A thread that has called wait is announced before it gives up
  the mutex: as soon as it does not own the mutex any more, and until its fifth stage, a signal or
  broadcast by anybody does not take the fast path that returns without looking at the groups. So a
  thread that changes the condition under the mutex and then signals finds every waiter that tested
  the condition before.\<close>

theorem cond_signal_never_misses_entered_waiter:
  assumes "reachable cond_act cond_start s"
    and "cpcs s t = In_wait p" and "mutex_owner s \<noteq> Some t" and "p \<noteq> W_done_wake \<and> p \<noteq> W_relock"
    and "cpcs s v = In_signal j S_fast"
  shows "\<exists>s'. cond_act (Cstep v sp w) s = Some s' \<and> cpcs s' v = In_signal j S_lock"
proof -
  have "owner_ok (mutex_owner s) t (cpcs s t)"
    using cond_mutex.reachable_inv [OF assms(1)] by (simp add: mutex_inv_def)
  with assms(2,3) have "\<not> entering (In_wait p)" by (auto simp: owner_ok_def)
  with assms(4) have ref: "has_wref (cpcs s t)" unfolding assms(2) by (cases p) auto
  have inv: "cond_inv s" using assms(1) by (rule cond.reachable_inv)
  then have "t < nthreads s" using thread_bound [of s t] assms(2) by simp
  from count_pos [OF this, of has_wref] ref have "0 < count has_wref s" by simp
  then have "WaitersRef (wrefs (cv s)) \<noteq> 0"
    using inv WaitersRef_unat [of "wrefs (cv s)"] by (auto simp: cond_inv_def refs_ok_def)
  with assms(5) show ?thesis by (simp add: cond_step_def sgo_def atomic_load_def)
qed

definition signal_example :: cond_sys where
  "signal_example = the (run_sched cond_act (enter_wait 0 @ [Call_signal 5]) cond_sys0)"

lemma signal_example_run:
  "run_sched cond_act (enter_wait 0 @ [Call_signal 5]) cond_sys0 = Some signal_example"
  "cpcs signal_example 0 = In_wait (W_load 0 0) \<and> mutex_owner signal_example = None \<and>
   cpcs signal_example 5 = In_signal Sig S_fast"
proof -
  have "case run_sched cond_act (enter_wait 0 @ [Call_signal 5]) cond_sys0 of None \<Rightarrow> False | Some s \<Rightarrow>
      cpcs s 0 = In_wait (W_load 0 0) \<and> mutex_owner s = None \<and> cpcs s 5 = In_signal Sig S_fast" by code_simp
  then show "run_sched cond_act (enter_wait 0 @ [Call_signal 5]) cond_sys0 = Some signal_example"
    "cpcs signal_example 0 = In_wait (W_load 0 0) \<and> mutex_owner signal_example = None \<and>
     cpcs signal_example 5 = In_signal Sig S_fast"
    by (auto simp: signal_example_def split: option.splits)
qed

theorem cond_signal_never_misses_entered_waiter_witness:
  "\<exists>s'. cond_act (Cstep 5 False 0) signal_example = Some s' \<and> cpcs s' 5 = In_signal Sig S_lock"
proof -
  have r: "reachable cond_act cond_start signal_example"
    by (rule run_sched_from_init [where init = cond_start, OF cond_start_0 signal_example_run(1)])
  show ?thesis
    by (rule cond_signal_never_misses_entered_waiter [OF r, of 0 "W_load 0 0"])
       (use signal_example_run(2) in simp_all)
qed

end
