(* ===== verification/Cond_Locks.thy ===== *)
theory Cond_Locks
  imports Cond_Kernel Cond_Mutex Lock_Kernel
begin

text \<open>
  The condition variable with everything below it: threads that run \<^verbatim>\<open>nptl/pthread_cond.h\<close> with
  \<^verbatim>\<open>_InnerLock\<close> and \<^verbatim>\<open>pthread_mutex_lock\<close> as the steps of \<^verbatim>\<open>three_states_lock\<close> on \<^verbatim>\<open>g1_orig_size\<close> and on
  the word of the mutex, both in the memory of userspace, and with every wait and wake-up of the
  condition variable and of the two locks in the wait queues of \<^verbatim>\<open>kernel/k_futex.h\<close>. The abstract
  locks of \<open>Cond_Conc\<close> are shown to be met by the real ones.
\<close>

section \<open>Threads\<close>

text \<open>
  Besides its point in the operations of the condition variable a thread has one in the code of each
  lock. It holds the lock from \<open>Holding\<close> to its unlock; after an unlock that found waiters it is at
  \<open>U_wake\<close> and goes on only when its wake-up is out.
\<close>

record 'k cond_locks_sys =
  cl_cond :: "'k cond_os_sys"
  cl_inner :: "tid \<Rightarrow> lock_pc"
  cl_mutex :: "tid \<Rightarrow> lock_pc"

abbreviation cl_sys :: "'k cond_locks_sys \<Rightarrow> cond_sys" where
  "cl_sys s \<equiv> co_sys (cl_cond s)"

abbreviation cl_os :: "'k cond_locks_sys \<Rightarrow> 'k" where
  "cl_os s \<equiv> co_os (cl_cond s)"

definition cl_goto ::
  "tid \<Rightarrow> cpc \<Rightarrow> (cond_sys \<Rightarrow> cond_sys) \<Rightarrow> 'k cond_locks_sys \<Rightarrow> 'k cond_locks_sys" where
  "cl_goto t p g s = s\<lparr>cl_cond := \<lparr>co_os = cl_os s, co_sys = cmove t p id (g (cl_sys s))\<rparr>\<rparr>"

text \<open>A step of the code of a lock, on the word that memory has and the points in this lock.\<close>

definition set_orig :: "u32 \<Rightarrow> cond_sys \<Rightarrow> cond_sys" where
  "set_orig w v = v\<lparr>cv := (cv v)\<lparr>g1_orig_size := w\<rparr>\<rparr>"

definition run_inner ::
  "'k os \<Rightarrow> addr \<Rightarrow> ('k lock_os_sys \<Rightarrow> 'k lock_os_sys option) \<Rightarrow> 'k cond_locks_sys \<Rightarrow>
   'k cond_locks_sys option" where
  "run_inner os base f s =
     map_option (\<lambda>l. s\<lparr>cl_cond := \<lparr>co_os = lk_os l,
          co_sys = set_orig (os_mem os (lk_os l) (orig_addr base)) (cl_sys s)\<rparr>, cl_inner := lk_pcs l\<rparr>)
       (f \<lparr>lk_os = cl_os s, lk_pcs = cl_inner s\<rparr>)"

definition run_mutex ::
  "('k lock_os_sys \<Rightarrow> 'k lock_os_sys option) \<Rightarrow> 'k cond_locks_sys \<Rightarrow> 'k cond_locks_sys option" where
  "run_mutex f s =
     map_option (\<lambda>l. s\<lparr>cl_cond := \<lparr>co_os = lk_os l, co_sys = cl_sys s\<rparr>, cl_mutex := lk_pcs l\<rparr>)
       (f \<lparr>lk_os = cl_os s, lk_pcs = cl_mutex s\<rparr>)"

section \<open>The locks\<close>

text \<open>\<^verbatim>\<open>_InnerLock()\<close> of a signaler and \<^verbatim>\<open>_InnerUnlock()\<close>; \<open>w\<close> is the group it wakes afterwards.\<close>

definition inner_lock_os ::
  "'k os \<Rightarrow> addr \<Rightarrow> tid \<Rightarrow> bool \<Rightarrow> job \<Rightarrow> 'k cond_locks_sys \<Rightarrow> 'k cond_locks_sys option" where
  "inner_lock_os os base t spurious j s =
     (if cl_inner s t = Outside
      then run_inner os base (user_step os (orig_addr base) (lock_act (Call t))) s
      else map_option (\<lambda>s. if cl_inner s t = Holding then cl_goto t (In_signal j S_wseq) id s else s)
             (run_inner os base (three_states_lock_os os (orig_addr base) t spurious) s))"

definition inner_unlock_os ::
  "'k os \<Rightarrow> addr \<Rightarrow> tid \<Rightarrow> job \<Rightarrow> u32 option \<Rightarrow> 'k cond_locks_sys \<Rightarrow> 'k cond_locks_sys option" where
  "inner_unlock_os os base t j w s =
     map_option (cl_goto t (case w of None \<Rightarrow> Idle | Some g \<Rightarrow> In_signal j (S_wake g)) id)
       (run_inner os base (user_step os (orig_addr base) (three_states_unlock t)) s)"

text \<open>
  \<^verbatim>\<open>pthread_mutex_lock(mutex)\<close>, by a user of the mutex or at the end of a wait, and
  \<^verbatim>\<open>pthread_mutex_unlock(mutex)\<close>. \<open>mutex_owner\<close> only records who has the mutex.
\<close>

definition mutex_lock_os ::
  "'k os \<Rightarrow> addr \<Rightarrow> tid \<Rightarrow> bool \<Rightarrow> 'k cond_locks_sys \<Rightarrow> 'k cond_locks_sys option" where
  "mutex_lock_os os m t spurious s =
     (if cl_mutex s t = Outside
      then run_mutex (user_step os m (lock_act (Call t))) s
      else map_option
             (\<lambda>s. if cl_mutex s t = Holding then cl_goto t Idle (\<lambda>v. v\<lparr>mutex_owner := Some t\<rparr>) s else s)
             (run_mutex (three_states_lock_os os m t spurious) s))"

definition mutex_unlock_os ::
  "'k os \<Rightarrow> addr \<Rightarrow> tid \<Rightarrow> cpc \<Rightarrow> 'k cond_locks_sys \<Rightarrow> 'k cond_locks_sys option" where
  "mutex_unlock_os os m t p s =
     map_option (cl_goto t p (\<lambda>v. v\<lparr>mutex_owner := None\<rparr>)) (run_mutex (user_step os m (three_states_unlock t)) s)"

section \<open>The system\<close>

definition cond_locks_step ::
  "'k os \<Rightarrow> addr \<Rightarrow> addr \<Rightarrow> tid \<Rightarrow> bool \<Rightarrow> 'k cond_locks_sys \<Rightarrow> 'k cond_locks_sys option" where
  "cond_locks_step os base m t spurious s =
     (if cl_inner s t = U_wake then run_inner os base (unlock_wake_os os (orig_addr base) t) s
      else if cl_mutex s t = U_wake then run_mutex (unlock_wake_os os m t) s
      else case cpcs (cl_sys s) t of
        In_signal j p \<Rightarrow>
          (case p of
             S_lock \<Rightarrow> inner_lock_os os base t spurious j s
           | S_unlock w \<Rightarrow> inner_unlock_os os base t j w s
           | _ \<Rightarrow> map_option (\<lambda>c. s\<lparr>cl_cond := c\<rparr>) (cond_step_os os base t spurious (cl_cond s)))
      | In_wait p \<Rightarrow>
          (case p of
             W_unlock seq g \<Rightarrow> mutex_unlock_os os m t (In_wait (W_load seq g)) s
           | W_relock \<Rightarrow> mutex_lock_os os m t spurious s
           | _ \<Rightarrow> map_option (\<lambda>c. s\<lparr>cl_cond := c\<rparr>) (cond_step_os os base t spurious (cl_cond s)))
      | In_destroy p \<Rightarrow> map_option (\<lambda>c. s\<lparr>cl_cond := c\<rparr>) (cond_step_os os base t spurious (cl_cond s))
      | Idle \<Rightarrow> if cl_mutex s t = Outside \<or> cl_mutex s t = Holding then None
                else mutex_lock_os os m t spurious s)"

text \<open>A thread that is in none of the operations, with the mutex or without.\<close>

definition at_rest :: "'k cond_locks_sys \<Rightarrow> tid \<Rightarrow> bool" where
  "at_rest s t \<longleftrightarrow> cpcs (cl_sys s) t = Idle \<and> cl_inner s t = Outside \<and>
     (cl_mutex s t = Outside \<or> cl_mutex s t = Holding)"

definition cond_locks_call ::
  "'k os \<Rightarrow> addr \<Rightarrow> tid \<Rightarrow> cond_action \<Rightarrow> 'k cond_locks_sys \<Rightarrow> 'k cond_locks_sys option" where
  "cond_locks_call os base t c s =
     (if at_rest s t then map_option (\<lambda>c. s\<lparr>cl_cond := c\<rparr>) (cond_user_step os base c (cl_cond s)) else None)"

text \<open>
  The actions of \<open>Cond_Conc\<close>. Who contends for the inner lock is decided by the threads, who is woken
  by the kernel.
\<close>

definition cond_locks_act ::
  "'k os \<Rightarrow> addr \<Rightarrow> addr \<Rightarrow> cond_action \<Rightarrow> 'k cond_locks_sys \<Rightarrow> 'k cond_locks_sys option" where
  "cond_locks_act os base m c s =
     (case c of
        Lock_mutex t \<Rightarrow>
          if at_rest s t \<and> t < nthreads (cl_sys s) \<and> cl_mutex s t = Outside
          then mutex_lock_os os m t False s else None
      | Unlock_mutex t \<Rightarrow>
          if at_rest s t \<and> cl_mutex s t = Holding then mutex_unlock_os os m t Idle s else None
      | Cstep t spurious u \<Rightarrow> cond_locks_step os base m t spurious s
      | Call_wait t \<Rightarrow> cond_locks_call os base t c s
      | Call_signal t \<Rightarrow> cond_locks_call os base t c s
      | Call_broadcast t \<Rightarrow> cond_locks_call os base t c s
      | Call_destroy t \<Rightarrow> cond_locks_call os base t c s
      | Return t \<Rightarrow> None
      | Contend \<Rightarrow> None)"


section \<open>A step of a lock\<close>

text \<open>What the code of the lock may make of the word \<open>w\<close>, at the point \<open>p'\<close> that it goes to.\<close>

definition lock_word_step :: "u32 \<Rightarrow> u32 \<Rightarrow> lock_pc \<Rightarrow> bool" where
  "lock_word_step w w' p' \<longleftrightarrow> local_ok p' \<and> is_lock_state w' \<and> p' \<noteq> Outside \<and> p' \<noteq> U_wake \<and>
     (if p' = Holding
      then State w = three_states_unlocked \<and>
        (w' = w OR three_states_locked_no_waiter \<or> w' = ClearState w OR three_states_locked_waiters)
      else w' = w \<or>
        State w = three_states_locked_no_waiter \<and> w' = ClearState w OR three_states_locked_waiters)"

lemma lock_word_stay: "is_lock_state w \<Longrightarrow> local_ok p \<Longrightarrow> p \<notin> {Outside, U_wake, Holding} \<Longrightarrow> lock_word_step w w p"
  by (simp add: lock_word_step_def)

lemma head_not_out [simp]:
  "slow_head e \<noteq> Outside" "slow_head e \<noteq> U_wake" "fast_head e \<noteq> Outside" "fast_head e \<noteq> U_wake"
  by (auto simp: slow_head_def fast_head_def)

lemma user_step_word:
  assumes step: "user_step os a (three_states_lock t sp) \<lparr>lk_os = k, lk_pcs = pcs\<rparr> = Some l"
    and pc: "\<And>e. pcs t \<noteq> L_wait e" "local_ok (pcs t)" and w: "is_lock_state (os_mem os k a)"
  obtains w p where "l = \<lparr>lk_os = os_store os a w k, lk_pcs = pcs(t := p)\<rparr>"
    "lock_word_step (os_mem os k a) w p" "p \<noteq> L_blocked"
proof -
  let ?w = "os_mem os k a" and ?s = "\<lparr>lock_word = os_mem os k a, lock_pcs = pcs, sleepers = []\<rparr>"
  from step obtain v where v: "three_states_lock t sp ?s = Some v"
    and l: "l = \<lparr>lk_os = os_store os a (lock_word v) k, lk_pcs = lock_pcs v\<rparr>"
    by (auto simp: user_step_def)
  have "lock_pcs v = pcs(t := lock_pcs v t) \<and> lock_word_step ?w (lock_word v) (lock_pcs v t) \<and>
    lock_pcs v t \<noteq> L_blocked"
  proof (cases "pcs t")
    case L_load
    with v w show ?thesis
      by (auto simp: three_states_lock_def atomic_defs goto_def intro!: lock_word_stay)
  next
    case L_reload
    with v w show ?thesis
      by (auto simp: three_states_lock_def atomic_defs goto_def intro!: lock_word_stay)
  next
    case (L_fast e)
    with v w pc(2) show ?thesis
      by (auto simp: three_states_lock_def atomic_defs goto_def is_lock_state_def
            intro!: lock_word_stay split: if_splits) (simp_all add: lock_word_step_def is_lock_state_def)
  next
    case (L_slow e)
    let ?d = "ClearState e OR three_states_locked_waiters"
    from L_slow v consider
        "?w = e" "State e = three_states_unlocked" "v = goto t Holding (?s\<lparr>lock_word := ?d\<rparr>)"
      | "?w = e" "State e \<noteq> three_states_unlocked" "v = goto t (L_wait ?d) (?s\<lparr>lock_word := ?d\<rparr>)"
      | "v = goto t (slow_head ?w) ?s"
      | "State ?w \<noteq> three_states_unlocked" "v = goto t (L_wait ?w) ?s"
      by (auto simp: lock_act_defs atomic_defs Let_def split: if_splits)
    then show ?thesis
    proof cases
      case 1
      then show ?thesis by (auto simp: goto_def lock_word_step_def is_lock_state_def)
    next
      case 2
      with L_slow pc(2) show ?thesis by (auto simp: goto_def lock_word_step_def is_lock_state_def)
    next
      case 3
      with w show ?thesis by (auto simp: goto_def intro!: lock_word_stay)
    next
      case 4
      with w have "local_ok (L_wait ?w)" by (auto simp: is_lock_state_def)
      with 4 w show ?thesis by (auto simp: goto_def intro!: lock_word_stay)
    qed
  qed (use v pc in \<open>simp_all add: three_states_lock_def\<close>)
  with l that show thesis by metis
qed


context futex_service begin

text \<open>A step of \<^verbatim>\<open>three_states_lock\<close> moves its thread, or puts it to sleep on the word.\<close>

lemma lock_os_step [consumes 6]:
  assumes step: "three_states_lock_os os a t sp \<lparr>lk_os = k, lk_pcs = pcs\<rparr> = Some l"
    and ok: "ok k" and t: "t < N" and awake: "pcs t \<noteq> L_blocked \<longrightarrow> (\<forall>b. t \<notin> set (on k b))"
    and pc: "local_ok (pcs t)" and word: "is_lock_state (os_mem os k a)"
  obtains (moved) k' w p where "l = \<lparr>lk_os = k', lk_pcs = pcs(t := p)\<rparr>" "ok k'"
      "os_mem os k' = (os_mem os k)(a := w)" "on k' = on k" "\<And>u. u \<noteq> t \<Longrightarrow> pend k' u = pend k u"
      "lock_word_step (os_mem os k a) w p" "p \<noteq> L_blocked" "pcs t = L_blocked \<Longrightarrow> pend k t"
  | (slept) k' where "l = \<lparr>lk_os = k', lk_pcs = pcs(t := L_blocked)\<rparr>" "ok k'"
      "os_mem os k' = os_mem os k" "on k' = (on k)(a := t # on k a)" "pend k' = (pend k)(t := False)"
      "pcs t \<noteq> L_blocked"
proof -
  have stay: "lock_word_step (os_mem os k a) (os_mem os k a) L_reload"
    using word by (intro lock_word_stay) simp_all
  show thesis
  proof (cases "pcs t")
    case (L_wait e)
    then have asleep: "t \<notin> set (on k b)" for b using awake by simp
    show thesis
    proof (cases "os_mem os k a = e")
      case True
      obtain k' where k': "os_futex os t a FUTEX_WAIT e k = (None, k')" "ok k'"
        "os_mem os k' = os_mem os k" "on k' = (on k)(a := t # on k a)" "pend k' = (pend k)(t := False)"
        by (rule futex_wait_slept [OF ok t asleep True])
      with step L_wait have "l = \<lparr>lk_os = k', lk_pcs = pcs(t := L_blocked)\<rparr>"
        by (simp add: three_states_lock_os_def lk_goto_def)
      from slept [OF this k'(2-5)] L_wait show thesis by simp
    next
      case False
      obtain k' where k': "os_futex os t a FUTEX_WAIT e k = (Some (- EWOULDBLOCK), k')" "ok k'"
        "os_mem os k' = os_mem os k" "on k' = on k" "pend k' = (pend k)(t := False)"
        by (rule futex_wait_refused [OF ok t asleep False])
      with step L_wait have "l = \<lparr>lk_os = k', lk_pcs = pcs(t := L_reload)\<rparr>"
        by (simp add: three_states_lock_os_def lk_goto_def)
      from moved [OF this k'(2) _ k'(4) _ stay] k' L_wait show thesis by simp
    qed
  next
    case L_blocked
    with step obtain k' where run: "os_resume os t k = Some k'"
      and l: "l = \<lparr>lk_os = k', lk_pcs = pcs(t := L_reload)\<rparr>"
      by (auto simp: three_states_lock_os_def lk_goto_def)
    have pend: "pend k t" using run resume_blocked [OF ok] by force
    from resume_runs [OF ok pend] run have k': "ok k'" "os_mem os k' = os_mem os k" "on k' = on k"
      "pend k' = (pend k)(t := False)" by auto
    from moved [OF l k'(1) _ k'(3) _ stay] k' pend show thesis by simp
  next
    case Outside
    with step show thesis by (simp add: three_states_lock_os_def user_step_def three_states_lock_def)
  next
    case Holding
    with step show thesis by (simp add: three_states_lock_os_def user_step_def three_states_lock_def)
  next
    case U_wake
    with step show thesis by (simp add: three_states_lock_os_def user_step_def three_states_lock_def)
  qed (use step pc word ok moved store_only in \<open>auto simp: three_states_lock_os_def elim!: user_step_word\<close>)
qed

lemma unlock_wake_os_step:
  assumes step: "unlock_wake_os os a t \<lparr>lk_os = k, lk_pcs = pcs\<rparr> = Some l" and ok: "ok k"
  obtains k' where "l = \<lparr>lk_os = k', lk_pcs = pcs(t := Outside)\<rparr>" "pcs t = U_wake" "ok k'"
    "os_mem os k' = os_mem os k" "on k' = (on k)(a := tl (on k a))"
    "pend k' = (\<lambda>u. pend k u \<or> u \<in> set (take 1 (on k a)))"
proof -
  obtain k' where k': "os_futex os t a FUTEX_WAKE 1 k = (Some (int (length (take 1 (on k a)))), k')" "ok k'"
    "os_mem os k' = os_mem os k" "on k' = (on k)(a := tl (on k a))"
    "pend k' = (\<lambda>u. pend k u \<or> u \<in> set (take 1 (on k a)))"
    by (rule futex_wake_one [OF ok])
  with step show thesis
    by (intro that [of k']) (auto simp: unlock_wake_os_def lk_goto_def split: if_splits)
qed

text \<open>What such steps mean for the threads of the condition variable.\<close>

lemma cinv_lock_moved:
  assumes inv: "cinv base L s" and k: "ok k" "on k = on (co_os s)" "\<And>u. u \<noteq> t \<Longrightarrow> pend k u = pend (co_os s) u"
    and t: "t < nthreads (co_sys s)" "blocked_on (cpcs (co_sys s) t) = None" "L t = None \<or> pend (co_os s) t"
    and v: "cpcs v = (cpcs (co_sys s))(t := p)" "nthreads v = nthreads (co_sys s)"
      "words_stored os base (cv v) k" and p: "blocked_on p = None" "group_ok p"
  shows "cinv base (L(t := None)) \<lparr>co_os = k, co_sys = v\<rparr>"
    and "seen_pc pend \<lparr>co_os = k, co_sys = v\<rparr> = (seen_pc pend s)(t := p)"
proof -
  have "elsewhere_ok base (L(t := None)) v"
    using inv v by (simp add: cond_os_inv_def elsewhere_ok_def)
  moreover have "asleep_ok on pend base (L(t := None)) \<lparr>co_os = k, co_sys = v\<rparr>"
    using inv k t v p by (auto simp: cond_os_inv_def asleep_ok_def sleeps_at_def split: option.splits)
  ultimately show "cinv base (L(t := None)) \<lparr>co_os = k, co_sys = v\<rparr>"
    using inv k t v p by (simp add: cond_os_inv_def)
  show "seen_pc pend \<lparr>co_os = k, co_sys = v\<rparr> = (seen_pc pend s)(t := p)"
    using k v p by (auto simp: seen_pc_def Let_def fun_eq_iff)
qed

lemma cinv_lock_slept:
  assumes inv: "cinv base L s" and k: "ok k" "os_mem os k = os_mem os (co_os s)"
      "on k = (on (co_os s))(a := t # on (co_os s) a)" "pend k = (pend (co_os s))(t := False)"
    and t: "t < nthreads (co_sys s)" "blocked_on (cpcs (co_sys s) t) = None" "L t = None"
    and a: "\<And>f. f \<in> set futex_words \<Longrightarrow> futex_addr base f \<noteq> a"
  shows "cinv base (L(t := Some a)) \<lparr>co_os = k, co_sys = co_sys s\<rparr>"
    and "seen_pc pend \<lparr>co_os = k, co_sys = co_sys s\<rparr> = seen_pc pend s"
proof -
  have "elsewhere_ok base (L(t := Some a)) (co_sys s)"
    using inv t a by (simp add: cond_os_inv_def elsewhere_ok_def)
  moreover have "asleep_ok on pend base (L(t := Some a)) \<lparr>co_os = k, co_sys = co_sys s\<rparr>"
    using inv k t a by (simp add: cond_os_inv_def asleep_ok_def sleeps_at_def)
  ultimately show "cinv base (L(t := Some a)) \<lparr>co_os = k, co_sys = co_sys s\<rparr>"
    using inv k by (simp add: cond_os_inv_def words_stored_def)
  show "seen_pc pend \<lparr>co_os = k, co_sys = co_sys s\<rparr> = seen_pc pend s"
    using k t by (auto simp: seen_pc_def Let_def fun_eq_iff)
qed

lemma cinv_lock_wake:
  assumes inv: "cinv base L s" and k: "ok k" "os_mem os k = os_mem os (co_os s)"
      "on k = (on (co_os s))(a := tl (on (co_os s) a))"
      "pend k = (\<lambda>u. pend (co_os s) u \<or> u \<in> set (take 1 (on (co_os s) a)))"
    and t: "blocked_on (cpcs (co_sys s) t) = None" "L t = None"
    and a: "\<And>f. f \<in> set futex_words \<Longrightarrow> futex_addr base f \<noteq> a"
  shows "cinv base L \<lparr>co_os = k, co_sys = co_sys s\<rparr>"
    and "seen_pc pend \<lparr>co_os = k, co_sys = co_sys s\<rparr> = seen_pc pend s"
proof -
  have W: "on (co_os s) a = take 1 (on (co_os s) a) @ tl (on (co_os s) a)"
    by (cases "on (co_os s) a") simp_all
  have same: "co_goto t (cpcs (co_sys s) t) k s = \<lparr>co_os = k, co_sys = co_sys s\<rparr>"
    by (simp add: co_goto_def cmove_def)
  have "asleep_ok on pend base L (co_goto t (cpcs (co_sys s) t) k s)"
    by (rule asleep_wake [where s = s and a = a and rest = "tl (on (co_os s) a)" and W = "take 1 (on (co_os s) a)"])
       (use inv k W t in \<open>simp_all add: cond_os_inv_def\<close>)
  then show "cinv base L \<lparr>co_os = k, co_sys = co_sys s\<rparr>"
    using inv k by (simp add: same cond_os_inv_def words_stored_def)
  have "blocked_on (cpcs (co_sys s) u) = None" if u: "u \<in> set (take 1 (on (co_os s) a))" for u
  proof (cases "u < nthreads (co_sys s)")
    case True
    from u have "u \<in> set (on (co_os s) a)" by (rule in_set_takeD)
    with inv True have at: "sleeps_at base (L u) (cpcs (co_sys s) u) a" by (simp add: cond_os_inv_def asleep_ok_def)
    show ?thesis
    proof (rule ccontr)
      assume "blocked_on (cpcs (co_sys s) u) \<noteq> None"
      then obtain f where f: "blocked_on (cpcs (co_sys s) u) = Some f" by blast
      with inv have "L u = None" by (auto simp: cond_os_inv_def elsewhere_ok_def dest: spec [of _ u])
      with at f have "a = futex_addr base f" by (simp add: sleeps_at_def)
      moreover have "f \<in> set futex_words" using blocked_futex_words [OF _ f] inv by (simp add: cond_os_inv_def)
      ultimately show False using a by blast
    qed
  next
    case False
    with inv show ?thesis by (simp add: cond_os_inv_def)
  qed
  then show "seen_pc pend \<lparr>co_os = k, co_sys = co_sys s\<rparr> = seen_pc pend s"
    using k by (auto simp: seen_pc_def Let_def fun_eq_iff)
qed

end


section \<open>The invariant\<close>

text \<open>The points at which a thread is on its way to the lock.\<close>

fun locking :: "lock_pc \<Rightarrow> bool" where
  "locking Outside \<longleftrightarrow> False"
| "locking Holding \<longleftrightarrow> False"
| "locking U_wake \<longleftrightarrow> False"
| "locking _ \<longleftrightarrow> True"

definition inner_pc_ok :: "cpc \<Rightarrow> lock_pc \<Rightarrow> bool" where
  "inner_pc_ok p l \<longleftrightarrow> local_ok l \<and> (l = Holding \<longleftrightarrow> holds_inner p) \<and>
     (locking l \<longrightarrow> (\<exists>j. p = In_signal j S_lock)) \<and>
     (l = U_wake \<longrightarrow> p = Idle \<or> (\<exists>j g. p = In_signal j (S_wake g)))"

definition mutex_pc_ok :: "cpc \<Rightarrow> lock_pc \<Rightarrow> bool" where
  "mutex_pc_ok p l \<longleftrightarrow> local_ok l \<and> (locking l \<longrightarrow> p = Idle \<or> p = In_wait W_relock) \<and>
     (l = U_wake \<longrightarrow> p = Idle \<or> (\<exists>seq g. p = In_wait (W_load seq g)))"

text \<open>A thread is on its way through one lock at a time.\<close>

definition lock_pcs_ok :: "cpc \<Rightarrow> lock_pc \<Rightarrow> lock_pc \<Rightarrow> bool" where
  "lock_pcs_ok p l l' \<longleftrightarrow> inner_pc_ok p l \<and> mutex_pc_ok p l' \<and> (l = U_wake \<longrightarrow> \<not> locking l')"

text \<open>The word of a lock that a thread is asleep on.\<close>

definition lock_place :: "addr \<Rightarrow> addr \<Rightarrow> 'k cond_locks_sys \<Rightarrow> tid \<Rightarrow> addr option" where
  "lock_place base m s t =
     (if cl_inner s t = L_blocked then Some (orig_addr base)
      else if cl_mutex s t = L_blocked then Some m else None)"

text \<open>The word \<open>m\<close> of the mutex lies outside of the condition variable.\<close>

definition apart :: "addr \<Rightarrow> addr \<Rightarrow> bool" where
  "apart base m \<longleftrightarrow> m \<noteq> orig_addr base \<and> (\<forall>f \<in> set futex_words. futex_addr base f \<noteq> m)"

definition mutex_word_ok :: "tid option \<Rightarrow> u32 \<Rightarrow> bool" where
  "mutex_word_ok h w \<longleftrightarrow> is_lock_state w \<and> (State w = three_states_unlocked \<longleftrightarrow> h = None)"

definition cond_locks_inv ::
  "'k os \<Rightarrow> ('k \<Rightarrow> addr \<Rightarrow> tid list) \<Rightarrow> ('k \<Rightarrow> tid \<Rightarrow> bool) \<Rightarrow> ('k \<Rightarrow> bool) \<Rightarrow> nat \<Rightarrow> addr \<Rightarrow> addr \<Rightarrow>
   'k cond_locks_sys \<Rightarrow> bool" where
  "cond_locks_inv os on pend ok N base m s \<longleftrightarrow> apart base m \<and>
     cond_os_inv os on pend ok N base (lock_place base m s) (cl_cond s) \<and>
     cond_inv (cond_abs pend (cl_cond s)) \<and>
     (\<forall>t. lock_pcs_ok (cpcs (cl_sys s) t) (cl_inner s t) (cl_mutex s t)) \<and>
     (\<forall>t. mutex_owner (cl_sys s) = Some t \<longleftrightarrow> cl_mutex s t = Holding) \<and>
     mutex_word_ok (mutex_owner (cl_sys s)) (os_mem os (cl_os s) m) \<and>
     (\<forall>t. nthreads (cl_sys s) \<le> t \<longrightarrow> cl_inner s t = Outside \<and> cl_mutex s t = Outside)"

abbreviation cond_steps :: "cond_sys \<Rightarrow> cond_sys \<Rightarrow> bool" where
  "cond_steps \<equiv> (\<lambda>v v'. \<exists>c. cond_act c v = Some v')\<^sup>*\<^sup>*"

lemma cond_steps_inv: "cond_steps v v' \<Longrightarrow> cond_inv v \<Longrightarrow> cond_inv v'"
  by (induction rule: rtranclp_induct) (auto intro: cond.act_inv)

lemma cond_steps_1: "cond_act c v = Some v' \<Longrightarrow> cond_steps v v'"
  by blast

lemma set_orig_simps [simp]:
  "cv (set_orig w v) = (cv v)\<lparr>g1_orig_size := w\<rparr>" "cpcs (set_orig w v) = cpcs v"
  "nthreads (set_orig w v) = nthreads v" "mutex_owner (set_orig w v) = mutex_owner v"
  by (simp_all add: set_orig_def)

lemma set_orig_same [simp]: "set_orig (g1_orig_size (cv v)) v = v"
  by (simp add: set_orig_def)

lemma futex_word_orig [simp]: "futex_word (c\<lparr>g1_orig_size := w\<rparr>) f = futex_word c f"
  by (cases f) simp_all

lemma orig_addr_apart [simp]: "f \<in> set futex_words \<Longrightarrow> futex_addr base f \<noteq> orig_addr base"
  by (auto simp: futex_words_def orig_addr_def)

lemma cmove_same [simp]: "cpcs v t = p \<Longrightarrow> cmove t p id v = v"
  by (auto simp: cmove_def)

lemma set_orig_cmove: "set_orig x (cmove t p id (set_orig y v)) = cmove t p id (set_orig x v)"
  by (cases v) (simp add: cmove_def set_orig_def)

text \<open>The actions of \<open>Cond_Conc\<close> that a step of the inner lock stands for.\<close>

lemma ClearState_fast: "ClearState (w OR three_states_locked_no_waiter) = ClearState w"
  by (intro bit_word_eqI) (auto simp: bit_simps bit_field)

lemma announce_steps:
  assumes "State (g1_orig_size (cv v)) = three_states_locked_no_waiter"
  shows "cond_steps v (set_orig (ClearState (g1_orig_size (cv v)) OR three_states_locked_waiters) v)"
  using assms by (intro cond_steps_1 [of Contend]) (simp add: set_orig_def)

lemma inner_lock_steps:
  assumes step: "lock_word_step (g1_orig_size (cv v)) w p" and pc: "cpcs v t = In_signal j S_lock"
  shows "cond_steps v (cmove t (if p = Holding then In_signal j S_wseq else cpcs v t) id (set_orig w v))"
proof (cases "p = Holding")
  case True
  let ?w = "g1_orig_size (cv v)" and ?x = "g1_orig_size (cv v) OR three_states_locked_no_waiter"
  from True step have free: "State ?w = three_states_unlocked"
    and w: "w = ?x \<or> w = ClearState ?w OR three_states_locked_waiters" by (simp_all add: lock_word_step_def)
  let ?v = "cmove t (In_signal j S_wseq) id (set_orig ?x v)"
  have "cond_act (Cstep t False t) v = Some ?v"
    using free pc by (simp add: cond_step_def inner_lock_def sgo_def cmove_def set_orig_def)
  then have first: "cond_steps v ?v" by (rule cond_steps_1)
  moreover have "cond_steps ?v (set_orig (ClearState ?w OR three_states_locked_waiters) ?v)"
    using announce_steps [of ?v] free by (simp add: ClearState_fast)
  ultimately have "cond_steps v (set_orig (ClearState ?w OR three_states_locked_waiters) ?v)"
    by (rule rtranclp_trans)
  with first w True show ?thesis by (auto simp: set_orig_cmove)
next
  case False
  with step announce_steps [of v] show ?thesis by (auto simp: lock_word_step_def)
qed

lemma mutex_lock_steps:
  assumes "mutex_owner v = None" and "t < nthreads v" and "cpcs v t = Idle \<or> cpcs v t = In_wait W_relock"
  shows "cond_steps v (cmove t Idle id (v\<lparr>mutex_owner := Some t\<rparr>))"
  using assms(3)
proof
  assume "cpcs v t = Idle"
  with assms show ?thesis by (intro cond_steps_1 [of "Lock_mutex t"]) (simp add: call_def)
next
  assume "cpcs v t = In_wait W_relock"
  with assms show ?thesis by (intro cond_steps_1 [of "Cstep t False t"]) (simp add: cond_step_def)
qed

lemma mutex_unlock_steps:
  assumes "mutex_owner v = Some t" and "t < nthreads v"
    and "cpcs v t = Idle \<and> q = Idle \<or> (\<exists>seq g. cpcs v t = In_wait (W_unlock seq g) \<and> q = In_wait (W_load seq g))"
  shows "cond_steps v (cmove t q id (v\<lparr>mutex_owner := None\<rparr>))"
  using assms(3)
proof
  assume "cpcs v t = Idle \<and> q = Idle"
  with assms show ?thesis by (intro cond_steps_1 [of "Unlock_mutex t"]) (simp add: call_def)
next
  assume "\<exists>seq g. cpcs v t = In_wait (W_unlock seq g) \<and> q = In_wait (W_load seq g)"
  with assms show ?thesis by (intro cond_steps_1 [of "Cstep t False t"]) (auto simp: cond_step_def wgo_def)
qed

text \<open>All other steps leave the locks alone.\<close>

fun lock_point :: "cpc \<Rightarrow> bool" where
  "lock_point Idle \<longleftrightarrow> True"
| "lock_point (In_signal j S_lock) \<longleftrightarrow> True"
| "lock_point (In_signal j (S_unlock w)) \<longleftrightarrow> True"
| "lock_point (In_wait (W_unlock seq g)) \<longleftrightarrow> True"
| "lock_point (In_wait W_relock) \<longleftrightarrow> True"
| "lock_point _ \<longleftrightarrow> False"

lemma cond_step_keeps_locks:
  assumes "cond_step t sp u v = Some v'" and "futex_call (cpcs v t) = None" and "\<not> lock_point (cpcs v t)"
  shows "mutex_owner v' = mutex_owner v \<and> holds_inner (cpcs v' t) = holds_inner (cpcs v t)"
proof (cases "cpcs v t")
  case (In_wait p)
  with assms show ?thesis
    by (cases p) (auto simp: cond_step_def wgo_def Let_def cmove_def wait_leave_def split: if_splits prod.splits bool.splits)
next
  case (In_signal j p)
  show ?thesis
  proof (cases "\<exists>q g orig start. p = Q_at q g orig start")
    case True
    then obtain q g orig start where p: "p = Q_at q g orig start" by blast
    with assms In_signal show ?thesis
      by (cases q) (auto simp: cond_step_def sgo_def Let_def cmove_def split: if_splits prod.splits)
  next
    case False
    with assms In_signal show ?thesis
      by (cases p) (auto simp: cond_step_def sgo_def Let_def cmove_def
        split: if_splits prod.splits bool.splits job.splits)
  qed
next
  case (In_destroy p)
  with assms show ?thesis
    by (cases p) (auto simp: cond_step_def dgo_def cmove_def split: if_splits prod.splits)
qed (use assms in simp)

lemma cond_step_total:
  assumes "futex_call (cpcs v t) = None" and "blocked_on (cpcs v t) = None" and "\<not> lock_point (cpcs v t)"
    and "cpcs v t \<noteq> In_destroy D_done"
  shows "\<exists>v'. cond_step t sp u v = Some v'"
proof (cases "cpcs v t")
  case (In_wait p)
  with assms show ?thesis by (cases p) (auto simp: cond_step_def Let_def split: prod.splits bool.splits)
next
  case (In_signal j p)
  show ?thesis
  proof (cases "\<exists>q g orig start. p = Q_at q g orig start")
    case True
    then obtain q g orig start where p: "p = Q_at q g orig start" by blast
    with assms In_signal show ?thesis
      by (cases q) (auto simp: cond_step_def Let_def split: prod.splits)
  next
    case False
    with assms In_signal show ?thesis
      by (cases p) (auto simp: cond_step_def Let_def split: prod.splits bool.splits job.splits)
  qed
next
  case (In_destroy p)
  with assms show ?thesis by (cases p) (auto simp: cond_step_def split: prod.splits)
qed (use assms in simp)

lemma call_keeps_inner:
  assumes "futex_call p = Some (f, futex_op, val)"
  shows "holds_inner (after_call p) = holds_inner p" and "holds_inner (sleep_pc p) = holds_inner p"
  using assms by (cases p rule: futex_call.cases; simp)+

lemma locking_cases [simp]: "\<not> locking l \<Longrightarrow> l \<noteq> L_blocked"
  by auto


text \<open>The mutex is free, nobody is in any of the operations or asleep on one of the words.\<close>

definition cond_locks_start ::
  "'k os \<Rightarrow> ('k \<Rightarrow> addr \<Rightarrow> tid list) \<Rightarrow> ('k \<Rightarrow> bool) \<Rightarrow> nat \<Rightarrow> addr \<Rightarrow> addr \<Rightarrow> 'k cond_locks_sys \<Rightarrow> bool" where
  "cond_locks_start os on ok N base m s \<longleftrightarrow> apart base m \<and> cond_os_start os on ok N base (cl_cond s) \<and>
     os_mem os (cl_os s) m = three_states_unlocked \<and> cl_inner s = (\<lambda>_. Outside) \<and> cl_mutex s = (\<lambda>_. Outside)"

context futex_service begin

abbreviation "clinv base m \<equiv> cond_locks_inv os on pend ok N base m"
abbreviation "clabs s \<equiv> cond_abs pend (cl_cond s)"

text \<open>A step in the code of the inner lock that does not sleep: the thread goes on to \<open>q\<close>.\<close>

lemma inner_moved:
  assumes inv: "clinv base m s" and t: "t < nthreads (cl_sys s)" "blocked_on (cpcs (cl_sys s) t) = None"
    and k: "ok k" "os_mem os k = (os_mem os (cl_os s))(orig_addr base := w)" "on k = on (cl_os s)"
      "\<And>u. u \<noteq> t \<Longrightarrow> pend k u = pend (cl_os s) u"
    and l: "cl_inner s t = L_blocked \<Longrightarrow> pend (cl_os s) t" "\<not> locking (cl_mutex s t)" "p \<noteq> L_blocked"
    and q: "blocked_on q = None" "group_ok q" "lock_pcs_ok q p (cl_mutex s t)"
    and steps: "cond_steps (clabs s) (cmove t q id (set_orig w (clabs s)))"
  defines "s' \<equiv> s\<lparr>cl_cond := \<lparr>co_os = k, co_sys = cmove t q id (set_orig w (cl_sys s))\<rparr>,
    cl_inner := (cl_inner s)(t := p)\<rparr>"
  shows "clinv base m s' \<and> cond_steps (clabs s) (clabs s')"
proof -
  let ?c = "cl_cond s" and ?v = "cmove t q id (set_orig w (cl_sys s))" and ?L = "lock_place base m s"
  from inv have cinv: "cinv base ?L ?c" and ap: "apart base m" by (simp_all add: cond_locks_inv_def)
  have words: "words_stored os base (cv ?v) k"
    using cinv k(2) by (auto simp: cond_os_inv_def words_stored_def)
  have L: "?L t = None \<or> pend (cl_os s) t" using l by (auto simp: lock_place_def)
  have "cpcs ?v = (cpcs (cl_sys s))(t := q)" "nthreads ?v = nthreads (cl_sys s)" by (simp_all add: cmove_def)
  note moved = cinv_lock_moved [OF cinv k(1,3,4) t L this words q(1,2)]
  have place: "lock_place base m s' = ?L(t := None)"
    using l by (auto simp: lock_place_def s'_def fun_eq_iff)
  have abs: "clabs s' = cmove t q id (set_orig w (clabs s))"
    using moved(2) by (simp add: s'_def cond_abs_def cmove_def set_orig_def)
  have "cond_inv (clabs s')"
    unfolding abs using cond_steps_inv [OF steps] inv by (simp add: cond_locks_inv_def)
  with inv moved(1) place k(2) q ap t(1) show ?thesis
    unfolding abs cond_locks_inv_def using steps
    by (auto simp: s'_def apart_def)
qed


text \<open>The same in the code of the mutex, with \<open>h\<close> the owner afterwards.\<close>

lemma mutex_moved:
  assumes inv: "clinv base m s" and t: "t < nthreads (cl_sys s)" "blocked_on (cpcs (cl_sys s) t) = None"
    and k: "ok k" "os_mem os k = (os_mem os (cl_os s))(m := w)" "on k = on (cl_os s)"
      "\<And>u. u \<noteq> t \<Longrightarrow> pend k u = pend (cl_os s) u"
    and l: "cl_mutex s t = L_blocked \<Longrightarrow> pend (cl_os s) t" "\<not> locking (cl_inner s t)" "p \<noteq> L_blocked"
    and q: "blocked_on q = None" "group_ok q" "lock_pcs_ok q (cl_inner s t) p"
    and h: "mutex_word_ok h w" "p = Holding \<longleftrightarrow> h = Some t"
      "\<And>u. u \<noteq> t \<Longrightarrow> h = Some u \<longleftrightarrow> mutex_owner (cl_sys s) = Some u"
    and steps: "cond_steps (clabs s) (cmove t q id ((clabs s)\<lparr>mutex_owner := h\<rparr>))"
  defines "s' \<equiv> s\<lparr>cl_cond := \<lparr>co_os = k, co_sys = cmove t q id ((cl_sys s)\<lparr>mutex_owner := h\<rparr>)\<rparr>,
    cl_mutex := (cl_mutex s)(t := p)\<rparr>"
  shows "clinv base m s' \<and> cond_steps (clabs s) (clabs s')"
proof -
  let ?c = "cl_cond s" and ?v = "cmove t q id ((cl_sys s)\<lparr>mutex_owner := h\<rparr>)" and ?L = "lock_place base m s"
  from inv have cinv: "cinv base ?L ?c" and ap: "apart base m" by (simp_all add: cond_locks_inv_def)
  have words: "words_stored os base (cv ?v) k"
    using cinv k(2) ap by (auto simp: cond_os_inv_def words_stored_def apart_def)
  have L: "?L t = None \<or> pend (cl_os s) t" using l by (auto simp: lock_place_def)
  have "cpcs ?v = (cpcs (cl_sys s))(t := q)" "nthreads ?v = nthreads (cl_sys s)" by (simp_all add: cmove_def)
  note moved = cinv_lock_moved [OF cinv k(1,3,4) t L this words q(1,2)]
  have place: "lock_place base m s' = ?L(t := None)"
    using l by (auto simp: lock_place_def s'_def fun_eq_iff)
  have abs: "clabs s' = cmove t q id ((clabs s)\<lparr>mutex_owner := h\<rparr>)"
    using moved(2) by (simp add: s'_def cond_abs_def cmove_def)
  have "cond_inv (clabs s')"
    unfolding abs using cond_steps_inv [OF steps] inv by (simp add: cond_locks_inv_def)
  with inv moved(1) place k(2) q ap h t(1) show ?thesis
    unfolding abs cond_locks_inv_def using steps
    by (auto simp: s'_def)
qed

text \<open>A thread falls asleep on the word of a lock, or wakes the one that has slept least.\<close>

lemma inner_slept:
  assumes inv: "clinv base m s" and t: "t < nthreads (cl_sys s)" "cpcs (cl_sys s) t = In_signal j S_lock"
    and k: "ok k" "os_mem os k = os_mem os (cl_os s)"
      "on k = (on (cl_os s))(orig_addr base := t # on (cl_os s) (orig_addr base))"
      "pend k = (pend (cl_os s))(t := False)"
    and l: "cl_inner s t \<noteq> L_blocked"
  defines "s' \<equiv> s\<lparr>cl_cond := \<lparr>co_os = k, co_sys = cl_sys s\<rparr>, cl_inner := (cl_inner s)(t := L_blocked)\<rparr>"
  shows "clinv base m s' \<and> clabs s' = clabs s"
proof -
  from inv have cinv: "cinv base (lock_place base m s) (cl_cond s)"
    and pcs: "lock_pcs_ok (In_signal j S_lock) (cl_inner s t) (cl_mutex s t)"
    using t(2) by (simp_all add: cond_locks_inv_def) metis
  from pcs l have L: "lock_place base m s t = None"
    by (auto simp: lock_place_def lock_pcs_ok_def mutex_pc_ok_def)
  have b: "blocked_on (cpcs (cl_sys s) t) = None" using t by simp
  note slept = cinv_lock_slept [OF cinv k t(1) b L orig_addr_apart]
  have place: "lock_place base m s' = (lock_place base m s)(t := Some (orig_addr base))"
    by (auto simp: lock_place_def s'_def fun_eq_iff)
  have abs: "clabs s' = clabs s" using slept(2) by (simp add: s'_def cond_abs_def)
  have "lock_pcs_ok (In_signal j S_lock) L_blocked (cl_mutex s t)"
    using pcs by (auto simp: lock_pcs_ok_def inner_pc_ok_def)
  with inv slept(1) place k(2) t show ?thesis
    unfolding abs cond_locks_inv_def by (auto simp: s'_def)
qed

lemma mutex_slept:
  assumes inv: "clinv base m s" and t: "t < nthreads (cl_sys s)"
      "cpcs (cl_sys s) t = Idle \<or> cpcs (cl_sys s) t = In_wait W_relock"
    and k: "ok k" "os_mem os k = os_mem os (cl_os s)"
      "on k = (on (cl_os s))(m := t # on (cl_os s) m)" "pend k = (pend (cl_os s))(t := False)"
    and l: "cl_mutex s t \<noteq> L_blocked" "locking (cl_mutex s t)"
  defines "s' \<equiv> s\<lparr>cl_cond := \<lparr>co_os = k, co_sys = cl_sys s\<rparr>, cl_mutex := (cl_mutex s)(t := L_blocked)\<rparr>"
  shows "clinv base m s' \<and> clabs s' = clabs s"
proof -
  from inv have cinv: "cinv base (lock_place base m s) (cl_cond s)" and ap: "apart base m"
    and pcs: "lock_pcs_ok (cpcs (cl_sys s) t) (cl_inner s t) (cl_mutex s t)"
    by (simp_all add: cond_locks_inv_def)
  from pcs l t(2) have L: "lock_place base m s t = None" and inner: "cl_inner s t \<noteq> L_blocked"
    by (auto simp: lock_place_def lock_pcs_ok_def inner_pc_ok_def)
  have b: "blocked_on (cpcs (cl_sys s) t) = None" using t by auto
  have "\<And>f. f \<in> set futex_words \<Longrightarrow> futex_addr base f \<noteq> m" using ap by (simp add: apart_def)
  note slept = cinv_lock_slept [OF cinv k t(1) b L this]
  have place: "lock_place base m s' = (lock_place base m s)(t := Some m)"
    using inner by (auto simp: lock_place_def s'_def fun_eq_iff)
  have abs: "clabs s' = clabs s" using slept(2) by (simp add: s'_def cond_abs_def)
  have "lock_pcs_ok (cpcs (cl_sys s) t) (cl_inner s t) L_blocked"
    using pcs t(2) l by (auto simp: lock_pcs_ok_def mutex_pc_ok_def)
  with inv slept(1) place k(2) t l show ?thesis
    unfolding abs cond_locks_inv_def by (auto simp: s'_def)
qed

lemma inner_wake:
  assumes inv: "clinv base m s" and t: "cl_inner s t = U_wake" "t < nthreads (cl_sys s)"
    and k: "ok k" "os_mem os k = os_mem os (cl_os s)"
      "on k = (on (cl_os s))(orig_addr base := tl (on (cl_os s) (orig_addr base)))"
      "pend k = (\<lambda>u. pend (cl_os s) u \<or> u \<in> set (take 1 (on (cl_os s) (orig_addr base))))"
  defines "s' \<equiv> s\<lparr>cl_cond := \<lparr>co_os = k, co_sys = cl_sys s\<rparr>, cl_inner := (cl_inner s)(t := Outside)\<rparr>"
  shows "clinv base m s' \<and> clabs s' = clabs s"
proof -
  from inv have cinv: "cinv base (lock_place base m s) (cl_cond s)"
    and pcs: "lock_pcs_ok (cpcs (cl_sys s) t) U_wake (cl_mutex s t)"
    using t(1) by (simp_all add: cond_locks_inv_def) metis
  from pcs have b: "blocked_on (cpcs (cl_sys s) t) = None" and free: "\<not> locking (cl_mutex s t)"
    and pcs': "lock_pcs_ok (cpcs (cl_sys s) t) Outside (cl_mutex s t)"
    by (auto simp: lock_pcs_ok_def inner_pc_ok_def)
  have L: "lock_place base m s t = None" using free t by (auto simp: lock_place_def)
  note woken = cinv_lock_wake [OF cinv k b L orig_addr_apart]
  have place: "lock_place base m s' = lock_place base m s"
    using t by (auto simp: lock_place_def s'_def fun_eq_iff)
  have abs: "clabs s' = clabs s" using woken(2) by (simp add: s'_def cond_abs_def)
  with inv woken(1) place k(2) t pcs' show ?thesis
    unfolding abs cond_locks_inv_def by (auto simp: s'_def)
qed

lemma mutex_wake:
  assumes inv: "clinv base m s" and t: "cl_mutex s t = U_wake" "t < nthreads (cl_sys s)"
    and k: "ok k" "os_mem os k = os_mem os (cl_os s)" "on k = (on (cl_os s))(m := tl (on (cl_os s) m))"
      "pend k = (\<lambda>u. pend (cl_os s) u \<or> u \<in> set (take 1 (on (cl_os s) m)))"
  defines "s' \<equiv> s\<lparr>cl_cond := \<lparr>co_os = k, co_sys = cl_sys s\<rparr>, cl_mutex := (cl_mutex s)(t := Outside)\<rparr>"
  shows "clinv base m s' \<and> clabs s' = clabs s"
proof -
  from inv have cinv: "cinv base (lock_place base m s) (cl_cond s)" and ap: "apart base m"
    and pcs: "lock_pcs_ok (cpcs (cl_sys s) t) (cl_inner s t) U_wake"
    using t(1) by (simp_all add: cond_locks_inv_def) metis
  from pcs have b: "blocked_on (cpcs (cl_sys s) t) = None" and inner: "cl_inner s t \<noteq> L_blocked"
    and pcs': "lock_pcs_ok (cpcs (cl_sys s) t) (cl_inner s t) Outside"
    by (auto simp: lock_pcs_ok_def inner_pc_ok_def mutex_pc_ok_def)
  have L: "lock_place base m s t = None" using inner t by (auto simp: lock_place_def)
  have "\<And>f. f \<in> set futex_words \<Longrightarrow> futex_addr base f \<noteq> m" using ap by (simp add: apart_def)
  note woken = cinv_lock_wake [OF cinv k b L this]
  have place: "lock_place base m s' = lock_place base m s"
    using t by (auto simp: lock_place_def s'_def fun_eq_iff)
  have abs: "clabs s' = clabs s" using woken(2) by (simp add: s'_def cond_abs_def)
  with inv woken(1) place k(2) t pcs' show ?thesis
    unfolding abs cond_locks_inv_def by (auto simp: s'_def)
qed


lemma lock_place_blocked: "lock_place base m s t = None \<longleftrightarrow> cl_inner s t \<noteq> L_blocked \<and> cl_mutex s t \<noteq> L_blocked"
  by (simp add: lock_place_def)

lemma clinv_facts:
  assumes inv: "clinv base m s"
  shows "ok (cl_os s)" and "nthreads (cl_sys s) \<le> N"
    and "os_mem os (cl_os s) (orig_addr base) = g1_orig_size (cv (cl_sys s))"
    and "is_lock_state (os_mem os (cl_os s) (orig_addr base))"
    and "is_lock_state (os_mem os (cl_os s) m)"
    and "lock_pcs_ok (cpcs (cl_sys s) t) (cl_inner s t) (cl_mutex s t)"
    and "group_ok (cpcs (cl_sys s) t)"
    and "nthreads (cl_sys s) \<le> t \<Longrightarrow>
      cpcs (cl_sys s) t = Idle \<and> cl_inner s t = Outside \<and> cl_mutex s t = Outside"
    and "t < nthreads (cl_sys s) \<Longrightarrow> lock_place base m s t = None \<Longrightarrow>
      blocked_on (cpcs (cl_sys s) t) = None \<Longrightarrow> t \<notin> set (on (cl_os s) b)"
proof -
  from inv have cinv: "cinv base (lock_place base m s) (cl_cond s)" by (simp add: cond_locks_inv_def)
  then show "ok (cl_os s)" "nthreads (cl_sys s) \<le> N" "group_ok (cpcs (cl_sys s) t)"
    and orig: "os_mem os (cl_os s) (orig_addr base) = g1_orig_size (cv (cl_sys s))"
    by (simp_all add: cond_os_inv_def words_stored_def)
  have "inner_ok (clabs s)" using inv by (simp add: cond_locks_inv_def cond_inv_def)
  then show "is_lock_state (os_mem os (cl_os s) (orig_addr base))"
    unfolding orig inner_ok_def is_lock_state_def cond_abs_simps by blast
  show "is_lock_state (os_mem os (cl_os s) m)" "lock_pcs_ok (cpcs (cl_sys s) t) (cl_inner s t) (cl_mutex s t)"
    using inv by (simp_all add: cond_locks_inv_def mutex_word_ok_def)
  show "cpcs (cl_sys s) t = Idle \<and> cl_inner s t = Outside \<and> cl_mutex s t = Outside"
    if "nthreads (cl_sys s) \<le> t"
    using that inv cinv by (simp add: cond_locks_inv_def cond_os_inv_def)
  show "t \<notin> set (on (cl_os s) b)" if "t < nthreads (cl_sys s)" "lock_place base m s t = None"
      "blocked_on (cpcs (cl_sys s) t) = None"
    using that cinv by (simp add: cond_os_inv_def asleep_ok_def sleeps_at_def)
qed

lemma seen_pc_awake: "blocked_on (cpcs (cl_sys s) t) = None \<Longrightarrow> seen_pc pend (cl_cond s) t = cpcs (cl_sys s) t"
  by (simp add: seen_pc_def Let_def)

lemma inner_lock_simulated:
  assumes inv: "clinv base m s" and t: "t < nthreads (cl_sys s)"
    and pc: "cpcs (cl_sys s) t = In_signal j S_lock" and step: "inner_lock_os os base t sp j s = Some s'"
  shows "clinv base m s' \<and> cond_steps (clabs s) (clabs s')"
proof -
  let ?a = "orig_addr base" and ?w = "os_mem os (cl_os s) (orig_addr base)"
  note facts = clinv_facts [OF inv]
  from facts(2) t have tN: "t < N" by simp
  have pcs: "lock_pcs_ok (In_signal j S_lock) (cl_inner s t) (cl_mutex s t)" using facts(6) [of t] pc by simp
  then have pcs': "lock_pcs_ok (In_signal j S_lock) l (cl_mutex s t)" if "locking l" "local_ok l" for l
    using that by (auto simp: lock_pcs_ok_def inner_pc_ok_def mutex_pc_ok_def)
  have b: "blocked_on (cpcs (cl_sys s) t) = None" and group: "group_ok (In_signal j S_lock)"
    using facts(7) [of t] pc by simp_all
  have abs: "cpcs (clabs s) t = In_signal j S_lock" "g1_orig_size (cv (clabs s)) = ?w"
    using pc facts(3) by (simp_all add: seen_pc_def Let_def)
  have mut: "\<not> locking (cl_mutex s t)" and inner: "cl_inner s t \<noteq> Holding" "local_ok (cl_inner s t)"
    using pcs by (auto simp: lock_pcs_ok_def inner_pc_ok_def mutex_pc_ok_def)
  show ?thesis
  proof (cases "cl_inner s t = Outside")
    case True
    note store = store_only [OF facts(1), of ?a ?w]
    from step True have "s' = s\<lparr>cl_cond := \<lparr>co_os = os_store os ?a ?w (cl_os s),
        co_sys = cmove t (In_signal j S_lock) id (set_orig ?w (cl_sys s))\<rparr>, cl_inner := (cl_inner s)(t := L_load)\<rparr>"
      using pc store by (simp add: inner_lock_os_def run_inner_def user_step_def goto_def)
    moreover have "cond_steps (clabs s) (cmove t (In_signal j S_lock) id (set_orig ?w (clabs s)))"
      using abs by (metis cmove_same rtranclp.rtrancl_refl set_orig_same)
    ultimately show ?thesis
      using inner_moved [OF inv t b, of "os_store os ?a ?w (cl_os s)" ?w L_load "In_signal j S_lock"]
        store True mut group pcs' by simp
  next
    case False
    with step obtain l where run: "three_states_lock_os os ?a t sp \<lparr>lk_os = cl_os s, lk_pcs = cl_inner s\<rparr> = Some l"
      by (auto simp: inner_lock_os_def run_inner_def)
    have awake: "cl_inner s t \<noteq> L_blocked \<longrightarrow> (\<forall>b. t \<notin> set (on (cl_os s) b))"
      using facts(9) [OF t _ b] mut by (auto simp: lock_place_blocked)
    from run facts(1) tN awake inner(2) facts(4) show ?thesis
    proof (cases rule: lock_os_step)
      case (moved k w p)
      let ?q = "if p = Holding then In_signal j S_wseq else In_signal j S_lock"
      have w: "os_mem os k ?a = w" using moved by simp
      have s': "s' = s\<lparr>cl_cond := \<lparr>co_os = k, co_sys = cmove t ?q id (set_orig w (cl_sys s))\<rparr>,
          cl_inner := (cl_inner s)(t := p)\<rparr>"
        using step False run moved(1) pc
        by (cases "p = Holding") (auto simp: inner_lock_os_def run_inner_def cl_goto_def w)
      have p: "lock_pcs_ok ?q p (cl_mutex s t)"
        using moved(6) pcs by (cases p) (auto simp: lock_word_step_def lock_pcs_ok_def inner_pc_ok_def mutex_pc_ok_def)
      have "cond_steps (clabs s) (cmove t ?q id (set_orig w (clabs s)))"
        using inner_lock_steps [of "clabs s" w p t j] moved(6) abs by (simp split: if_splits)
      with inner_moved [OF inv t b moved(2-5) moved(8) mut moved(7), of ?q] p group show ?thesis
        unfolding s' by (simp add: group_ok_def split: if_splits)
    next
      case (slept k)
      have s': "s' = s\<lparr>cl_cond := \<lparr>co_os = k, co_sys = cl_sys s\<rparr>, cl_inner := (cl_inner s)(t := L_blocked)\<rparr>"
        using step False run slept(1,3) facts(3)
        by (simp add: inner_lock_os_def run_inner_def)
      from inner_slept [OF inv t pc slept(2-6)] show ?thesis unfolding s' by simp
    qed
  qed
qed


lemma user_unlock_word:
  assumes "user_step os a (three_states_unlock t) \<lparr>lk_os = k, lk_pcs = pcs\<rparr> = Some l"
  obtains p w where "l = \<lparr>lk_os = os_store os a w k, lk_pcs = pcs(t := p)\<rparr>" "pcs t = Holding"
    "p = U_wake \<or> p = Outside" "w = os_mem os k a AND NOT three_states_mask"
  using assms by (auto simp: user_step_def three_states_unlock_def atomic_defs goto_def split: if_splits)

lemma inner_unlock_simulated:
  assumes inv: "clinv base m s" and t: "t < nthreads (cl_sys s)"
    and pc: "cpcs (cl_sys s) t = In_signal j (S_unlock g)" and step: "inner_unlock_os os base t j g s = Some s'"
  shows "clinv base m s' \<and> cond_steps (clabs s) (clabs s')"
proof -
  let ?a = "orig_addr base" and ?q = "case g of None \<Rightarrow> Idle | Some g \<Rightarrow> In_signal j (S_wake g)"
  note facts = clinv_facts [OF inv]
  from step obtain l where "user_step os ?a (three_states_unlock t) \<lparr>lk_os = cl_os s, lk_pcs = cl_inner s\<rparr> = Some l"
    and s': "s' = cl_goto t ?q id (s\<lparr>cl_cond := \<lparr>co_os = lk_os l,
        co_sys = set_orig (os_mem os (lk_os l) ?a) (cl_sys s)\<rparr>, cl_inner := lk_pcs l\<rparr>)"
    by (auto simp: inner_unlock_os_def run_inner_def)
  from user_unlock_word [OF this(1)] obtain p w where
    l: "l = \<lparr>lk_os = os_store os ?a w (cl_os s), lk_pcs = (cl_inner s)(t := p)\<rparr>" and hold: "cl_inner s t = Holding"
    and p: "p = U_wake \<or> p = Outside" and w: "w = os_mem os (cl_os s) ?a AND NOT three_states_mask" by metis
  note store = store_only [OF facts(1), of ?a w]
  have s'': "s' = s\<lparr>cl_cond := \<lparr>co_os = os_store os ?a w (cl_os s),
      co_sys = cmove t ?q id (set_orig w (cl_sys s))\<rparr>, cl_inner := (cl_inner s)(t := p)\<rparr>"
    using store by (simp add: s' l cl_goto_def)
  have b: "blocked_on (cpcs (cl_sys s) t) = None" and "group_ok (cpcs (cl_sys s) t)"
    using facts(7) [of t] pc by simp_all
  then have q: "blocked_on ?q = None" "group_ok ?q"
    using pc by (auto simp: group_ok_def split: option.splits)
  have pcs: "lock_pcs_ok (cpcs (cl_sys s) t) (cl_inner s t) (cl_mutex s t)" by (rule facts(6))
  then have mut: "\<not> locking (cl_mutex s t)" and pcs': "lock_pcs_ok ?q p (cl_mutex s t)"
    using pc p by (cases "cl_mutex s t"; auto simp: lock_pcs_ok_def inner_pc_ok_def mutex_pc_ok_def split: option.splits)+
  have "cond_act (Cstep t False t) (clabs s) = Some (cmove t ?q id (set_orig w (clabs s)))"
    using pc facts(3) by (simp add: cond_step_def seen_pc_awake [OF b] inner_unlock_def atomic_defs w
        cmove_def set_orig_def)
  from inner_moved [OF inv t b, of "os_store os ?a w (cl_os s)" w p ?q, OF _ _ _ _ _ mut _ q pcs' cond_steps_1 [OF this]]
    store hold p show ?thesis
    unfolding s'' by auto
qed


lemma mutex_lock_simulated:
  assumes inv: "clinv base m s" and t: "t < nthreads (cl_sys s)"
    and pc: "cpcs (cl_sys s) t = Idle \<or> cpcs (cl_sys s) t = In_wait W_relock"
    and free: "cl_inner s t \<noteq> U_wake" "cl_mutex s t \<noteq> U_wake" "cl_mutex s t \<noteq> Holding"
    and step: "mutex_lock_os os m t sp s = Some s'"
  shows "clinv base m s' \<and> cond_steps (clabs s) (clabs s')"
proof -
  let ?w = "os_mem os (cl_os s) m" and ?p = "cpcs (cl_sys s) t" and ?h = "mutex_owner (cl_sys s)"
  note facts = clinv_facts [OF inv]
  from facts(2) t have tN: "t < N" by simp
  have pcs: "lock_pcs_ok ?p (cl_inner s t) (cl_mutex s t)" by (rule facts(6))
  then have inner: "\<not> locking (cl_inner s t)" and loc: "local_ok (cl_mutex s t)"
    using pc by (auto simp: lock_pcs_ok_def inner_pc_ok_def mutex_pc_ok_def)
  have pcs': "lock_pcs_ok q (cl_inner s t) l"
    if "locking l \<and> (q = Idle \<or> q = In_wait W_relock) \<or> l = Holding" "local_ok l"
      "q = ?p \<or> q = Idle" for l q
    using that pcs pc free by (auto simp: lock_pcs_ok_def inner_pc_ok_def mutex_pc_ok_def)
  have b: "blocked_on ?p = None" and group: "group_ok ?p" "group_ok Idle"
    using facts(7) [of t] pc by (auto simp: group_ok_def)
  have word: "mutex_word_ok ?h ?w" and held: "?h = Some u \<longleftrightarrow> cl_mutex s u = Holding" for u
    using inv by (simp_all add: cond_locks_inv_def)
  have stay: "cond_steps (clabs s) (cmove t ?p id ((clabs s)\<lparr>mutex_owner := ?h\<rparr>))"
    using seen_pc_awake [OF b] by (simp add: cmove_def cond_abs_def fun_upd_idem)
  show ?thesis
  proof (cases "cl_mutex s t = Outside")
    case True
    note store = store_only [OF facts(1), of m ?w]
    from step True have "s' = s\<lparr>cl_cond := \<lparr>co_os = os_store os m ?w (cl_os s),
        co_sys = cmove t ?p id ((cl_sys s)\<lparr>mutex_owner := ?h\<rparr>)\<rparr>, cl_mutex := (cl_mutex s)(t := L_load)\<rparr>"
      by (auto simp: mutex_lock_os_def run_mutex_def user_step_def goto_def)
    moreover have "?h \<noteq> Some t" using held [of t] True by simp
    ultimately show ?thesis
      using mutex_moved [OF inv t b, of "os_store os m ?w (cl_os s)" ?w L_load ?p ?h, OF _ _ _ _ _ inner]
        store True group pcs' [of L_load ?p] pc word stay b by auto
  next
    case False
    with step obtain l where run: "three_states_lock_os os m t sp \<lparr>lk_os = cl_os s, lk_pcs = cl_mutex s\<rparr> = Some l"
      by (auto simp: mutex_lock_os_def run_mutex_def)
    have awake: "cl_mutex s t \<noteq> L_blocked \<longrightarrow> (\<forall>b. t \<notin> set (on (cl_os s) b))"
      using facts(9) [OF t _ b] inner by (auto simp: lock_place_blocked)
    from run facts(1) tN awake loc facts(5) show ?thesis
    proof (cases rule: lock_os_step)
      case (moved k w p)
      let ?q = "if p = Holding then Idle else ?p" and ?h' = "if p = Holding then Some t else ?h"
      have s': "s' = s\<lparr>cl_cond := \<lparr>co_os = k, co_sys = cmove t ?q id ((cl_sys s)\<lparr>mutex_owner := ?h'\<rparr>)\<rparr>,
          cl_mutex := (cl_mutex s)(t := p)\<rparr>"
        using step False run moved(1)
        by (cases "p = Holding") (auto simp: mutex_lock_os_def run_mutex_def cl_goto_def)
      have none: "?h = None" if "p = Holding" using that moved(6) word by (simp add: lock_word_step_def mutex_word_ok_def)
      have p: "lock_pcs_ok ?q (cl_inner s t) p"
        using moved(6,7) pc by (intro pcs') (cases p; auto simp: lock_word_step_def)+
      have word': "mutex_word_ok ?h' w"
        using moved(6) word none by (auto simp: mutex_word_ok_def lock_word_step_def split: if_splits)
      have owner: "(p = Holding) = (?h' = Some t)" "u \<noteq> t \<Longrightarrow> (?h' = Some u) = (?h = Some u)" for u
        using none held [of t] free by auto
      have "cond_steps (clabs s) (cmove t ?q id ((clabs s)\<lparr>mutex_owner := ?h'\<rparr>))"
        using stay mutex_lock_steps [of "clabs s" t] none t pc seen_pc_awake [OF b] by auto
      from mutex_moved [OF inv t b moved(2-5) moved(8) inner moved(7) _ _ p word' owner this] b group
      show ?thesis unfolding s' by simp
    next
      case (slept k)
      have s': "s' = s\<lparr>cl_cond := \<lparr>co_os = k, co_sys = cl_sys s\<rparr>, cl_mutex := (cl_mutex s)(t := L_blocked)\<rparr>"
        using step False run slept(1) by (simp add: mutex_lock_os_def run_mutex_def)
      have "locking (cl_mutex s t)" using False free by (cases "cl_mutex s t") auto
      from mutex_slept [OF inv t pc slept(2-6) this] show ?thesis unfolding s' by simp
    qed
  qed
qed


lemma mutex_unlock_simulated:
  assumes inv: "clinv base m s" and t: "t < nthreads (cl_sys s)"
    and pc: "cpcs (cl_sys s) t = Idle \<and> q = Idle \<or>
      (\<exists>seq g. cpcs (cl_sys s) t = In_wait (W_unlock seq g) \<and> q = In_wait (W_load seq g))"
    and free: "cl_inner s t \<noteq> U_wake" and step: "mutex_unlock_os os m t q s = Some s'"
  shows "clinv base m s' \<and> cond_steps (clabs s) (clabs s')"
proof -
  note facts = clinv_facts [OF inv]
  from step obtain l where "user_step os m (three_states_unlock t) \<lparr>lk_os = cl_os s, lk_pcs = cl_mutex s\<rparr> = Some l"
    and s': "s' = cl_goto t q (\<lambda>v. v\<lparr>mutex_owner := None\<rparr>)
      (s\<lparr>cl_cond := \<lparr>co_os = lk_os l, co_sys = cl_sys s\<rparr>, cl_mutex := lk_pcs l\<rparr>)"
    by (auto simp: mutex_unlock_os_def run_mutex_def)
  from user_unlock_word [OF this(1)] obtain p w where
    l: "l = \<lparr>lk_os = os_store os m w (cl_os s), lk_pcs = (cl_mutex s)(t := p)\<rparr>" and hold: "cl_mutex s t = Holding"
    and p: "p = U_wake \<or> p = Outside" and w: "w = os_mem os (cl_os s) m AND NOT three_states_mask" by metis
  note store = store_only [OF facts(1), of m w]
  have s'': "s' = s\<lparr>cl_cond := \<lparr>co_os = os_store os m w (cl_os s),
      co_sys = cmove t q id ((cl_sys s)\<lparr>mutex_owner := None\<rparr>)\<rparr>, cl_mutex := (cl_mutex s)(t := p)\<rparr>"
    by (simp add: s' l cl_goto_def)
  have b: "blocked_on (cpcs (cl_sys s) t) = None" and "group_ok (cpcs (cl_sys s) t)"
    using facts(7) [of t] pc by auto
  then have q: "blocked_on q = None" "group_ok q" using pc by (auto simp: group_ok_def)
  have pcs: "lock_pcs_ok (cpcs (cl_sys s) t) (cl_inner s t) (cl_mutex s t)" by (rule facts(6))
  then have inner: "\<not> locking (cl_inner s t)" and pcs': "lock_pcs_ok q (cl_inner s t) p"
    using pc p free by (auto simp: lock_pcs_ok_def inner_pc_ok_def mutex_pc_ok_def)
  have held: "mutex_owner (cl_sys s) = Some u \<longleftrightarrow> cl_mutex s u = Holding" for u
    using inv by (simp add: cond_locks_inv_def)
  have word: "mutex_word_ok None w" by (simp add: mutex_word_ok_def w is_lock_state_def)
  have "cond_steps (clabs s) (cmove t q id ((clabs s)\<lparr>mutex_owner := None\<rparr>))"
    using held [of t] hold t pc seen_pc_awake [OF b] by (intro mutex_unlock_steps) auto
  moreover have "None = Some u \<longleftrightarrow> mutex_owner (cl_sys s) = Some u" if "u \<noteq> t" for u
    using held [of t] hold that by auto
  ultimately show ?thesis
    using mutex_moved [OF inv t b, of "os_store os m w (cl_os s)" w p q None, OF _ _ _ _ _ inner _ q pcs' word]
      store hold p
    unfolding s'' by auto
qed

text \<open>The steps of the condition variable proper.\<close>

lemma cond_step_os_frame:
  assumes cinv: "cinv base L c" and t: "t < nthreads (co_sys c)" "L t = None"
    and step: "cond_step_os os base t sp c = Some c'" and point: "\<not> lock_point (cpcs (co_sys c) t)"
    and a: "a \<noteq> orig_addr base" "\<And>f. f \<in> set futex_words \<Longrightarrow> futex_addr base f \<noteq> a"
  shows "os_mem os (co_os c') a = os_mem os (co_os c) a \<and> mutex_owner (co_sys c') = mutex_owner (co_sys c) \<and>
    nthreads (co_sys c') = nthreads (co_sys c) \<and> (\<forall>u. u \<noteq> t \<longrightarrow> cpcs (co_sys c') u = cpcs (co_sys c) u) \<and>
    holds_inner (cpcs (co_sys c') t) = holds_inner (cpcs (co_sys c) t)"
proof -
  let ?p = "cpcs (co_sys c) t"
  from cinv have ok: "ok (co_os c)" and N: "nthreads (co_sys c) \<le> N" and group: "group_ok ?p"
    by (simp_all add: cond_os_inv_def)
  show ?thesis
  proof (cases "futex_call ?p")
    case None
    show ?thesis
    proof (cases "blocked_on ?p = None")
      case True
      with step None obtain v where v: "cond_step t sp t (co_sys c) = Some v"
        and c': "c' = \<lparr>co_os = store_words os base (cv v) (co_os c), co_sys = v\<rparr>"
        by (auto simp: cond_step_os_def Let_def cond_user_step_def)
      have "cpcs v = (cpcs (co_sys c))(t := cpcs v t)" "nthreads v = nthreads (co_sys c)"
        using own_step_cond_step [OF v None group] by (simp_all add: own_step_def)
      moreover from this(1) have "cpcs v u = cpcs (co_sys c) u" if "u \<noteq> t" for u
        using that by (metis fun_upd_other)
      ultimately show ?thesis
        using store_words [OF ok, of base "cv v"] cond_step_keeps_locks [OF v None point] a by (simp add: c')
    next
      case False
      with step None obtain k where "os_resume os t (co_os c) = Some k" "c' = co_goto t (futex_return ?p) k c"
        by (auto simp: cond_step_os_def Let_def)
      moreover from this(1) have "os_mem os k = os_mem os (co_os c)"
        using resume_blocked [OF ok, of t] resume_runs [OF ok, of t] by fastforce
      ultimately show ?thesis by simp
    qed
  next
    case (Some call)
    then obtain f futex_op val where call: "futex_call ?p = Some (f, futex_op, val)" by (cases call) auto
    obtain r k where k: "os_futex os t (futex_addr base f) futex_op val (co_os c) = (r, k)" by fastforce
    have asleep: "t \<notin> set (on (co_os c) b)" for b
      using cinv t call_pcs(1) [OF call] by (simp add: cond_os_inv_def asleep_ok_def sleeps_at_def)
    from N t have tN: "t < N" by simp
    from call have "os_mem os k = os_mem os (co_os c)"
    proof (cases rule: futex_call_cases)
      case 1
      show ?thesis
      proof (cases "os_mem os (co_os c) (futex_addr base f) = val")
        case True
        with 1 k show ?thesis by (metis futex_wait_slept [OF ok tN asleep] prod.inject)
      next
        case False
        with 1 k show ?thesis by (metis futex_wait_refused [OF ok tN asleep] prod.inject)
      qed
    next
      case 2
      with k show ?thesis by (metis futex_wake_all [OF ok] prod.inject)
    next
      case 3
      with k show ?thesis by (metis futex_wake_one [OF ok] prod.inject)
    qed
    with step call k call_keeps_inner [OF call] show ?thesis
      by (cases r) (auto simp: cond_step_os_def Let_def)
  qed
qed


lemma cond_part_simulated:
  assumes inv: "clinv base m s" and sim: "cinv base (lock_place base m s) c' \<and> cond_steps (clabs s) (cond_abs pend c')"
    and frame: "os_mem os (co_os c') m = os_mem os (cl_os s) m" "mutex_owner (co_sys c') = mutex_owner (cl_sys s)"
      "nthreads (co_sys c') = nthreads (cl_sys s)" "\<And>u. u \<noteq> t \<Longrightarrow> cpcs (co_sys c') u = cpcs (cl_sys s) u"
    and pcs: "lock_pcs_ok (cpcs (co_sys c') t) (cl_inner s t) (cl_mutex s t)"
  shows "clinv base m (s\<lparr>cl_cond := c'\<rparr>) \<and> cond_steps (clabs s) (clabs (s\<lparr>cl_cond := c'\<rparr>))"
proof -
  have "lock_pcs_ok (cpcs (co_sys c') u) (cl_inner s u) (cl_mutex s u)" for u
    using pcs frame(4) [of u] clinv_facts(6) [OF inv, of u] by (cases "u = t") simp_all
  moreover have "lock_place base m (s\<lparr>cl_cond := c'\<rparr>) = lock_place base m s"
    by (simp add: lock_place_def fun_eq_iff)
  moreover have "cond_inv (cond_abs pend c')"
    using sim cond_steps_inv inv by (auto simp: cond_locks_inv_def)
  ultimately show ?thesis using inv sim frame(1-3) by (simp add: cond_locks_inv_def)
qed

lemma cond_point_simulated:
  assumes inv: "clinv base m s" and t: "t < nthreads (cl_sys s)"
    and free: "cl_inner s t \<noteq> U_wake" "cl_mutex s t \<noteq> U_wake" and point: "\<not> lock_point (cpcs (cl_sys s) t)"
    and step: "cond_step_os os base t sp (cl_cond s) = Some c'"
  shows "clinv base m (s\<lparr>cl_cond := c'\<rparr>) \<and> cond_steps (clabs s) (clabs (s\<lparr>cl_cond := c'\<rparr>))"
proof -
  from inv have cinv: "cinv base (lock_place base m s) (cl_cond s)" and ap: "apart base m"
    by (simp_all add: cond_locks_inv_def)
  have pcs: "lock_pcs_ok (cpcs (cl_sys s) t) (cl_inner s t) (cl_mutex s t)" by (rule clinv_facts(6) [OF inv])
  then have out: "\<not> locking (cl_inner s t)" "\<not> locking (cl_mutex s t)"
    using point by (auto simp: lock_pcs_ok_def inner_pc_ok_def mutex_pc_ok_def)
  then have L: "lock_place base m s t = None" by (simp add: lock_place_blocked)
  from ap have m: "m \<noteq> orig_addr base" "\<And>f. f \<in> set futex_words \<Longrightarrow> futex_addr base f \<noteq> m"
    by (simp_all add: apart_def)
  note frame = cond_step_os_frame [OF cinv t L step point m]
  have "cond_os_act os base (Cstep t sp t) (cl_cond s) = Some c'" using step by (simp add: cond_os_act_def)
  from cond_os_simulated [OF cinv this] L
  have "cinv base (lock_place base m s) c' \<and> cond_steps (clabs s) (cond_abs pend c')" by auto
  moreover have "lock_pcs_ok (cpcs (co_sys c') t) (cl_inner s t) (cl_mutex s t)"
    using pcs out free frame by (simp add: lock_pcs_ok_def inner_pc_ok_def mutex_pc_ok_def)
  ultimately show ?thesis using frame by (intro cond_part_simulated [OF inv]) simp_all
qed

lemma cond_call_simulated:
  assumes inv: "clinv base m s" and step: "cond_locks_call os base t c s = Some s'"
    and c: "c = Call_wait t \<or> c = Call_signal t \<or> c = Call_broadcast t \<or> c = Call_destroy t"
  shows "clinv base m s' \<and> cond_steps (clabs s) (clabs s')"
proof -
  from step obtain c' where rest: "at_rest s t" and user: "cond_user_step os base c (cl_cond s) = Some c'"
    and s': "s' = s\<lparr>cl_cond := c'\<rparr>"
    by (auto simp: cond_locks_call_def split: if_splits)
  from user obtain v where v: "cond_act c (cl_sys s) = Some v"
    and c': "c' = \<lparr>co_os = store_words os base (cv v) (cl_os s), co_sys = v\<rparr>" by (auto simp: cond_user_step_def)
  from inv have cinv: "cinv base (lock_place base m s) (cl_cond s)" and ap: "apart base m"
    by (simp_all add: cond_locks_inv_def)
  have L: "lock_place base m s (actor c (nthreads (cl_sys s))) = None"
    using rest c by (auto simp: lock_place_blocked at_rest_def)
  have "stays_user c (cl_sys s)" using c by (auto simp: stays_user_def)
  from cond_user_simulated [OF cinv user this L]
  have "cinv base (lock_place base m s) c' \<and> cond_steps (clabs s) (cond_abs pend c')"
    by (auto intro: cond_steps_1)
  moreover have "os_mem os (co_os c') m = os_mem os (cl_os s) m"
    using store_words [OF clinv_facts(1) [OF inv], of base "cv v"] ap by (auto simp: c' apart_def)
  moreover have "mutex_owner v = mutex_owner (cl_sys s) \<and> nthreads v = nthreads (cl_sys s) \<and>
      (\<forall>u. u \<noteq> t \<longrightarrow> cpcs v u = cpcs (cl_sys s) u) \<and> \<not> holds_inner (cpcs v t)"
    using v c by (auto simp: call_def wgo_def cmove_def atomic_defs split: if_splits)
  moreover from this have "lock_pcs_ok (cpcs v t) (cl_inner s t) (cl_mutex s t)"
    using rest by (auto simp: lock_pcs_ok_def inner_pc_ok_def mutex_pc_ok_def at_rest_def)
  ultimately show ?thesis unfolding s' by (intro cond_part_simulated [OF inv]) (simp_all add: c')
qed

lemma cond_locks_step_simulated:
  assumes inv: "clinv base m s" and step: "cond_locks_step os base m t sp s = Some s'"
  shows "clinv base m s' \<and> cond_steps (clabs s) (clabs s')"
proof -
  note facts = clinv_facts [OF inv]
  have t: "t < nthreads (cl_sys s)"
  proof (rule ccontr)
    assume "\<not> t < nthreads (cl_sys s)"
    with facts(8) [of t] step show False by (simp add: cond_locks_step_def)
  qed
  consider (inner) "cl_inner s t = U_wake" | (mutex) "cl_inner s t \<noteq> U_wake" "cl_mutex s t = U_wake"
    | (none) "cl_inner s t \<noteq> U_wake" "cl_mutex s t \<noteq> U_wake" by blast
  then show ?thesis
  proof cases
    case inner
    with step obtain l where
      l: "unlock_wake_os os (orig_addr base) t \<lparr>lk_os = cl_os s, lk_pcs = cl_inner s\<rparr> = Some l"
      by (auto simp: cond_locks_step_def run_inner_def)
    obtain k where k: "l = \<lparr>lk_os = k, lk_pcs = (cl_inner s)(t := Outside)\<rparr>" "ok k" "os_mem os k = os_mem os (cl_os s)"
      "on k = (on (cl_os s))(orig_addr base := tl (on (cl_os s) (orig_addr base)))"
      "pend k = (\<lambda>u. pend (cl_os s) u \<or> u \<in> set (take 1 (on (cl_os s) (orig_addr base))))"
      using unlock_wake_os_step [OF l facts(1)] by blast
    with step inner l facts(3)
    have s': "s' = s\<lparr>cl_cond := \<lparr>co_os = k, co_sys = cl_sys s\<rparr>, cl_inner := (cl_inner s)(t := Outside)\<rparr>"
      by (simp add: cond_locks_step_def run_inner_def)
    from inner_wake [OF inv inner t k(2-5)] show ?thesis unfolding s' by simp
  next
    case mutex
    with step obtain l where l: "unlock_wake_os os m t \<lparr>lk_os = cl_os s, lk_pcs = cl_mutex s\<rparr> = Some l"
      by (auto simp: cond_locks_step_def run_mutex_def)
    obtain k where k: "l = \<lparr>lk_os = k, lk_pcs = (cl_mutex s)(t := Outside)\<rparr>" "ok k" "os_mem os k = os_mem os (cl_os s)"
      "on k = (on (cl_os s))(m := tl (on (cl_os s) m))"
      "pend k = (\<lambda>u. pend (cl_os s) u \<or> u \<in> set (take 1 (on (cl_os s) m)))"
      using unlock_wake_os_step [OF l facts(1)] by blast
    with step mutex l
    have s': "s' = s\<lparr>cl_cond := \<lparr>co_os = k, co_sys = cl_sys s\<rparr>, cl_mutex := (cl_mutex s)(t := Outside)\<rparr>"
      by (simp add: cond_locks_step_def run_mutex_def)
    from mutex_wake [OF inv mutex(2) t k(2-5)] show ?thesis unfolding s' by simp
  next
    case none
    note relock = mutex_lock_simulated [OF inv t _ none]
    show ?thesis
    proof (cases "lock_point (cpcs (cl_sys s) t)")
      case False
      with step none obtain c' where "cond_step_os os base t sp (cl_cond s) = Some c'" "s' = s\<lparr>cl_cond := c'\<rparr>"
        by (auto simp: cond_locks_step_def split: cpc.splits signal_pc.splits wait_pc.splits)
      with cond_point_simulated [OF inv t none False] show ?thesis by blast
    next
      case True
      then consider (idle) "cpcs (cl_sys s) t = Idle" | (lock) j where "cpcs (cl_sys s) t = In_signal j S_lock"
        | (unlock) j w where "cpcs (cl_sys s) t = In_signal j (S_unlock w)"
        | (munlock) seq g where "cpcs (cl_sys s) t = In_wait (W_unlock seq g)"
        | (relock) "cpcs (cl_sys s) t = In_wait W_relock"
        by (cases "cpcs (cl_sys s) t" rule: lock_point.cases) auto
      then show ?thesis
      proof cases
        case idle
        with step none relock show ?thesis by (auto simp: cond_locks_step_def split: if_splits)
      next
        case lock
        with step none inner_lock_simulated [OF inv t] show ?thesis by (simp add: cond_locks_step_def)
      next
        case unlock
        with step none inner_unlock_simulated [OF inv t] show ?thesis by (simp add: cond_locks_step_def)
      next
        case munlock
        with step none mutex_unlock_simulated [OF inv t _ none(1)] show ?thesis by (simp add: cond_locks_step_def)
      next
        case relock: relock
        have "\<not> holds_inner (cpcs (cl_sys s) t)" using relock by simp
        show ?thesis
        proof (cases "cl_mutex s t = Holding")
          case True
          with relock none step show ?thesis
            by (auto simp: cond_locks_step_def mutex_lock_os_def run_mutex_def three_states_lock_os_def
                user_step_def three_states_lock_def)
        next
          case False
          with relock none step mutex_lock_simulated [OF inv t _ none] show ?thesis
            by (simp add: cond_locks_step_def)
        qed
      qed
    qed
  qed
qed

lemma cond_locks_simulated:
  assumes inv: "clinv base m s" and step: "cond_locks_act os base m c s = Some s'"
  shows "clinv base m s' \<and> cond_steps (clabs s) (clabs s')"
proof -
  note facts = clinv_facts [OF inv]
  have in_range: "t < nthreads (cl_sys s)" if "cl_mutex s t = Holding" for t
    using facts(8) [of t] that by fastforce
  show ?thesis
  proof (cases c)
    case (Lock_mutex t)
    with step mutex_lock_simulated [OF inv, of t False s'] show ?thesis
      by (auto simp: cond_locks_act_def at_rest_def split: if_splits)
  next
    case (Unlock_mutex t)
    with step mutex_unlock_simulated [OF inv in_range, of t Idle s'] show ?thesis
      by (auto simp: cond_locks_act_def at_rest_def split: if_splits)
  next
    case (Cstep t sp u)
    with step cond_locks_step_simulated [OF inv] show ?thesis by (simp add: cond_locks_act_def)
  qed (use step cond_call_simulated [OF inv] in \<open>auto simp: cond_locks_act_def\<close>)
qed


lemma cond_locks_start_inv:
  assumes "cond_locks_start os on ok N base m s"
  shows "clinv base m s \<and> cond_start (clabs s)"
proof -
  from assms have start: "cond_os_start os on ok N base (cl_cond s)" and out: "cl_inner s = (\<lambda>_. Outside)"
    "cl_mutex s = (\<lambda>_. Outside)" by (simp_all add: cond_locks_start_def)
  note inv = cond_start_os_inv [OF start]
  have "lock_place base m s = (\<lambda>_. None)" using out by (simp add: lock_place_def fun_eq_iff)
  moreover have "cpcs (cl_sys s) = (\<lambda>_. Idle)" "mutex_owner (cl_sys s) = None"
    using start by (simp_all add: cond_os_start_def cond_start_def)
  moreover have "cond_inv (clabs s)" using inv cond.init_inv by blast
  ultimately have "clinv base m s"
    using assms inv by (simp add: cond_locks_inv_def cond_locks_start_def lock_pcs_ok_def inner_pc_ok_def
        mutex_pc_ok_def mutex_word_ok_def is_lock_state_def)
      (simp add: State_def three_states_defs)
  with inv show ?thesis by blast
qed

text \<open>A thread that is under way, has not finished destroying and is not asleep in the kernel can move.\<close>

lemma three_states_lock_os_moves:
  assumes "ok k" and "locking (pcs t)" and "pcs t = L_blocked \<Longrightarrow> pend k t"
  shows "\<exists>l. three_states_lock_os os a t sp \<lparr>lk_os = k, lk_pcs = pcs\<rparr> = Some l"
proof (cases "pcs t")
  case (L_wait e)
  obtain r k' where "os_futex os t a FUTEX_WAIT e k = (r, k')" by fastforce
  with L_wait show ?thesis by (cases r) (simp_all add: three_states_lock_os_def)
next
  case L_blocked
  with assms resume_runs [of k t] show ?thesis by (auto simp: three_states_lock_os_def)
qed (use assms in \<open>simp_all add: three_states_lock_os_def user_step_def three_states_lock_def Let_def atomic_defs\<close>)

lemma cond_step_os_moves:
  assumes "ok (co_os c)" and "\<not> lock_point (cpcs (co_sys c) t)" and "cpcs (co_sys c) t \<noteq> In_destroy D_done"
    and "blocked_on (cpcs (co_sys c) t) \<noteq> None \<Longrightarrow> pend (co_os c) t"
  shows "\<exists>c'. cond_step_os os base t sp c = Some c'"
proof (cases "futex_call (cpcs (co_sys c) t)")
  case (Some call)
  then obtain f futex_op val where call: "futex_call (cpcs (co_sys c) t) = Some (f, futex_op, val)" by (cases call) auto
  obtain r k where "os_futex os t (futex_addr base f) futex_op val (co_os c) = (r, k)" by fastforce
  with call show ?thesis by (cases r) (simp_all add: cond_step_os_def Let_def)
next
  case None
  show ?thesis
  proof (cases "blocked_on (cpcs (co_sys c) t) = None")
    case False
    with assms None resume_runs [of "co_os c" t] show ?thesis by (auto simp: cond_step_os_def Let_def)
  next
    case True
    have "\<exists>v. cond_step t sp t (co_sys c) = Some v" by (rule cond_step_total [OF None True assms(2,3)])
    with None True show ?thesis by (auto simp: cond_step_os_def Let_def cond_user_step_def)
  qed
qed

lemma cond_locks_moves:
  assumes inv: "clinv base m s" and mut: "mutex_inv (clabs s)" and t: "t < nthreads (cl_sys s)"
    and under_way: "\<not> at_rest s t" "cpcs (cl_sys s) t \<noteq> In_destroy D_done"
    and awake: "\<And>b. t \<notin> set (on (cl_os s) b)"
  shows "\<exists>s'. cond_locks_step os base m t sp s = Some s'"
proof -
  note facts = clinv_facts [OF inv]
  have cinv: "cinv base (lock_place base m s) (cl_cond s)" using inv by (simp add: cond_locks_inv_def)
  then have at: "\<not> sleeps_at base (lock_place base m s t) (cpcs (cl_sys s) t) b \<or> pend (cl_os s) t" for b
    using t awake by (simp add: cond_os_inv_def asleep_ok_def)
  have pend: "pend (cl_os s) t" if "cl_inner s t = L_blocked \<or> cl_mutex s t = L_blocked"
    using at [of "orig_addr base"] at [of m] that by (auto simp: sleeps_at_def lock_place_def split: if_splits)
  have pend': "pend (cl_os s) t" if "blocked_on (cpcs (cl_sys s) t) \<noteq> None"
  proof (cases "lock_place base m s t = None")
    case True
    from that obtain f where "blocked_on (cpcs (cl_sys s) t) = Some f" by blast
    with at [of "futex_addr base f"] True show ?thesis by (simp add: sleeps_at_def)
  next
    case False
    with pend show ?thesis by (auto simp: lock_place_def split: if_splits)
  qed
  have pcs: "lock_pcs_ok (cpcs (cl_sys s) t) (cl_inner s t) (cl_mutex s t)" by (rule facts(6))
  have held: "mutex_owner (cl_sys s) = Some t \<longleftrightarrow> cl_mutex s t = Holding"
    using inv by (simp add: cond_locks_inv_def)
  have own: "owner_ok (mutex_owner (cl_sys s)) t (cpcs (cl_sys s) t)" if "blocked_on (cpcs (cl_sys s) t) = None"
    using mut that seen_pc_awake [OF that] unfolding mutex_inv_def cond_abs_simps by metis
  have inner: "\<exists>l. three_states_lock_os os (orig_addr base) t sp \<lparr>lk_os = cl_os s, lk_pcs = cl_inner s\<rparr> = Some l"
    if "locking (cl_inner s t)"
    using three_states_lock_os_moves [of "cl_os s" "cl_inner s" t] facts(1) that pend by blast
  have mutex: "\<exists>l. three_states_lock_os os m t sp \<lparr>lk_os = cl_os s, lk_pcs = cl_mutex s\<rparr> = Some l"
    if "locking (cl_mutex s t)"
    using three_states_lock_os_moves [of "cl_os s" "cl_mutex s" t] facts(1) that pend by blast
  show ?thesis
  proof (cases "cl_inner s t = U_wake \<or> cl_mutex s t = U_wake")
    case True
    then show ?thesis by (auto simp: cond_locks_step_def run_inner_def run_mutex_def unlock_wake_os_def)
  next
    case False
    then have free: "cl_inner s t \<noteq> U_wake" "cl_mutex s t \<noteq> U_wake" by simp_all
    show ?thesis
    proof (cases "lock_point (cpcs (cl_sys s) t)")
      case False
      with cond_step_os_moves [OF facts(1) False under_way(2) pend'] free show ?thesis
        by (fastforce simp: cond_locks_step_def split: cpc.splits signal_pc.splits wait_pc.splits)
    next
      case True
      then consider (idle) "cpcs (cl_sys s) t = Idle" | (lock) j where "cpcs (cl_sys s) t = In_signal j S_lock"
        | (unlock) j w where "cpcs (cl_sys s) t = In_signal j (S_unlock w)"
        | (munlock) seq g where "cpcs (cl_sys s) t = In_wait (W_unlock seq g)"
        | (relock) "cpcs (cl_sys s) t = In_wait W_relock"
        by (cases "cpcs (cl_sys s) t" rule: lock_point.cases) auto
      then show ?thesis
      proof cases
        case idle
        with pcs free under_way have "locking (cl_mutex s t)" "cl_mutex s t \<noteq> Outside" "cl_mutex s t \<noteq> Holding"
          by (cases "cl_inner s t"; cases "cl_mutex s t"; simp add: at_rest_def lock_pcs_ok_def inner_pc_ok_def)+
        with idle free mutex show ?thesis by (auto simp: cond_locks_step_def mutex_lock_os_def run_mutex_def)
      next
        case lock
        with pcs have "cl_inner s t \<noteq> Holding" by (simp add: lock_pcs_ok_def inner_pc_ok_def)
        with free have "cl_inner s t = Outside \<or> locking (cl_inner s t)" by (cases "cl_inner s t") auto
        with lock free inner show ?thesis
          by (auto simp: cond_locks_step_def inner_lock_os_def run_inner_def user_step_def)
      next
        case unlock
        with pcs have "cl_inner s t = Holding" by (simp add: lock_pcs_ok_def inner_pc_ok_def)
        with unlock free show ?thesis
          by (simp add: cond_locks_step_def inner_unlock_os_def run_inner_def user_step_def three_states_unlock_def
              atomic_defs)
      next
        case munlock
        then have "cl_mutex s t = Holding" using own held by (simp add: owner_ok_def)
        with munlock free show ?thesis
          by (simp add: cond_locks_step_def mutex_unlock_os_def run_mutex_def user_step_def three_states_unlock_def
              atomic_defs)
      next
        case relock: relock
        then have "cl_mutex s t \<noteq> Holding" using own held by (simp add: owner_ok_def released_def)
        with free have "cl_mutex s t = Outside \<or> locking (cl_mutex s t)" by (cases "cl_mutex s t") auto
        with relock free mutex show ?thesis
          by (auto simp: cond_locks_step_def mutex_lock_os_def run_mutex_def user_step_def)
      qed
    qed
  qed
qed

end

end
