(* ===== verification/Cond_Stack.thy ===== *)
theory Cond_Stack
  imports Cond_Locks
begin

text \<open>
  The system of \<open>Cond_Locks\<close> with the kernel of \<^verbatim>\<open>kernel/k_futex.h\<close> behind it: the whole of
  \<^verbatim>\<open>pseudo_cond_var\<close> below the C++ classes in one system, what it shares with \<open>Cond_Conc\<close>, and that none
  of its threads is ever stuck outside of the kernel. A futex call is one step of this system; what
  calls that overlap in the kernel can do besides is in \<open>Kernel_Conc\<close> and \<open>Kernel_Linear\<close>.
\<close>

section \<open>On the kernel\<close>

abbreviation cond_stack_act ::
  "nat \<Rightarrow> addr \<Rightarrow> addr \<Rightarrow> cond_action \<Rightarrow> kernel cond_locks_sys \<Rightarrow> kernel cond_locks_sys option" where
  "cond_stack_act N base m \<equiv> cond_locks_act (kernel_os N) base m"

abbreviation cond_stack_start :: "nat \<Rightarrow> addr \<Rightarrow> addr \<Rightarrow> kernel cond_locks_sys \<Rightarrow> bool" where
  "cond_stack_start N base m \<equiv> cond_locks_start (kernel_os N) (sleepers_on N) (kernel_ok N) N base m"

abbreviation cond_stack_inv :: "nat \<Rightarrow> addr \<Rightarrow> addr \<Rightarrow> kernel cond_locks_sys \<Rightarrow> bool" where
  "cond_stack_inv N base m \<equiv> cond_locks_inv (kernel_os N) (sleepers_on N) woken_up (kernel_ok N) N base m"

abbreviation stack_abs :: "kernel cond_locks_sys \<Rightarrow> cond_sys" where
  "stack_abs s \<equiv> cond_abs woken_up (cl_cond s)"

interpretation cond_stack: simulated_system "cond_stack_act N base m" "cond_stack_start N base m"
  "cond_stack_inv N base m" cond_steps cond_start "\<lambda>s v. v = stack_abs s"
  for N base m
proof
  show "cond_stack_inv N base m s" if "cond_stack_start N base m s" for s
    using kernel_service.cond_locks_start_inv [OF that] by blast
  show "\<exists>v. cond_start v \<and> v = stack_abs s" if "cond_stack_start N base m s" for s
    using kernel_service.cond_locks_start_inv [OF that] by blast
next
  fix s c s' v
  assume step: "cond_stack_inv N base m s" "cond_stack_act N base m c s = Some s'"
  note sim = kernel_service.cond_locks_simulated [OF step]
  from sim show "cond_stack_inv N base m s'" by blast
  assume "v = stack_abs s"
  with sim show "\<exists>v'. v' = stack_abs s' \<and> cond_steps\<^sup>=\<^sup>= v v'" by auto
qed

lemma stack_abs_reachable:
  assumes "reachable (cond_stack_act N base m) (cond_stack_start N base m) s"
  shows "reachable cond_act cond_start (stack_abs s)"
proof -
  from cond_stack.reachable_rel [OF assms] obtain v where "cond_start v" "cond_steps v (stack_abs s)"
    by auto
  then show ?thesis by (auto intro: rtranclp_reachable [OF _ reachable_init])
qed

text \<open>Nobody is in the code of both locks, and the points in them match those of \<open>Cond_Conc\<close>.\<close>

lemma stack_locks:
  assumes "reachable (cond_stack_act N base m) (cond_stack_start N base m) s"
  shows "cl_inner s t = Holding \<longleftrightarrow> holds_inner (cpcs (cl_sys s) t)"
    and "cl_mutex s t = Holding \<longleftrightarrow> mutex_owner (cl_sys s) = Some t"
    and "mutex_word_ok (mutex_owner (cl_sys s)) (user_mem (cl_os s) m)"
    and "user_mem (cl_os s) (orig_addr base) = g1_orig_size (cv (cl_sys s))"
    and "inner_ok (stack_abs s)" and "mutex_inv (stack_abs s)"
    and "holds_inner (cpcs (stack_abs s) t) = holds_inner (cpcs (cl_sys s) t)"
proof -
  have inv: "cond_stack_inv N base m s" by (rule cond_stack.reachable_inv [OF assms])
  note facts = kernel_service.clinv_facts [OF inv]
  show "cl_inner s t = Holding \<longleftrightarrow> holds_inner (cpcs (cl_sys s) t)"
    using facts(6) [of t] by (simp add: lock_pcs_ok_def inner_pc_ok_def)
  show "cl_mutex s t = Holding \<longleftrightarrow> mutex_owner (cl_sys s) = Some t"
    and "mutex_word_ok (mutex_owner (cl_sys s)) (user_mem (cl_os s) m)"
    using inv by (simp_all add: cond_locks_inv_def kernel_os_def)
  show "user_mem (cl_os s) (orig_addr base) = g1_orig_size (cv (cl_sys s))"
    using facts(3) by (simp add: kernel_os_def)
  show "inner_ok (stack_abs s)" using inv by (simp add: cond_locks_inv_def cond_inv_def)
  show "mutex_inv (stack_abs s)" by (rule cond_mutex.reachable_inv [OF stack_abs_reachable [OF assms]])
  show "holds_inner (cpcs (stack_abs s) t) = holds_inner (cpcs (cl_sys s) t)"
    by (simp add: seen_pc_def Let_def)
qed


lemma stack_sleeper_blocked:
  assumes "reachable (cond_stack_act N base m) (cond_stack_start N base m) s" and t: "t < nthreads (cl_sys s)"
    and asleep: "t \<in> set (sleepers_on N (cl_os s) b)"
  shows "cond_locks_step (kernel_os N) base m t sp s = None"
proof -
  have inv: "cond_stack_inv N base m s" by (rule cond_stack.reachable_inv [OF assms(1)])
  note facts = kernel_service.clinv_facts [OF inv]
  have "cond_os_inv (kernel_os N) (sleepers_on N) woken_up (kernel_ok N) N base (lock_place base m s) (cl_cond s)"
    using inv by (simp add: cond_locks_inv_def)
  with t asleep have at: "sleeps_at base (lock_place base m s t) (cpcs (cl_sys s) t) b" and "\<not> woken_up (cl_os s) t"
    by (simp_all add: cond_os_inv_def asleep_ok_def)
  from kernel_service.resume_blocked [OF facts(1) this(2)] have no: "os_resume (kernel_os N) t (cl_os s) = None" .
  have pcs: "lock_pcs_ok (cpcs (cl_sys s) t) (cl_inner s t) (cl_mutex s t)" by (rule facts(6))
  consider (inner) "cl_inner s t = L_blocked" | (mutex) "cl_mutex s t = L_blocked" "cl_inner s t \<noteq> L_blocked"
    | (cond) f where "blocked_on (cpcs (cl_sys s) t) = Some f"
    using at by (auto simp: sleeps_at_def lock_place_def split: if_splits)
  then show ?thesis
  proof cases
    case inner
    with pcs obtain j where "cpcs (cl_sys s) t = In_signal j S_lock" "cl_mutex s t \<noteq> U_wake"
      by (auto simp: lock_pcs_ok_def inner_pc_ok_def mutex_pc_ok_def)
    with inner no show ?thesis
      by (simp add: cond_locks_step_def inner_lock_os_def run_inner_def three_states_lock_os_def)
  next
    case mutex
    with pcs have "cpcs (cl_sys s) t = Idle \<or> cpcs (cl_sys s) t = In_wait W_relock" "cl_inner s t \<noteq> U_wake"
      by (auto simp: lock_pcs_ok_def mutex_pc_ok_def)
    with mutex no show ?thesis
      by (auto simp: cond_locks_step_def mutex_lock_os_def run_mutex_def three_states_lock_os_def)
  next
    case cond
    with pcs have "cl_inner s t \<noteq> U_wake" "cl_mutex s t \<noteq> U_wake"
      by (auto simp: lock_pcs_ok_def inner_pc_ok_def mutex_pc_ok_def)
    with cond no show ?thesis
      by (cases "cpcs (cl_sys s) t" rule: blocked_on.cases) (auto simp: cond_locks_step_def cond_step_os_def)
  qed
qed

lemma lock_place_sleeps:
  assumes "lock_pcs_ok (cpcs (cl_sys s) t) (cl_inner s t) (cl_mutex s t)"
  shows "sleeps_at base (lock_place base m s t) (cpcs (cl_sys s) t) b \<longleftrightarrow>
    cl_inner s t = L_blocked \<and> b = orig_addr base \<or> cl_mutex s t = L_blocked \<and> b = m \<or>
      (\<exists>f. blocked_on (cpcs (cl_sys s) t) = Some f \<and> b = futex_addr base f)"
proof -
  have "cl_inner s t = L_blocked \<Longrightarrow> cl_mutex s t \<noteq> L_blocked \<and> blocked_on (cpcs (cl_sys s) t) = None"
    and "cl_mutex s t = L_blocked \<Longrightarrow> blocked_on (cpcs (cl_sys s) t) = None"
    using assms by (auto simp: lock_pcs_ok_def inner_pc_ok_def mutex_pc_ok_def)
  then show ?thesis
    by (cases "cl_inner s t = L_blocked"; cases "cl_mutex s t = L_blocked")
       (simp_all add: sleeps_at_def lock_place_def)
qed

lemma stack_awake:
  assumes "reachable (cond_stack_act N base m) (cond_stack_start N base m) s" and "t < nthreads (cl_sys s)"
    and "cl_inner s t \<noteq> L_blocked" and "cl_mutex s t \<noteq> L_blocked" and "blocked_on (cpcs (cl_sys s) t) = None"
  shows "\<forall>b. t \<notin> set (sleepers_on N (cl_os s) b)"
  using kernel_service.clinv_facts(9) [OF cond_stack.reachable_inv [OF assms(1)] assms(2)] assms(3-5)
  by (simp add: lock_place_def)

section \<open>An execution\<close>

text \<open>
  Everything at once: thread 0 sleeps in the wait, thread 1 has the inner lock and thread 2 sleeps on it,
  thread 3 has the mutex and is about to unlock it.
\<close>

definition stack_zero :: "kernel cond_locks_sys" where
  "stack_zero = \<lparr>cl_cond = cond_kernel_zero, cl_inner = (\<lambda>_. Outside), cl_mutex = (\<lambda>_. Outside)\<rparr>"

definition stack_run :: "cond_action list" where
  "stack_run =
     Lock_mutex 0 # replicate 2 (Cstep 0 False 0) @ Call_wait 0 # replicate 7 (Cstep 0 False 0) @
     Call_signal 1 # replicate 4 (Cstep 1 False 0) @ Call_signal 2 # replicate 5 (Cstep 2 False 0) @
     Lock_mutex 3 # replicate 2 (Cstep 3 False 0)"

definition stack_example :: "kernel cond_locks_sys" where
  "stack_example = the (run_sched (cond_stack_act 6 64 200) stack_run stack_zero)"

lemma stack_example_run:
  "run_sched (cond_stack_act 6 64 200) stack_run stack_zero = Some stack_example"
  "cpcs (cl_sys stack_example) 0 = In_wait (W_blocked 0 0)" "\<not> woken_up (cl_os stack_example) 0"
  "cpcs (cl_sys stack_example) 1 = In_signal Sig S_wseq" "nthreads (cl_sys stack_example) = 6"
  "cl_inner stack_example 1 = Holding" "cl_inner stack_example 2 = L_blocked"
  "cl_mutex stack_example 3 = Holding" "sleepers_on 6 (cl_os stack_example) 96 = [2]"
  "sleepers_on 6 (cl_os stack_example) 104 = [0]" "cl_mutex stack_example 1 = Outside"
proof -
  have "case run_sched (cond_stack_act 6 64 200) stack_run stack_zero of None \<Rightarrow> False | Some s \<Rightarrow>
      cpcs (cl_sys s) 0 = In_wait (W_blocked 0 0) \<and> \<not> woken_up (cl_os s) 0 \<and>
      cpcs (cl_sys s) 1 = In_signal Sig S_wseq \<and> nthreads (cl_sys s) = 6 \<and>
      cl_inner s 1 = Holding \<and> cl_inner s 2 = L_blocked \<and> cl_mutex s 3 = Holding \<and>
      sleepers_on 6 (cl_os s) 96 = [2] \<and> sleepers_on 6 (cl_os s) 104 = [0] \<and> cl_mutex s 1 = Outside"
    by code_simp
  then show "run_sched (cond_stack_act 6 64 200) stack_run stack_zero = Some stack_example"
    "cpcs (cl_sys stack_example) 0 = In_wait (W_blocked 0 0)" "\<not> woken_up (cl_os stack_example) 0"
    "cpcs (cl_sys stack_example) 1 = In_signal Sig S_wseq" "nthreads (cl_sys stack_example) = 6"
    "cl_inner stack_example 1 = Holding" "cl_inner stack_example 2 = L_blocked"
    "cl_mutex stack_example 3 = Holding" "sleepers_on 6 (cl_os stack_example) 96 = [2]"
    "sleepers_on 6 (cl_os stack_example) 104 = [0]" "cl_mutex stack_example 1 = Outside"
    by (auto simp: stack_example_def split: option.splits)
qed

lemma stack_example_reachable:
  "reachable (cond_stack_act 6 64 200) (cond_stack_start 6 64 200) stack_example"
proof (rule run_sched_from_init [where init = "cond_stack_start 6 64 200", OF _ stack_example_run(1)])
  show "cond_stack_start 6 64 200 stack_zero"
    using kernel_run_start
    by (simp add: cond_locks_start_def stack_zero_def apart_def futex_words_def orig_addr_def)
       (simp add: kernel_os_def cond_kernel_zero_def kernel_zero_def three_states_unlocked_def)
qed

section \<open>Properties\<close>

text \<open>C3: the condition variable with its real locks on the kernel, as long as the kernel executes
  one futex call at a time. When \<^verbatim>\<open>_InnerLock\<close>, \<^verbatim>\<open>pthread_mutex_lock\<close> and the futex calls are
  executed by \<^verbatim>\<open>three_states_lock_t.h\<close> and \<^verbatim>\<open>k_futex.h\<close>, each futex call without another in between,
  only those states of the condition variable are reached that are reached with abstract locks and
  futexes. The restriction matters: a wake that overlaps a wait can miss the waiter
  (\<open>futex_fast_path_misses_waiter\<close>), and then a waiter that has been signaled can stay asleep. The words in memory are those of the structure; a thread is in the kernel's queue
  of a word exactly when it blocks on this word, in the condition variable or in one of the locks,
  and nobody has woken it; and no waiter whose group has been closed is left asleep.\<close>

theorem cond_stack_refines_cond:
  assumes "reachable (cond_stack_act N base m) (cond_stack_start N base m) s"
  shows "reachable cond_act cond_start (stack_abs s) \<and>
    (\<forall>f \<in> set futex_words. user_mem (cl_os s) (futex_addr base f) = futex_word (cv (cl_sys s)) f) \<and>
    user_mem (cl_os s) (orig_addr base) = g1_orig_size (cv (cl_sys s)) \<and>
    (\<forall>t b. t < nthreads (cl_sys s) \<longrightarrow> t \<in> set (sleepers_on N (cl_os s) b) \<longleftrightarrow>
       (cl_inner s t = L_blocked \<and> b = orig_addr base \<or> cl_mutex s t = L_blocked \<and> b = m \<or>
        (\<exists>f. blocked_on (cpcs (cl_sys s) t) = Some f \<and> b = futex_addr base f)) \<and> \<not> woken_up (cl_os s) t) \<and>
    (\<forall>t seq g. cpcs (cl_sys s) t = In_wait (W_blocked seq g) \<longrightarrow>
       woken_up (cl_os s) t \<or> unat (old_g1_start (cv (cl_sys s))) \<le> unat seq)"
proof -
  note v = stack_abs_reachable [OF assms] and locks = stack_locks [OF assms]
  have inv: "cond_stack_inv N base m s" by (rule cond_stack.reachable_inv [OF assms])
  note facts = kernel_service.clinv_facts [OF inv]
  have cinv: "cond_os_inv (kernel_os N) (sleepers_on N) woken_up (kernel_ok N) N base (lock_place base m s) (cl_cond s)"
    using inv by (simp add: cond_locks_inv_def)
  then have words: "user_mem (cl_os s) (futex_addr base f) = futex_word (cv (cl_sys s)) f" if "f \<in> set futex_words" for f
    using that by (simp add: cond_os_inv_def words_stored_def kernel_os_def)
  note place = lock_place_sleeps [OF facts(6)]
  have asleep: "t \<in> set (sleepers_on N (cl_os s) b) \<longleftrightarrow>
      sleeps_at base (lock_place base m s t) (cpcs (cl_sys s) t) b \<and> \<not> woken_up (cl_os s) t"
    if "t < nthreads (cl_sys s)" for t b
    using cinv that by (simp add: cond_os_inv_def asleep_ok_def)
  have closed: "unat (old_g1_start (cv (cl_sys s))) \<le> unat seq"
    if "cpcs (cl_sys s) t = In_wait (W_blocked seq g)" "\<not> woken_up (cl_os s) t" for t seq g
    using waiter_not_closed [OF v, of t seq g] that by (simp add: seen_pc_def Let_def)
  show ?thesis
    by (intro conjI v locks(4) ballI allI impI words asleep [unfolded place]) (assumption | use closed in blast)+
qed

theorem cond_stack_refines_cond_witness:
  "reachable cond_act cond_start (stack_abs stack_example) \<and>
   user_mem (cl_os stack_example) 96 = g1_orig_size (cv (cl_sys stack_example)) \<and>
   0 \<in> set (sleepers_on 6 (cl_os stack_example) 104) \<and> 2 \<in> set (sleepers_on 6 (cl_os stack_example) 96) \<and>
   \<not> woken_up (cl_os stack_example) 2"
proof -
  note facts = cond_stack_refines_cond [OF stack_example_reachable]
  have two: "2 \<in> set (sleepers_on 6 (cl_os stack_example) 96)" by (simp add: stack_example_run)
  have "2 < nthreads (cl_sys stack_example)" by (simp add: stack_example_run)
  with facts [THEN conjunct2, THEN conjunct2, THEN conjunct2, THEN conjunct1, THEN spec [of _ 2], THEN spec [of _ 96]] two
  have "\<not> woken_up (cl_os stack_example) 2" by blast
  with facts two show ?thesis by (simp add: orig_addr_def stack_example_run)
qed

text \<open>C9: critical sections end to end. At most one thread has the inner lock and at most one the mutex,
  and the state bits of the two words say whether anybody has. A thread works on the data of
  the condition variable only while it has the inner lock; \<^verbatim>\<open>pthread_cond_wait\<close> has the mutex
  until it gives it up and gets it back only by its last call.\<close>

theorem cond_stack_mutual_exclusion:
  assumes "reachable (cond_stack_act N base m) (cond_stack_start N base m) s"
  shows "(\<exists>\<^sub>\<le>\<^sub>1 t. cl_inner s t = Holding) \<and> (\<exists>\<^sub>\<le>\<^sub>1 t. cl_mutex s t = Holding) \<and>
    (State (user_mem (cl_os s) (orig_addr base)) = three_states_unlocked \<longleftrightarrow> (\<forall>t. cl_inner s t \<noteq> Holding)) \<and>
    (State (user_mem (cl_os s) m) = three_states_unlocked \<longleftrightarrow> (\<forall>t. cl_mutex s t \<noteq> Holding)) \<and>
    (\<forall>t. holds_inner (cpcs (cl_sys s) t) \<longrightarrow> cl_inner s t = Holding) \<and>
    (\<forall>t. entering (cpcs (cl_sys s) t) \<longrightarrow> cl_mutex s t = Holding) \<and>
    (\<forall>t. released (cpcs (cl_sys s) t) \<longrightarrow> cl_mutex s t \<noteq> Holding)"
proof -
  note locks = stack_locks [OF assms]
  have own: "owner_ok (mutex_owner (cl_sys s)) t (cpcs (cl_sys s) t)" for t
  proof -
    have "owner_ok (mutex_owner (cl_sys s)) t (seen_pc woken_up (cl_cond s) t)"
      using locks(6) unfolding Cond_Mutex.mutex_inv_def cond_abs_simps by blast
    then show ?thesis by (auto simp: seen_pc_def Let_def split: if_splits)
  qed
  have word: "State (user_mem (cl_os s) m) = three_states_unlocked \<longleftrightarrow> mutex_owner (cl_sys s) = None"
    using locks(3) by (simp add: mutex_word_ok_def)
  have inner: "State (g1_orig_size (cv (cl_sys s))) = three_states_unlocked \<longleftrightarrow> (\<forall>t. \<not> holds_inner (cpcs (cl_sys s) t))"
    "holds_inner (cpcs (cl_sys s) t) \<Longrightarrow> holds_inner (cpcs (cl_sys s) u) \<Longrightarrow> t = u" for t u
    using locks(5) unfolding inner_ok_def locks(7) by simp_all
  show ?thesis
    unfolding locks(1,2,4) word Uniq_def using inner own by (auto simp: owner_ok_def)
qed

theorem cond_stack_mutual_exclusion_witness:
  "cl_inner stack_example 1 = Holding \<and> (\<exists>\<^sub>\<le>\<^sub>1 t. cl_inner stack_example t = Holding) \<and>
   cl_mutex stack_example 3 = Holding \<and> (\<exists>\<^sub>\<le>\<^sub>1 t. cl_mutex stack_example t = Holding) \<and>
   State (user_mem (cl_os stack_example) 200) \<noteq> three_states_unlocked"
proof -
  note facts = cond_stack_mutual_exclusion [OF stack_example_reachable]
  from facts stack_example_run(8) have "State (user_mem (cl_os stack_example) 200) \<noteq> three_states_unlocked"
    by blast
  with facts stack_example_run(6,8) show ?thesis by blast
qed

text \<open>C10: nobody is stuck in the code. In every state the whole stack can reach, a thread that is inside
  one of the operations or on its way through a lock, has not finished destroying and is not in one of the
  kernel's queues can make its next step, whatever the other threads do; the only threads that cannot
  move are those asleep in the kernel that nobody has woken.\<close>

theorem cond_stack_threads_move:
  assumes "reachable (cond_stack_act N base m) (cond_stack_start N base m) s"
    and "t < nthreads (cl_sys s)" and "\<not> at_rest s t" and "cpcs (cl_sys s) t \<noteq> In_destroy D_done"
  shows "(\<exists>s'. cond_stack_act N base m (Cstep t sp u) s = Some s') \<longleftrightarrow>
    (\<forall>b. t \<notin> set (sleepers_on N (cl_os s) b))"
proof
  have inv: "cond_stack_inv N base m s" by (rule cond_stack.reachable_inv [OF assms(1)])
  assume "\<forall>b. t \<notin> set (sleepers_on N (cl_os s) b)"
  then show "\<exists>s'. cond_stack_act N base m (Cstep t sp u) s = Some s'"
    using kernel_service.cond_locks_moves [OF inv stack_locks(6) [OF assms(1)] assms(2-4)]
    by (simp add: cond_locks_act_def)
next
  assume "\<exists>s'. cond_stack_act N base m (Cstep t sp u) s = Some s'"
  then show "\<forall>b. t \<notin> set (sleepers_on N (cl_os s) b)"
    using stack_sleeper_blocked [OF assms(1,2)] by (auto simp: cond_locks_act_def)
qed


theorem cond_stack_threads_move_witness:
  "(\<exists>s'. cond_stack_act 6 64 200 (Cstep 1 False 0) stack_example = Some s') \<and>
   cond_stack_act 6 64 200 (Cstep 0 False 0) stack_example = None"
proof -
  have "\<forall>b. 1 \<notin> set (sleepers_on 6 (cl_os stack_example) b)"
    using stack_awake [OF stack_example_reachable, of 1] by (simp add: stack_example_run del: One_nat_def)
  then have "\<exists>s'. cond_stack_act 6 64 200 (Cstep 1 False 0) stack_example = Some s'"
    using cond_stack_threads_move [OF stack_example_reachable, of 1 False 0]
    by (simp add: stack_example_run at_rest_def del: One_nat_def)
  moreover have "\<not> (\<forall>b. 0 \<notin> set (sleepers_on 6 (cl_os stack_example) b))"
    using stack_example_run(10) by (metis list.set_intros(1))
  then have "\<not> (\<exists>s'. cond_stack_act 6 64 200 (Cstep 0 False 0) stack_example = Some s')"
    using cond_stack_threads_move [OF stack_example_reachable, of 0 False 0]
    by (simp add: stack_example_run at_rest_def)
  ultimately show ?thesis by simp
qed

end
