(* ===== verification/Cond_Equiv.thy ===== *)
theory Cond_Equiv
  imports Cond_Conc
begin

text \<open>
  The two models of \<^verbatim>\<open>nptl/pthread_cond.h\<close> agree: a thread that runs signal or broadcast step by
  step, with nobody in between, does what the operation of \<open>Cond_Var\<close> does.
\<close>

section \<open>Runs of one thread\<close>

definition solo :: "tid \<Rightarrow> tid \<Rightarrow> cond_sys \<Rightarrow> cond_sys \<Rightarrow> bool" where
  "solo t u s s' \<longleftrightarrow> (\<exists>n. run_sched cond_act (replicate n (Cstep t False u)) s = Some s')"

lemma solo_refl: "solo t u s s"
  unfolding solo_def by (rule exI [of _ 0]) simp

lemma solo_step:
  assumes "cond_step t False u s = Some s1" and "solo t u s1 s'"
  shows "solo t u s s'"
proof -
  from assms(2) obtain n where "run_sched cond_act (replicate n (Cstep t False u)) s1 = Some s'"
    by (auto simp: solo_def)
  with assms(1) show ?thesis unfolding solo_def by (intro exI [of _ "Suc n"]) simp
qed

text \<open>The thread at point \<open>p\<close> of job \<open>j\<close> with the structure \<open>c\<close>, in the surroundings of \<open>s\<close>.\<close>

definition at_point :: "tid \<Rightarrow> job \<Rightarrow> signal_pc \<Rightarrow> pthread_cond_t \<Rightarrow> cond_sys \<Rightarrow> cond_sys" where
  "at_point t j p c s = sgo t j p (\<lambda>_. c) s"

lemma at_point_simps [simp]:
  "cv (at_point t j p c s) = c" "cpcs (at_point t j p c s) t = In_signal j p"
  "cmove t r f (at_point t j p c s) = cmove t r (\<lambda>_. f c) s"
  "sgo t j q f (at_point t j p c s) = at_point t j q (f c) s"
  by (simp_all add: at_point_def sgo_def cmove_def)

lemma solo_point:
  assumes "signal_step t False u j p (at_point t j p c s) = Some s1" and "solo t u s1 s'"
  shows "solo t u (at_point t j p c s) s'"
  by (rule solo_step [OF _ assms(2)]) (use assms(1) in \<open>simp add: cond_step_def\<close>)

lemma solo_switch:
  assumes q: "quiesce_and_switch_g1 c seq g = Some (has_waiters, g', c')"
    and rest: "solo t u (at_point t j (if has_waiters then S_post g' else S_unlock None) c' s) s'"
  shows "solo t u (at_point t j (Q_check g seq) c s) s'"
proof (cases "g2_pending c seq g = 0")
  case True
  with q have "has_waiters = False" "c' = c" by (auto simp: quiesce_and_switch_g1_def Let_def)
  with True rest show ?thesis by (intro solo_point [where p = "Q_check g seq"]) auto
next
  case False
  let ?orig = "old_orig_size c" and ?start = "old_g1_start c"
  let ?c2 = "close_group g c"
  let ?c3 = "advance_g1_start g ?orig ?c2"
  let ?c4 = "reopen_group g ?c3"
  obtain seq' c5 where flip: "flip_groups ?c4 = (seq', c5)" by fastforce
  let ?n = "ucast (seq' - ?start - ucast ?orig) :: u32"
  let ?c6 = "grow_group (GAnother g) ?n c5"
  have refs: "drop_bit 1 (g_refs ?c2 g) = 0"
    and res: "g' = GAnother g" "c' = store_orig_size ?n ?c6" "has_waiters \<longleftrightarrow> g_size c' g' \<noteq> 0"
    using q False flip by (auto simp: quiesce_and_switch_g1_def Let_def atomic_defs split: if_splits)
  have size: "g_size (store_orig_size n d) = g_size d" for n d by (simp add: store_orig_size_def)
  show ?thesis
    apply (rule solo_point, (simp add: False; fail))
    apply (rule solo_point, (simp; fail))
    apply (rule solo_point, (simp add: quiesce_head_def refs [simplified] atomic_defs; fail))
    apply (rule solo_point, (simp; fail))
    apply (rule solo_point, (simp; fail))
    apply (rule solo_point, (simp add: flip Let_def; fail))
    apply (rule solo_point, (simp; fail))
    apply (rule solo_point, (simp add: atomic_defs; fail))
    using rest unfolding res by (simp add: size store_orig_size_def split: if_splits)
qed

lemma wake_all_at_point:
  assumes "blocked_on (In_signal j p) = None"
  shows "wake_all f (at_point t j p c s) = at_point t j p c (wake_all f s)"
  by (rule cond_sys.equality) (use assms in \<open>auto simp: fun_eq_iff at_point_def sgo_def cmove_def wake_all_def\<close>)

text \<open>The end of the critical section and the wake-up after it.\<close>

definition finished :: "tid \<Rightarrow> pthread_cond_t \<Rightarrow> cond_sys \<Rightarrow> cond_sys" where
  "finished t c s = cmove t Idle (\<lambda>_. inner_unlock c) s"

lemma solo_unlock_quiet: "solo t u (at_point t j (S_unlock None) c s) (finished t c s)"
  by (rule solo_point [OF _ solo_refl]) (simp add: finished_def)

lemma solo_unlock_wake:
  assumes "(case j of Sig \<Rightarrow> wake_one (F_signals g) u (finished t c s)
      | Bcast \<Rightarrow> Some (wake_all (F_signals g) (finished t c s))) = Some s'"
  shows "solo t u (at_point t j (S_unlock (Some g)) c s) s'"
proof -
  have "solo t u (at_point t j (S_wake g) (inner_unlock c) s) s'"
    by (rule solo_point [OF _ solo_refl]) (use assms in \<open>simp add: finished_def split: job.splits\<close>)
  then show ?thesis
    by (intro solo_point [where p = "S_unlock (Some g)"]) (auto simp: at_point_def sgo_def cmove_def)
qed

lemma solo_post:
  assumes "solo t u (at_point t j (S_unlock (Some g)) (post j g c) s) s'"
  shows "solo t u (at_point t j (S_post g) c s) s'"
  by (rule solo_point [OF _ assms]) simp

text \<open>
  The threads that a list of wake-ups lets go on, when \<open>u\<close> is the sleeper that a wake of one
  thread picks.
\<close>

definition wake_effect :: "tid \<Rightarrow> wake list \<Rightarrow> tid \<Rightarrow> cond_sys \<Rightarrow> cond_sys \<Rightarrow> bool" where
  "wake_effect t ws u s s' \<longleftrightarrow>
     (\<forall>v. v \<noteq> t \<longrightarrow> cpcs s' v =
        (if \<exists>g. blocked_on (cpcs s v) = Some (F_signals g) \<and>
               (Wake_all g \<in> set ws \<or> Wake_one g \<in> set ws \<and> v = u)
         then futex_return (cpcs s v) else cpcs s v)) \<and>
     (\<forall>g. Wake_one g \<in> set ws \<longrightarrow>
        sleeping (F_signals g) s = [] \<or> u \<in> set (sleeping (F_signals g) s))"

lemma finished_simps [simp]:
  "cv (finished t c s) = inner_unlock c" "cpcs (finished t c s) v = (if v = t then Idle else cpcs s v)"
  "nthreads (finished t c s) = nthreads s"
  by (simp_all add: finished_def cmove_def)

lemma sleeping_finished:
  assumes "blocked_on (cpcs s t) = None"
  shows "sleeping f (finished t c s) = sleeping f s"
  using assms unfolding sleeping_def by (intro filter_cong) auto

text \<open>The section behind the lock, from the load of \<^verbatim>\<open>wseq\<close> on.\<close>

lemma solo_signal_locked:
  assumes body: "signal_locked c = Some (ws, c')" and t: "blocked_on (cpcs s t) = None"
  shows "\<exists>u s'. solo t u (at_point t Sig S_wseq c s) s' \<and> cv s' = inner_unlock c' \<and>
    cpcs s' t = Idle \<and> wake_effect t ws u s s'"
proof -
  let ?g = "g1_index c" and ?seq = "Seq (wseq c)"
  have start: "solo t u (at_point t Sig S_wseq c s) s'"
    if "solo t u (at_point t Sig (S_size ?g ?seq) c s) s'" for u s'
    by (rule solo_point [OF _ that]) (simp add: atomic_load_def g1_index_def Let_def)
  show ?thesis
  proof (cases "ws = []")
    case True
    with body have size: "g_size c ?g = 0"
      and q: "\<exists>g'. quiesce_and_switch_g1 c ?seq ?g = Some (False, g', c')"
      by (auto simp: signal_locked_def g1_index_def atomic_load_def Let_def split: if_splits option.splits)
    from q obtain g' where "quiesce_and_switch_g1 c ?seq ?g = Some (False, g', c')" ..
    from solo_switch [OF this, of t _ Sig s "finished t c' s"] solo_unlock_quiet
    have "solo t u (at_point t Sig (Q_check ?g ?seq) c s) (finished t c' s)" for u by simp
    then have "solo t u (at_point t Sig S_wseq c s) (finished t c' s)" for u
      using size by (intro start solo_point [where p = "S_size ?g ?seq"]) auto
    with True show ?thesis by (intro exI [of _ 0] exI [of _ "finished t c' s"]) (simp add: wake_effect_def)
  next
    case False
    obtain g d where ws: "ws = [Wake_one g]" and c': "c' = post Sig g d"
      and post: "g_size c ?g \<noteq> 0 \<and> g = ?g \<and> d = c \<or>
        g_size c ?g = 0 \<and> quiesce_and_switch_g1 c ?seq ?g = Some (True, g, d)"
      using body False
      by (auto simp: signal_locked_def g1_index_def atomic_load_def Let_def post_def split: if_splits option.splits)
    let ?F = "F_signals g"
    define u where "u = (if sleeping ?F s = [] then t else hd (sleeping ?F s))"
    have u: "sleeping ?F s = [] \<or> u \<in> set (sleeping ?F s)" by (simp add: u_def)
    have sl: "sleeping ?F (finished t c' s) = sleeping ?F s" using t by (rule sleeping_finished)
    define s' where "s' = (if sleeping ?F s = [] then finished t c' s
      else (finished t c' s)\<lparr>cpcs := (cpcs (finished t c' s))(u := futex_return (cpcs (finished t c' s) u))\<rparr>)"
    have wake: "wake_one ?F u (finished t c' s) = Some s'"
      using u by (auto simp: wake_one_def sl s'_def)
    then have unlock: "solo t u (at_point t Sig (S_unlock (Some g)) c' s) s'"
      by (intro solo_unlock_wake) simp
    have "solo t u (at_point t Sig (S_size ?g ?seq) c s) s'"
    proof (cases "g_size c ?g = 0")
      case True
      with post have q: "quiesce_and_switch_g1 c ?seq ?g = Some (True, g, d)" by auto
      from solo_switch [OF q, of t u Sig s s'] solo_post [of t u Sig g d s s'] unlock c'
      have "solo t u (at_point t Sig (Q_check ?g ?seq) c s) s'" by simp
      with True show ?thesis by (intro solo_point [where p = "S_size ?g ?seq"]) auto
    next
      case False
      with post unlock c' show ?thesis by (intro solo_point [where p = "S_size ?g ?seq"]) auto
    qed
    then have run: "solo t u (at_point t Sig S_wseq c s) s'" by (rule start)
    have other: "cpcs s' v = (if blocked_on (cpcs s v) = Some ?F \<and> v = u
        then futex_return (cpcs s v) else cpcs s v)" if "v \<noteq> t" for v
      using that u by (auto simp: s'_def u_def sleeping_def)
    have "cpcs s' t = Idle" "cv s' = inner_unlock c'"
      using u t by (auto simp: s'_def sleeping_def)
    moreover have "wake_effect t ws u s s'" using u other by (auto simp: wake_effect_def ws)
    ultimately show ?thesis using run by blast
  qed
qed

lemma blocked_on_futex_return [simp]: "blocked_on (futex_return p) = None"
  by (cases p rule: futex_return.cases) simp_all

lemma post_Bcast: "post Bcast = post_all"
  by (rule ext)+ (simp add: post_def)

lemma solo_broadcast_locked:
  assumes body: "broadcast_locked c = Some (ws, c')" and t: "blocked_on (cpcs s t) = None"
  shows "\<exists>s'. solo t u (at_point t Bcast S_wseq c s) s' \<and> cv s' = inner_unlock c' \<and>
    cpcs s' t = Idle \<and> wake_effect t ws u s s'"
proof -
  let ?g = "g1_index c" and ?seq = "Seq (wseq c)"
  define d where "d = (if g_size c ?g \<noteq> 0 then post Bcast ?g c else c)"
  define ws1 where "ws1 = (if g_size c ?g \<noteq> 0 then [Wake_all ?g] else [])"
  define s1 where "s1 = (if g_size c ?g \<noteq> 0 then wake_all (F_signals ?g) s else s)"
  have first: "solo t u (at_point t Bcast S_wseq c s) s'"
    if rest: "solo t u (at_point t Bcast (Q_check ?g ?seq) d s1) s'" for s'
  proof -
    have "solo t u (at_point t Bcast (S_size ?g ?seq) c s) s'"
    proof (cases "g_size c ?g = 0")
      case True
      with rest show ?thesis by (intro solo_point [where p = "S_size ?g ?seq"]) (auto simp: d_def s1_def)
    next
      case False
      have "solo t u (at_point t Bcast (S_wake_first ?g ?seq) d s) s'"
        using rest False by (intro solo_point [where p = "S_wake_first ?g ?seq"])
          (auto simp: s1_def wake_all_at_point)
      with False show ?thesis by (intro solo_point [where p = "S_size ?g ?seq"]) (auto simp: d_def)
    qed
    then show ?thesis by (intro solo_point [where p = S_wseq]) (auto simp: atomic_load_def g1_index_def Let_def)
  qed
  have t1: "blocked_on (cpcs s1 t) = None" using t by (auto simp: s1_def wake_all_def)
  obtain has g e where q: "quiesce_and_switch_g1 d ?seq ?g = Some (has, g, e)"
    and res: "ws = (if has then ws1 @ [Wake_all g] else ws1)" "c' = (if has then post Bcast g e else e)"
  proof -
    have "broadcast_locked c = (case quiesce_and_switch_g1 d ?seq ?g of
           None \<Rightarrow> None
         | Some (has, g, e) \<Rightarrow>
             if has then Some (ws1 @ [Wake_all g], post Bcast g e) else Some (ws1, e))"
      unfolding d_def ws1_def g1_index_def post_Bcast
      by (simp add: broadcast_locked_def atomic_load_def Let_def)
    with body that show ?thesis by (auto split: option.splits if_splits)
  qed
  define s' where "s' = (if has then wake_all (F_signals g) (finished t c' s1) else finished t c' s1)"
  have "solo t u (at_point t Bcast (if has then S_post g else S_unlock None) e s1) s'"
    using res solo_unlock_quiet [of t u Bcast c' s1]
      solo_post [OF solo_unlock_wake, where j = Bcast and g = g and u = u and t = t and c = e and s = s1 and s' = s'] by (auto simp: s'_def)
  from first [OF solo_switch [OF q this]] have run: "solo t u (at_point t Bcast S_wseq c s) s'" .
  have "cpcs s' t = Idle" "cv s' = inner_unlock c'"
    by (simp_all add: s'_def wake_all_def)
  moreover have "wake_effect t ws u s s'"
    by (auto simp: wake_effect_def res ws1_def s'_def s1_def wake_all_def)
  ultimately show ?thesis using run by blast
qed

section \<open>The equivalence\<close>

definition cond_op_of :: "job \<Rightarrow> pthread_cond_t \<Rightarrow> (wake list \<times> pthread_cond_t) option" where
  "cond_op_of j = (case j of Sig \<Rightarrow> pthread_cond_signal | Bcast \<Rightarrow> pthread_cond_broadcast)"

text \<open>C18: a thread that calls \<^verbatim>\<open>pthread_cond_signal\<close> or \<^verbatim>\<open>pthread_cond_broadcast\<close> and runs without
  interruption returns, if it does not have to sleep, after finitely many steps; it leaves the
  structure as the operation executed in one piece does, and wakes exactly the sleepers that this
  operation names: all on a group's futex, or one of them if there is any.\<close>

theorem cond_operations_step_by_step:
  assumes pc: "cpcs s t = In_signal j S_fast" and run: "cond_op_of j (cv s) = Some (ws, c')"
  shows "\<exists>u n s'. run_sched cond_act (replicate n (Cstep t False u)) s = Some s' \<and>
    cv s' = c' \<and> cpcs s' t = Idle \<and> wake_effect t ws u s s'"
proof -
  have first: "solo t u s s'"
    if "signal_step t False u j S_fast s = Some s1" "solo t u s1 s'" for u s1 s'
    by (rule solo_step [OF _ that(2)]) (use that(1) pc in \<open>simp add: cond_step_def\<close>)
  have t: "blocked_on (cpcs s t) = None" using pc by simp
  have "\<exists>u s'. solo t u s s' \<and> cv s' = c' \<and> cpcs s' t = Idle \<and> wake_effect t ws u s s'"
  proof (cases "WaitersRef (wrefs (cv s)) = 0")
    case True
    with run have "ws = []" "c' = cv s"
      by (auto simp: cond_op_of_def pthread_cond_signal_def pthread_cond_broadcast_def
          with_inner_lock_def atomic_load_def split: job.splits)
    moreover have "solo t u s (cmove t Idle id s)" for u
      by (rule first [OF _ solo_refl]) (use True in \<open>simp add: atomic_load_def\<close>)
    ultimately show ?thesis
      by (intro exI [of _ t] exI [of _ "cmove t Idle id s"])
         (simp add: cmove_def wake_effect_def)
  next
    case False
    then obtain d e where lock: "inner_lock (cv s) = Some d" and unlock: "c' = inner_unlock e"
      and body: "(case j of Sig \<Rightarrow> signal_locked | Bcast \<Rightarrow> broadcast_locked) d = Some (ws, e)"
      using run by (cases j) (auto simp: cond_op_of_def pthread_cond_signal_def
          pthread_cond_broadcast_def with_inner_lock_def atomic_load_def split: option.splits)
    have enter: "solo t u s s'" if rest: "solo t u (at_point t j S_wseq d s) s'" for u s'
    proof (rule first)
      show "signal_step t False u j S_fast s = Some (at_point t j S_lock (cv s) s)"
        using False by (simp add: atomic_load_def at_point_def sgo_def cmove_def)
      show "solo t u (at_point t j S_lock (cv s) s) s'"
        by (rule solo_point [OF _ rest]) (simp add: lock)
    qed
    show ?thesis
    proof (cases j)
      case Sig
      with body solo_signal_locked [OF _ t, of d ws e] enter unlock show ?thesis by fastforce
    next
      case Bcast
      with body solo_broadcast_locked [OF _ t, of d ws e t] enter unlock show ?thesis by fastforce
    qed
  qed
  then show ?thesis unfolding solo_def by blast
qed

text \<open>Thread 5 signals with two waiters that have not gone to sleep.\<close>

definition solo_example :: cond_sys where
  "solo_example = \<lparr>cv = cond_two, mutex_owner = None,
     cpcs = (\<lambda>_. Idle)(0 := In_wait (W_load 0 0), 1 := In_wait (W_load 1 0), 5 := In_signal Sig S_fast),
     nthreads = 6\<rparr>"

theorem cond_operations_step_by_step_witness:
  "\<exists>ws c' u n s'. pthread_cond_signal cond_two = Some (ws, c') \<and>
     run_sched cond_act (replicate n (Cstep 5 False u)) solo_example = Some s' \<and> cv s' = c' \<and>
     cpcs s' 5 = Idle"
proof -
  obtain ws c' where op: "pthread_cond_signal cond_two = Some (ws, c')"
    using cond_two_signal by blast
  have "cpcs solo_example 5 = In_signal Sig S_fast" by (simp add: solo_example_def)
  from cond_operations_step_by_step [OF this, of ws c'] op show ?thesis
    by (auto simp: cond_op_of_def solo_example_def)
qed

end
