(* ===== verification/Std_Wrappers.thy ===== *)
theory Std_Wrappers
  imports Cond_Var
begin

text \<open>
  \<^verbatim>\<open>std/mutex\<close> and \<^verbatim>\<open>std/condition_variable\<close>: the C++ classes over the mutex and the condition
  variable. Mutexes live in a store by address; a pointer is an address or null. An operation
  returns, has to sleep because the mutex is held, or dereferences a null pointer.
\<close>

datatype 'a outcome = Returns 'a | Blocks | Null_deref

type_synonym mutex_addr = nat
type_synonym mutexes = "mutex_addr \<Rightarrow> pthread_mutex_t"

section \<open>class mutex\<close>

definition mutex_ctor :: "mutex_addr \<Rightarrow> mutexes \<Rightarrow> mutexes" where
  "mutex_ctor a h = h(a := pthread_mutex_init (h a))"

definition mutex_lock :: "mutex_addr \<Rightarrow> mutexes \<Rightarrow> mutexes outcome" where
  "mutex_lock a h =
     (if State (m_lock (h a)) = three_states_unlocked
      then Returns (h(a := (h a)\<lparr>m_lock := m_lock (h a) OR three_states_locked_no_waiter\<rparr>))
      else Blocks)"

definition mutex_unlock :: "mutex_addr \<Rightarrow> mutexes \<Rightarrow> mutexes" where
  "mutex_unlock a h =
     h(a := (h a)\<lparr>m_lock := snd (atomic_fetch_and (m_lock (h a)) (NOT three_states_mask))\<rparr>)"

definition mutex_try_lock :: "mutex_addr \<Rightarrow> mutexes \<Rightarrow> bool \<times> mutexes" where
  "mutex_try_lock a h = (case pthread_mutex_trylock (h a) of (ret, m) \<Rightarrow> (ret \<noteq> 0, h(a := m)))"

text \<open>The handle is the address of the only member, so it is the address of the object.\<close>

definition native_handle :: "mutex_addr \<Rightarrow> mutex_addr" where
  "native_handle a = a"

section \<open>class unique_lock\<close>

record unique_lock =
  ul_m :: "mutex_addr option"
  ul_owns :: bool

text \<open>The constructor initialises \<^verbatim>\<open>m_\<close> only; \<^verbatim>\<open>owns_\<close> has its default member initialiser.\<close>

definition unique_lock_ctor :: "mutex_addr \<Rightarrow> mutexes \<Rightarrow> (unique_lock \<times> mutexes) outcome" where
  "unique_lock_ctor a h =
     (case mutex_lock a h of
        Returns h \<Rightarrow> Returns (\<lparr>ul_m = Some a, ul_owns = False\<rparr>, h)
      | Blocks \<Rightarrow> Blocks | Null_deref \<Rightarrow> Null_deref)"

definition unique_lock_dtor :: "unique_lock \<Rightarrow> mutexes \<Rightarrow> mutexes outcome" where
  "unique_lock_dtor l h =
     (if ul_owns l
      then case ul_m l of None \<Rightarrow> Null_deref | Some a \<Rightarrow> Returns (mutex_unlock a h)
      else Returns h)"

text \<open>The move constructor: the new object and the one moved from.\<close>

definition unique_lock_move :: "unique_lock \<Rightarrow> unique_lock \<times> unique_lock" where
  "unique_lock_move l = (\<lparr>ul_m = ul_m l, ul_owns = ul_owns l\<rparr>, l\<lparr>ul_m := None, ul_owns := False\<rparr>)"

definition unique_lock_lock :: "unique_lock \<Rightarrow> mutexes \<Rightarrow> (unique_lock \<times> mutexes) outcome" where
  "unique_lock_lock l h =
     (case ul_m l of
        None \<Rightarrow> Null_deref
      | Some a \<Rightarrow>
          (case mutex_lock a h of
             Returns h \<Rightarrow> Returns (l\<lparr>ul_owns := True\<rparr>, h)
           | Blocks \<Rightarrow> Blocks | Null_deref \<Rightarrow> Null_deref))"

definition unique_lock_unlock :: "unique_lock \<Rightarrow> mutexes \<Rightarrow> (unique_lock \<times> mutexes) outcome" where
  "unique_lock_unlock l h =
     (case ul_m l of
        None \<Rightarrow> Null_deref
      | Some a \<Rightarrow> Returns (l\<lparr>ul_owns := False\<rparr>, mutex_unlock a h))"

definition unique_lock_mutex :: "unique_lock \<Rightarrow> mutex_addr option" where
  "unique_lock_mutex l = ul_m l"

definition owns_lock :: "unique_lock \<Rightarrow> bool" where
  "owns_lock l = ul_owns l"

section \<open>class condition_variable\<close>

definition condition_variable_ctor :: "pthread_cond_t \<Rightarrow> pthread_cond_t" where
  "condition_variable_ctor c = pthread_cond_init c"

definition condition_variable_dtor :: "pthread_cond_t \<Rightarrow> pthread_cond_t outcome" where
  "condition_variable_dtor c =
     (case pthread_cond_destroy c of Some (ret, c) \<Rightarrow> Returns c | None \<Rightarrow> Blocks)"

text \<open>
  The plain wait. \<^verbatim>\<open>pthread_cond_wait\<close> is entered, gives up the mutex, waits, is left and takes the
  mutex again; \<open>waits\<close> is what happens to the condition variable and the mutexes while it waits, by
  the other threads and by its own waiting loop (\<open>Cond_Conc\<close> has that step by step).
\<close>

definition condition_variable_wait ::
  "(u64 \<Rightarrow> u32 \<Rightarrow> pthread_cond_t \<times> mutexes \<Rightarrow> pthread_cond_t \<times> mutexes) \<Rightarrow> unique_lock \<Rightarrow>
   pthread_cond_t \<Rightarrow> mutexes \<Rightarrow> (pthread_cond_t \<times> mutexes) outcome"
where
  "condition_variable_wait waits l c h =
     (case unique_lock_mutex l of
        None \<Rightarrow> Null_deref
      | Some m \<Rightarrow>
          (let a = native_handle m; (seq, g, c) = wait_enter c;
               (c, h) = waits seq g (c, mutex_unlock a h);
               (wake, c) = wait_leave c
           in case mutex_lock a h of
                Returns h \<Rightarrow> Returns (c, h) | Blocks \<Rightarrow> Blocks | Null_deref \<Rightarrow> Null_deref))"

definition notify_one :: "pthread_cond_t \<Rightarrow> (wake list \<times> pthread_cond_t) option" where
  "notify_one c = pthread_cond_signal c"

definition notify_all :: "pthread_cond_t \<Rightarrow> (wake list \<times> pthread_cond_t) option" where
  "notify_all c = pthread_cond_broadcast c"

text \<open>
  The predicate form of wait. Each entry of the list says what the state is when one call of the
  plain wait returns, whoever changed it in the meantime; the result is the state in which the loop
  ends and the number of plain waits, None when it still waits after the last entry.
\<close>

fun wait_until :: "('s \<Rightarrow> bool) \<Rightarrow> ('s \<Rightarrow> 's) list \<Rightarrow> 's \<Rightarrow> ('s \<times> nat) option" where
  "wait_until pred [] s = (if pred s then Some (s, 0) else None)"
| "wait_until pred (e # es) s =
     (if pred s then Some (s, 0)
      else map_option (\<lambda>(s', n). (s', Suc n)) (wait_until pred es (e s)))"

section \<open>Properties\<close>

lemma lock_unlock_word:
  assumes "State w = three_states_unlocked"
  shows "(w OR three_states_locked_no_waiter) AND NOT three_states_mask = w"
proof -
  have "ClearState (w OR three_states_locked_no_waiter) = w"
    using assms by (subst word_fields_eq_iff) simp
  then show ?thesis by (simp add: ClearState_def)
qed

lemma mutex_lock_free:
  assumes "State (m_lock (h a)) = three_states_unlocked"
  shows "\<exists>h1. mutex_lock a h = Returns h1 \<and> h1 a = (h a)\<lparr>m_lock := m_lock (h a) OR three_states_locked_no_waiter\<rparr> \<and>
    State (m_lock (h1 a)) = three_states_locked_no_waiter \<and> mutex_unlock a h1 = h"
  using assms by (simp add: mutex_lock_def mutex_unlock_def atomic_defs lock_unlock_word)

text \<open>C32: the scope idiom does not unlock. The constructor of \<^verbatim>\<open>unique_lock\<close> takes the mutex but
  leaves \<^verbatim>\<open>owns_\<close> false, so the destructor changes nothing: the mutex stays locked after the scope,
  and the next constructor on it blocks.\<close>

theorem unique_lock_scope_leaves_mutex_locked:
  assumes "State (m_lock (h a)) = three_states_unlocked"
  shows "\<exists>l h1. unique_lock_ctor a h = Returns (l, h1) \<and> \<not> ul_owns l \<and>
    State (m_lock (h1 a)) = three_states_locked_no_waiter \<and>
    unique_lock_dtor l h1 = Returns h1 \<and> unique_lock_ctor a h1 = Blocks"
proof -
  let ?l = "\<lparr>ul_m = Some a, ul_owns = False\<rparr>"
  obtain h1 where h1: "mutex_lock a h = Returns h1" "State (m_lock (h1 a)) = three_states_locked_no_waiter"
    using mutex_lock_free [of h a] assms by blast
  then have "mutex_lock a h1 = Blocks" by (simp add: mutex_lock_def)
  with h1 show ?thesis
    by (intro exI [of _ ?l] exI [of _ h1]) (simp add: unique_lock_ctor_def unique_lock_dtor_def)
qed

definition free_mutexes :: mutexes where
  "free_mutexes = (\<lambda>_. \<lparr>m_lock = 0\<rparr>)"

lemma free_mutex: "State (m_lock (free_mutexes a)) = three_states_unlocked"
  by (simp add: free_mutexes_def State_def three_states_defs)

theorem unique_lock_scope_leaves_mutex_locked_witness:
  "\<exists>l h1. unique_lock_ctor 0 free_mutexes = Returns (l, h1) \<and> unique_lock_dtor l h1 = Returns h1 \<and>
     unique_lock_ctor 0 h1 = Blocks"
  using unique_lock_scope_leaves_mutex_locked [of free_mutexes 0] free_mutex [of 0] by blast

text \<open>
  A wait in such a scope does not change that: it gives the mutex up, takes it again and leaves the
  lock object as it is, so that the mutex stays locked after the scope and the next one blocks.
\<close>

lemma wait_in_scope_leaves_mutex_locked:
  assumes "State (m_lock (h a)) = three_states_unlocked"
    and "\<And>seq g c h. State (m_lock (snd (waits seq g (c, h)) a)) = State (m_lock (h a))"
  shows "\<exists>l h1 c2 h2. unique_lock_ctor a h = Returns (l, h1) \<and>
    condition_variable_wait waits l c h1 = Returns (c2, h2) \<and>
    State (m_lock (h2 a)) = three_states_locked_no_waiter \<and>
    unique_lock_dtor l h2 = Returns h2 \<and> unique_lock_ctor a h2 = Blocks"
proof -
  let ?l = "\<lparr>ul_m = Some a, ul_owns = False\<rparr>"
  obtain h1 where h1: "mutex_lock a h = Returns h1" "mutex_unlock a h1 = h"
    using mutex_lock_free [of h a] assms(1) by blast
  obtain seq g c1 where enter: "wait_enter c = (seq, g, c1)" by (cases "wait_enter c")
  obtain c' h' where waits: "waits seq g (c1, h) = (c', h')" by (cases "waits seq g (c1, h)")
  obtain w c2 where leave: "wait_leave c' = (w, c2)" by (cases "wait_leave c'")
  from assms(2) [of seq g c1 h] waits assms(1) have "State (m_lock (h' a)) = three_states_unlocked"
    by simp
  then obtain h2 where h2: "mutex_lock a h' = Returns h2" "State (m_lock (h2 a)) = three_states_locked_no_waiter"
    using mutex_lock_free [of h' a] by blast
  then have "mutex_lock a h2 = Blocks" by (simp add: mutex_lock_def)
  with h1 h2 enter waits leave show ?thesis
    by (intro exI [of _ ?l] exI [of _ h1] exI [of _ c2] exI [of _ h2])
       (simp add: unique_lock_ctor_def unique_lock_dtor_def condition_variable_wait_def
          unique_lock_mutex_def native_handle_def)
qed

text \<open>A wait with a lock that has been moved from dereferences null; a fresh condition variable is
  destroyed without waiting.\<close>

lemma condition_variable_wait_moved_from:
  "condition_variable_wait waits (snd (unique_lock_move l)) c h = Null_deref \<and>
   \<not> owns_lock (snd (unique_lock_move l))"
  by (simp add: condition_variable_wait_def unique_lock_move_def unique_lock_mutex_def owns_lock_def)

lemma condition_variable_fresh_destroyed:
  "condition_variable_dtor (condition_variable_ctor c) =
     Returns ((condition_variable_ctor c)\<lparr>wrefs := DestroyingBit\<rparr>)"
  by (simp add: condition_variable_dtor_def condition_variable_ctor_def pthread_cond_destroy_def
      pthread_cond_init_def atomic_defs WaitersRef_def DestroyingBit_def)

text \<open>With the explicit member functions the lock does what it should. After
  the constructor and \<^verbatim>\<open>unlock\<close> the mutex is free again; \<^verbatim>\<open>lock\<close> then records the ownership, a move
  hands it on, the destructor of the object moved from does nothing and that of the new object gives
  every mutex back as it was; and calling lock or unlock on the object moved from is a null
  dereference.\<close>

theorem unique_lock_explicit_roundtrip:
  assumes "State (m_lock (h a)) = three_states_unlocked"
  shows "\<exists>l0 h0 l1 l2 h2. unique_lock_ctor a h = Returns (l0, h0) \<and>
    unique_lock_unlock l0 h0 = Returns (l1, h) \<and> unique_lock_lock l1 h = Returns (l2, h2) \<and>
    ul_owns l2 \<and> State (m_lock (h2 a)) = three_states_locked_no_waiter \<and>
    (let (new, old) = unique_lock_move l2 in
       unique_lock_dtor old h2 = Returns h2 \<and> unique_lock_dtor new h2 = Returns h \<and>
       unique_lock_lock old h2 = Null_deref \<and> unique_lock_unlock old h2 = Null_deref)"
proof -
  let ?l = "\<lambda>b. \<lparr>ul_m = Some a, ul_owns = b\<rparr>"
  obtain h1 where "mutex_lock a h = Returns h1" "mutex_unlock a h1 = h"
    "State (m_lock (h1 a)) = three_states_locked_no_waiter"
    using mutex_lock_free [of h a] assms by blast
  then show ?thesis
    by (intro exI [of _ "?l False"] exI [of _ h1] exI [of _ "?l True"] conjI)
       (simp_all add: unique_lock_ctor_def unique_lock_unlock_def unique_lock_lock_def
          unique_lock_dtor_def unique_lock_move_def)
qed

theorem unique_lock_explicit_roundtrip_witness:
  "\<exists>l0 h0 l1. unique_lock_ctor 0 free_mutexes = Returns (l0, h0) \<and>
     unique_lock_unlock l0 h0 = Returns (l1, free_mutexes)"
  using unique_lock_explicit_roundtrip [of free_mutexes 0] free_mutex [of 0] by blast

text \<open>The predicate form of \<^verbatim>\<open>condition_variable::wait\<close>. It returns in the first state in which the
  predicate holds, whatever the plain waits return for (a signal, a stolen signal or nothing at
  all), after exactly as many plain waits; it calls none when the predicate holds at once, and it
  still waits only when the predicate has failed in every state so far.\<close>

theorem wait_until_correct:
  "case wait_until pred es s of
     Some (s', n) \<Rightarrow> n \<le> length es \<and> s' = fold (\<lambda>e. e) (take n es) s \<and> pred s' \<and>
       (\<forall>k. \<not> (k < n \<and> pred (fold (\<lambda>e. e) (take k es) s)))
   | None \<Rightarrow> (\<forall>k. \<not> pred (fold (\<lambda>e. e) (take k es) s))"
proof (induction es arbitrary: s)
  case Nil
  then show ?case by simp
next
  case (Cons e es)
  have take: "fold (\<lambda>e. e) (take k (e # es)) s =
      (case k of 0 \<Rightarrow> s | Suc j \<Rightarrow> fold (\<lambda>e. e) (take j es) (e s))" for k
    by (cases k) simp_all
  show ?case
  proof (cases "pred s")
    case True
    then show ?thesis by simp
  next
    case False
    with Cons.IH [of "e s"] show ?thesis
      unfolding take by (auto split: option.splits nat.splits)
  qed
qed

end
