(* ===== verification/Worker.thy ===== *)
theory Worker
  imports Prelude "HOL-Library.Multiset"
begin

text \<open>
  \<^verbatim>\<open>coroutine/worker.hpp\<close>: a pool of threads that take tasks from one queue. The standard library
  is modelled by what the code relies on: a mutex makes a critical section one step, and
  \<^verbatim>\<open>cv_.wait\<close> with a stop token is a step that is possible once its predicate holds.
\<close>

section \<open>State\<close>

text \<open>Where a thread of the pool is in \<^verbatim>\<open>run\<close>: at the loop condition, in the wait, in a task, or out.\<close>

datatype 'a run_pc = At_loop | At_wait | In_task 'a | Exited

record 'a pool_thread =
  stop_requested :: bool
  run_pc :: "'a run_pc"

text \<open>
  The members of \<^verbatim>\<open>Worker\<close>, and the history: the tasks submitted, begun and finished, in order.
\<close>

record 'a pool =
  thread_count :: nat
  threads :: "'a pool_thread list"
  tasks :: "'a list"
  submitted :: "'a list"
  begun :: "'a list"
  finished :: "'a list"

definition make_pool :: "nat \<Rightarrow> 'a pool" where
  "make_pool n = \<lparr>thread_count = max 1 n, threads = [], tasks = [], submitted = [], begun = [], finished = []\<rparr>"

definition with_hardware_parallelism :: "nat \<Rightarrow> 'a pool" where
  "with_hardware_parallelism hw = make_pool (if hw = 0 then 1 else hw)"

section \<open>Operations\<close>

definition start :: "'a pool \<Rightarrow> 'a pool" where
  "start w = w\<lparr>threads := threads w @ replicate (thread_count w) \<lparr>stop_requested = False, run_pc = At_loop\<rparr>\<rparr>"

definition submit :: "'a \<Rightarrow> 'a pool \<Rightarrow> 'a pool" where
  "submit fn w = w\<lparr>tasks := tasks w @ [fn], submitted := submitted w @ [fn]\<rparr>"

definition stop :: "'a pool \<Rightarrow> 'a pool" where
  "stop w = w\<lparr>threads := map (\<lambda>t. t\<lparr>stop_requested := True\<rparr>) (threads w)\<rparr>"

text \<open>\<^verbatim>\<open>join\<close> returns once every thread is out, None says that it still waits.\<close>

definition join :: "'a pool \<Rightarrow> 'a pool option" where
  "join w = (if \<forall>t \<in> set (threads w). run_pc t = Exited then Some (w\<lparr>threads := []\<rparr>) else None)"

text \<open>The next step of thread \<open>i\<close>; a task is over in one step.\<close>

definition set_pc :: "nat \<Rightarrow> 'a run_pc \<Rightarrow> 'a pool \<Rightarrow> 'a pool" where
  "set_pc i p w = w\<lparr>threads := (threads w)[i := (threads w ! i)\<lparr>run_pc := p\<rparr>]\<rparr>"

definition run_step :: "nat \<Rightarrow> 'a pool \<Rightarrow> 'a pool option" where
  "run_step i w =
     (if i < length (threads w)
      then let t = threads w ! i in
        case run_pc t of
          At_loop \<Rightarrow> Some (set_pc i (if stop_requested t then Exited else At_wait) w)
        | At_wait \<Rightarrow>
            (if stop_requested t then Some (set_pc i Exited w)
             else case tasks w of
                    [] \<Rightarrow> None
                  | fn # rest \<Rightarrow> Some (set_pc i (In_task fn) (w\<lparr>tasks := rest, begun := begun w @ [fn]\<rparr>)))
        | In_task fn \<Rightarrow> Some (set_pc i At_loop (w\<lparr>finished := finished w @ [fn]\<rparr>))
        | Exited \<Rightarrow> None
      else None)"

datatype 'a pool_action = Start | Submit 'a | Stop | Join | Run nat

fun pool_act :: "'a pool_action \<Rightarrow> 'a pool \<Rightarrow> 'a pool option" where
  "pool_act Start w = Some (start w)"
| "pool_act (Submit fn) w = Some (submit fn w)"
| "pool_act Stop w = Some (stop w)"
| "pool_act Join w = join w"
| "pool_act (Run i) w = run_step i w"

definition pool_init :: "'a pool \<Rightarrow> bool" where
  "pool_init w \<longleftrightarrow> (\<exists>n. w = make_pool n)"

section \<open>The invariant\<close>

fun current :: "'a run_pc \<Rightarrow> 'a list" where
  "current (In_task fn) = [fn]"
| "current _ = []"

definition running :: "'a pool \<Rightarrow> 'a list" where
  "running w = concat (map (\<lambda>t. current (run_pc t)) (threads w))"

definition pool_inv :: "'a pool \<Rightarrow> bool" where
  "pool_inv w \<longleftrightarrow> submitted w = begun w @ tasks w \<and>
     mset (begun w) = mset (finished w) + mset (running w)"

lemma running_set_pc:
  assumes "i < length (threads w)"
  shows "mset (running (set_pc i p w)) + mset (current (run_pc (threads w ! i))) =
    mset (running w) + mset (current p)"
proof -
  let ?f = "\<lambda>t. current (run_pc t)"
  have "threads w = take i (threads w) @ threads w ! i # drop (Suc i) (threads w)"
    using assms by (rule id_take_nth_drop)
  then have "running w = concat (map ?f (take i (threads w))) @ ?f (threads w ! i) @
      concat (map ?f (drop (Suc i) (threads w)))"
    unfolding running_def by (metis concat.simps(2) concat_append list.simps(9) map_append)
  moreover have "running (set_pc i p w) = concat (map ?f (take i (threads w))) @ current p @
      concat (map ?f (drop (Suc i) (threads w)))"
    using assms by (simp add: running_def set_pc_def upd_conv_take_nth_drop)
  ultimately show ?thesis by simp
qed

lemma running_simps [simp]:
  "running (w\<lparr>tasks := a\<rparr>) = running w" "running (w\<lparr>begun := b\<rparr>) = running w"
  "running (w\<lparr>finished := c\<rparr>) = running w" "running (w\<lparr>submitted := d\<rparr>) = running w"
  by (simp_all add: running_def)

lemma set_pc_simps [simp]:
  "tasks (set_pc i p w) = tasks w" "begun (set_pc i p w) = begun w"
  "finished (set_pc i p w) = finished w" "submitted (set_pc i p w) = submitted w"
  by (simp_all add: set_pc_def)

lemma run_step_inv:
  assumes "pool_inv w" and "run_step i w = Some w'"
  shows "pool_inv w'"
proof -
  have i: "i < length (threads w)" using assms(2) by (simp add: run_step_def split: if_splits)
  note r = running_set_pc [of i]
  show ?thesis
  proof (cases "run_pc (threads w ! i)")
    case At_loop
    with assms r [OF i] show ?thesis by (auto simp: run_step_def pool_inv_def Let_def i)
  next
    case At_wait
    show ?thesis
    proof (cases "stop_requested (threads w ! i)")
      case True
      with At_wait assms r [OF i] show ?thesis by (auto simp: run_step_def pool_inv_def Let_def i)
    next
      case False
      with At_wait assms(2) i obtain fn rest where "tasks w = fn # rest"
        "w' = set_pc i (In_task fn) (w\<lparr>tasks := rest, begun := begun w @ [fn]\<rparr>)"
        by (auto simp: run_step_def Let_def split: list.splits)
      with assms(1) At_wait i r [of "w\<lparr>tasks := rest, begun := begun w @ [fn]\<rparr>" "In_task fn"]
      show ?thesis by (simp add: pool_inv_def)
    qed
  next
    case (In_task fn)
    with assms i r [of "w\<lparr>finished := finished w @ [fn]\<rparr>" At_loop]
    show ?thesis by (auto simp: run_step_def pool_inv_def Let_def)
  qed (use assms i in \<open>simp add: run_step_def Let_def\<close>)
qed

lemma pool_act_inv:
  assumes inv: "pool_inv w" and act: "pool_act c w = Some w'"
  shows "pool_inv w'"
proof (cases c)
  case Start
  with inv act show ?thesis by (auto simp: pool_inv_def start_def running_def)
next
  case (Submit fn)
  with inv act show ?thesis by (auto simp: pool_inv_def submit_def)
next
  case Stop
  with inv act show ?thesis by (auto simp: pool_inv_def stop_def running_def comp_def)
next
  case Join
  have "concat (map (\<lambda>t. current (run_pc t)) ts) = []" if "\<forall>t \<in> set ts. run_pc t = Exited"
    for ts :: "'a pool_thread list"
    using that by (induction ts) auto
  with Join inv act show ?thesis by (auto simp: pool_inv_def join_def running_def split: if_splits)
next
  case (Run i)
  with inv act run_step_inv show ?thesis by simp
qed

interpretation pool: safe_system pool_act pool_init pool_inv
proof unfold_locales
  show "pool_init w \<Longrightarrow> pool_inv w" for w :: "'a pool"
    by (auto simp: pool_init_def pool_inv_def make_pool_def running_def)
qed (rule pool_act_inv)

section \<open>Properties\<close>

text \<open>C23: the pool neither loses, repeats nor reorders tasks. In every reachable state, however the
  threads of the pool, the clients and start, stop and join interleave, the tasks begun so far
  followed by those still queued are the tasks submitted, in the order of submission; and each
  task begun is either finished or being run by exactly one thread.\<close>

theorem pool_runs_tasks_in_order:
  assumes "reachable pool_act pool_init w"
  shows "submitted w = begun w @ tasks w \<and> mset (begun w) = mset (finished w) + mset (running w)"
  using pool.reachable_inv [OF assms] by (simp add: pool_inv_def)

definition pool_example :: "nat pool" where
  "pool_example = the (run_sched pool_act
     [Start, Submit 10, Submit 20, Submit 30, Run 0, Run 1, Run 1, Run 0, Run 0] (make_pool 2))"

lemma pool_example_run:
  "run_sched pool_act [Start, Submit 10, Submit 20, Submit 30, Run 0, Run 1, Run 1, Run 0, Run 0]
     (make_pool 2) = Some pool_example"
  "begun pool_example = [10, 20] \<and> tasks pool_example = [30] \<and> finished pool_example = [20] \<and>
   map run_pc (threads pool_example) = [At_loop, In_task 10] \<and>
   map stop_requested (threads pool_example) = [False, False]"
proof -
  have "case run_sched pool_act [Start, Submit (10::nat), Submit 20, Submit 30, Run 0, Run 1, Run 1, Run 0, Run 0]
     (make_pool 2) of None \<Rightarrow> False | Some w \<Rightarrow>
       begun w = [10, 20] \<and> tasks w = [30] \<and> finished w = [20] \<and>
       map run_pc (threads w) = [At_loop, In_task 10] \<and>
       map stop_requested (threads w) = [False, False]"
    by code_simp
  then show "run_sched pool_act [Start, Submit 10, Submit 20, Submit 30, Run 0, Run 1, Run 1, Run 0, Run 0]
     (make_pool 2) = Some pool_example"
   "begun pool_example = [10, 20] \<and> tasks pool_example = [30] \<and> finished pool_example = [20] \<and>
   map run_pc (threads pool_example) = [At_loop, In_task 10] \<and>
   map stop_requested (threads pool_example) = [False, False]"
    by (auto simp: pool_example_def simp del: run_sched.simps split: option.splits)
qed

lemma pool_example_reachable: "reachable pool_act pool_init pool_example"
proof (rule run_sched_from_init [where init = pool_init, OF _ pool_example_run(1)])
  show "pool_init (make_pool 2)" by (auto simp: pool_init_def)
qed

theorem pool_runs_tasks_in_order_witness:
  "reachable pool_act pool_init pool_example \<and> submitted pool_example = [10, 20, 30]"
  using pool_runs_tasks_in_order [OF pool_example_reachable] pool_example_run(2)
    pool_example_reachable by simp

text \<open>Once all threads are asked to stop, none takes a task.\<close>

definition stopping :: "'a pool \<Rightarrow> bool" where
  "stopping w \<longleftrightarrow> (\<forall>t \<in> set (threads w). stop_requested t)"

fun no_start :: "'a pool_action \<Rightarrow> bool" where
  "no_start Start \<longleftrightarrow> False"
| "no_start _ \<longleftrightarrow> True"

lemma stopping_set_pc:
  assumes "stopping w" and "i < length (threads w)"
  shows "stopping (set_pc i p w)"
proof -
  let ?t = "(threads w ! i)\<lparr>run_pc := p\<rparr>"
  have "threads w ! i \<in> set (threads w)" using assms(2) by (rule nth_mem)
  with assms(1) have "stop_requested ?t" by (simp add: stopping_def)
  moreover have "set ((threads w)[i := ?t]) \<subseteq> insert ?t (set (threads w))"
    by (rule set_update_subset_insert)
  ultimately have "\<forall>t \<in> set ((threads w)[i := ?t]). stop_requested t"
    using assms(1) unfolding stopping_def by blast
  then show ?thesis by (simp add: stopping_def set_pc_def)
qed

text \<open>Then a thread of the pool finishes its task, if it has one, and leaves.\<close>

lemma stopping_run_step:
  assumes "stopping w" and "run_step i w = Some w'"
  shows "i < length (threads w) \<and> (\<exists>p. threads w' = threads (set_pc i p w) \<and>
      (run_pc (threads w ! i) = At_loop \<and> p = Exited \<or> run_pc (threads w ! i) = At_wait \<and> p = Exited \<or>
       (\<exists>fn. run_pc (threads w ! i) = In_task fn) \<and> p = At_loop)) \<and>
    begun w' = begun w \<and> tasks w' = tasks w"
proof -
  have i: "i < length (threads w)" using assms(2) by (simp add: run_step_def split: if_splits)
  then have stop: "stop_requested (threads w ! i)" using assms(1) by (simp add: stopping_def)
  show ?thesis
  proof (cases "run_pc (threads w ! i)")
    case At_loop
    with assms(2) i stop have "w' = set_pc i Exited w" by (simp add: run_step_def)
    with i At_loop show ?thesis by (intro conjI exI [of _ Exited]) simp_all
  next
    case At_wait
    with assms(2) i stop have "w' = set_pc i Exited w" by (simp add: run_step_def)
    with i At_wait show ?thesis by (intro conjI exI [of _ Exited]) simp_all
  next
    case (In_task fn)
    with assms(2) i have "w' = set_pc i At_loop (w\<lparr>finished := finished w @ [fn]\<rparr>)"
      by (simp add: run_step_def)
    with i In_task show ?thesis by (intro conjI exI [of _ At_loop]) (simp_all add: set_pc_def)
  next
    case Exited
    with assms(2) i show ?thesis by (simp add: run_step_def)
  qed
qed

lemma stopping_step:
  assumes st: "stopping w" and act: "pool_act c w = Some w'" and "no_start c"
  shows "stopping w' \<and> begun w' = begun w"
proof (cases c)
  case (Submit fn)
  with st act show ?thesis by (auto simp: stopping_def submit_def)
next
  case Stop
  with st act show ?thesis by (auto simp: stopping_def stop_def)
next
  case Join
  with st act show ?thesis by (auto simp: stopping_def join_def split: if_splits)
next
  case (Run i)
  with act have "run_step i w = Some w'" by simp
  from stopping_run_step [OF st this] obtain p where
    "i < length (threads w)" "threads w' = threads (set_pc i p w)" "begun w' = begun w" by blast
  with stopping_set_pc [OF st] show ?thesis by (simp add: stopping_def)
qed (use assms(3) in simp)

lemma stop_stopping: "stopping (stop w)"
  by (auto simp: stopping_def stop_def)

lemma stopping_run:
  "stopping w \<Longrightarrow> list_all no_start cs \<Longrightarrow> run_sched pool_act cs w = Some w' \<Longrightarrow> begun w' = begun w"
proof (induction cs arbitrary: w)
  case (Cons c cs)
  from Cons.prems(3) obtain v where v: "pool_act c w = Some v" "run_sched pool_act cs v = Some w'"
    by (auto split: option.splits)
  have c: "no_start c" "list_all no_start cs" using Cons.prems(2) by simp_all
  from stopping_step [OF Cons.prems(1) v(1) c(1)] Cons.IH [OF _ c(2) v(2)] show ?case by simp
qed simp

text \<open>How many steps the threads still have to make before they are out.\<close>

fun steps_left :: "'a run_pc \<Rightarrow> nat" where
  "steps_left (In_task fn) = 2"
| "steps_left Exited = 0"
| "steps_left _ = 1"

definition stop_rank :: "'a pool \<Rightarrow> nat" where
  "stop_rank w = sum_list (map (\<lambda>t. steps_left (run_pc t)) (threads w))"

lemma stop_rank_set_pc:
  assumes "i < length (threads w)"
  shows "stop_rank (set_pc i p w) + steps_left (run_pc (threads w ! i)) = stop_rank w + steps_left p"
proof -
  let ?xs = "map (\<lambda>t. steps_left (run_pc t)) (threads w)"
  have upd: "map (\<lambda>t. steps_left (run_pc t)) ((threads w)[i := (threads w ! i)\<lparr>run_pc := p\<rparr>]) =
      ?xs[i := steps_left p]" by (simp add: map_update)
  have "?xs ! i \<le> sum_list ?xs" using assms by (intro elem_le_sum_list) simp
  moreover have "sum_list (?xs[i := steps_left p]) = sum_list ?xs + steps_left p - ?xs ! i"
    using assms by (intro sum_list_update) simp
  ultimately show ?thesis using assms by (simp add: stop_rank_def set_pc_def upd)
qed

text \<open>C24: \<^verbatim>\<open>stop\<close>. After it no thread takes a further task, whatever is submitted; the tasks
  queued at that moment are neither run nor removed, although the comment on \<^verbatim>\<open>stop\<close> says that
  they are discarded; and the pool shuts down: until \<^verbatim>\<open>join\<close> can return some thread has a step
  to make, and every step of a thread brings the shutdown nearer.\<close>

theorem pool_stop_shuts_down:
  assumes "list_all no_start cs" and "run_sched pool_act cs (stop w) = Some w'"
  shows "tasks (stop w) = tasks w \<and> begun w' = begun w \<and>
    (if \<forall>t \<in> set (threads w'). run_pc t = Exited then join w' = Some (w'\<lparr>threads := []\<rparr>)
     else \<exists>i v. run_step i w' = Some v) \<and>
    (\<forall>i v. run_step i w' = Some v \<longrightarrow> stop_rank v < stop_rank w' \<and> tasks v = tasks w')"
proof -
  have "begun w' = begun w \<and> stopping w'"
    using assms stop_stopping [of w]
  proof (induction cs arbitrary: w' rule: rev_induct)
    case Nil
    then have "w' = stop w" by simp
    with stop_stopping [of w] show ?case by (simp add: stop_def)
  next
    case (snoc c cs)
    then obtain v where v: "run_sched pool_act cs (stop w) = Some v" "pool_act c v = Some w'"
      by (auto simp: run_sched_append split: option.splits)
    with snoc have "begun v = begun w \<and> stopping v" by simp
    with stopping_step [of v c w'] v snoc.prems show ?case by simp
  qed
  then have begun: "begun w' = begun w" and st: "stopping w'" by simp_all
  have progress: "\<exists>i v. run_step i w' = Some v" if not: "\<not> (\<forall>t \<in> set (threads w'). run_pc t = Exited)"
  proof -
    from not obtain t where "t \<in> set (threads w')" and t: "run_pc t \<noteq> Exited" by blast
    then obtain i where i: "i < length (threads w')" "threads w' ! i = t"
      by (auto simp: in_set_conv_nth)
    with st have "stop_requested (threads w' ! i)" unfolding stopping_def by (metis nth_mem)
    with i t have "\<exists>v. run_step i w' = Some v" by (cases "run_pc t") (auto simp: run_step_def)
    then show ?thesis ..
  qed
  moreover have "stop_rank v < stop_rank w' \<and> tasks v = tasks w'" if step: "run_step i w' = Some v" for i v
  proof -
    from stopping_run_step [OF st step] obtain p where i: "i < length (threads w')"
      and v: "threads v = threads (set_pc i p w')" "tasks v = tasks w'"
      and p: "steps_left p < steps_left (run_pc (threads w' ! i))" by fastforce
    with stop_rank_set_pc [OF i, of p] show ?thesis by (simp add: stop_rank_def)
  qed
  moreover have "tasks (stop w) = tasks w" by (simp add: stop_def)
  ultimately show ?thesis using begun by (simp add: join_def)
qed

theorem pool_stop_shuts_down_witness:
  "\<exists>w'. run_sched pool_act [Run 1, Submit 40, Run 0] (stop pool_example) = Some w' \<and>
     begun w' = [10, 20]"
proof -
  have "case run_sched pool_act [Run 1, Submit 40, Run 0] (stop pool_example) of None \<Rightarrow> False | Some _ \<Rightarrow> True"
    using pool_example_run(2)
    by (auto simp: stop_def run_step_def submit_def set_pc_def Let_def map_eq_Cons_conv)
  then obtain w' where w': "run_sched pool_act [Run 1, Submit 40, Run 0] (stop pool_example) = Some w'"
    by (auto simp del: run_sched.simps split: option.splits)
  have "list_all no_start [Run 1, Submit (40::nat), Run 0]" by simp
  from pool_stop_shuts_down [OF this w'] w' pool_example_run(2) show ?thesis by simp
qed

end
