(* ===== verification/Coro_Promise.thy ===== *)
theory Coro_Promise
  imports Prelude
begin

text \<open>
  The promise types of \<^verbatim>\<open>coroutine/coro.hpp\<close>, \<^verbatim>\<open>symmetric_resume.cpp\<close>, \<^verbatim>\<open>symmetric_trans.cpp\<close> and
  \<^verbatim>\<open>generator.cpp\<close>: what the compiler asks of them when a coroutine is made, when its body has
  returned and when an exception leaves it. Members that only log have no effect here.
\<close>

section \<open>Customisation points\<close>

text \<open>The awaiters that the promises answer with. All of them suspend: \<^verbatim>\<open>await_ready\<close> is false.\<close>

datatype awaiter = Suspend_always | Resume_awaiter | Ready_resume_awaiter | Symmetric_trans_final_awaiter

definition await_ready :: "awaiter \<Rightarrow> bool" where
  "await_ready a = False"

text \<open>How the member called at the end of a body goes on.\<close>

datatype body_end = To_final_suspend | Terminates

text \<open>A promise type by its members.\<close>

record promise_type =
  initial_suspend :: awaiter
  final_suspend :: awaiter
  return_void :: body_end
  unhandled_exception :: body_end

section \<open>The four promise types\<close>

definition task_promise :: promise_type where
  "task_promise = \<lparr>initial_suspend = Suspend_always, final_suspend = Suspend_always,
     return_void = To_final_suspend, unhandled_exception = Terminates\<rparr>"

text \<open>The flag says whether \<^verbatim>\<open>SYMMETRIC\<close> is defined.\<close>

definition sync_promise :: "bool \<Rightarrow> promise_type" where
  "sync_promise symmetric = \<lparr>initial_suspend = Suspend_always,
     final_suspend = (if symmetric then Ready_resume_awaiter else Resume_awaiter),
     return_void = To_final_suspend, unhandled_exception = Terminates\<rparr>"

definition sync_trans_promise :: promise_type where
  "sync_trans_promise = \<lparr>initial_suspend = Suspend_always, final_suspend = Symmetric_trans_final_awaiter,
     return_void = To_final_suspend, unhandled_exception = Terminates\<rparr>"

definition generator_promise :: promise_type where
  "generator_promise = \<lparr>initial_suspend = Suspend_always, final_suspend = Suspend_always,
     return_void = To_final_suspend, unhandled_exception = Terminates\<rparr>"

lemmas promise_defs = task_promise_def sync_promise_def sync_trans_promise_def generator_promise_def

section \<open>What the language makes of them\<close>

text \<open>Whether a new coroutine waits for its first resume, or runs into its body at once.\<close>

definition starts_suspended :: "promise_type \<Rightarrow> bool" where
  "starts_suspended p \<longleftrightarrow> \<not> await_ready (initial_suspend p)"

text \<open>The awaiter at which a body ends; None when the program ends instead.\<close>

definition finish_body :: "promise_type \<Rightarrow> bool \<Rightarrow> awaiter option" where
  "finish_body p throws =
     (case (if throws then unhandled_exception p else return_void p) of
        To_final_suspend \<Rightarrow> Some (final_suspend p)
      | Terminates \<Rightarrow> None)"

text \<open>
  The object that the caller of a coroutine gets holds the handle of its frame; the destructor of the
  object destroys the frame if there is one.
\<close>

definition get_return_object :: "nat \<Rightarrow> nat option" where
  "get_return_object frame = Some frame"

definition object_dtor :: "(nat \<Rightarrow> 's \<Rightarrow> 's) \<Rightarrow> nat option \<Rightarrow> 's \<Rightarrow> 's" where
  "object_dtor destroy obj s = (case obj of Some frame \<Rightarrow> destroy frame s | None \<Rightarrow> s)"

lemma object_dtor_returned [simp]: "object_dtor destroy (get_return_object frame) = destroy frame"
  by (simp add: object_dtor_def get_return_object_def fun_eq_iff)

text \<open>All of them start suspended, and all let an exception end the program.\<close>

lemma promises_start_suspended [simp]:
  "starts_suspended task_promise" "starts_suspended (sync_promise symmetric)"
  "starts_suspended sync_trans_promise" "starts_suspended generator_promise"
  by (simp_all add: starts_suspended_def await_ready_def)

lemma promises_finish [simp]:
  "finish_body task_promise throws = (if throws then None else Some Suspend_always)"
  "finish_body (sync_promise symmetric) throws =
     (if throws then None else Some (if symmetric then Ready_resume_awaiter else Resume_awaiter))"
  "finish_body sync_trans_promise throws = (if throws then None else Some Symmetric_trans_final_awaiter)"
  "finish_body generator_promise throws = (if throws then None else Some Suspend_always)"
  by (simp_all add: finish_body_def promise_defs)

end
