(* ===== verification/Generator.thy ===== *)
theory Generator
  imports Coro_Promise
begin

text \<open>
  \<^verbatim>\<open>coroutine/generator.cpp\<close>: one generator coroutine and the three threads of its program. Two
  consumers resume it under a mutex, \<^verbatim>\<open>main\<close> resumes it a last time after both are joined. To resume
  a coroutine that is running, finished or destroyed is undefined in C++; here it sets a flag.
\<close>

section \<open>The coroutine\<close>

text \<open>
  Where the coroutine is: suspended before its body, in the body (entered from the start or after a
  \<^verbatim>\<open>co_yield\<close>), suspended at \<^verbatim>\<open>co_yield\<close>, suspended at its end, or destroyed.
\<close>

datatype gen_point = Gen_initial | Gen_running bool | Gen_yield | Gen_final | Gen_destroyed

text \<open>The frame: the promise's \<^verbatim>\<open>val\<close> and the loop variable of the body.\<close>

record generator =
  gen_point :: gen_point
  gen_val :: u32
  gen_i :: u32

definition make_generator :: generator where
  "make_generator =
     \<lparr>gen_point = (if starts_suspended generator_promise then Gen_initial else Gen_running False), gen_val = 0, gen_i = 0\<rparr>"

text \<open>\<^verbatim>\<open>handle.resume()\<close>: the first step enters the body; None is undefined behaviour.\<close>

definition gen_resume :: "generator \<Rightarrow> generator option" where
  "gen_resume g =
     (case gen_point g of
        Gen_initial \<Rightarrow> Some (g\<lparr>gen_point := Gen_running False\<rparr>)
      | Gen_yield \<Rightarrow> Some (g\<lparr>gen_point := Gen_running True\<rparr>)
      | _ \<Rightarrow> None)"

definition yield_value :: "u32 \<Rightarrow> generator \<Rightarrow> generator" where
  "yield_value v g = g\<lparr>gen_val := v, gen_point := Gen_yield\<rparr>"

text \<open>The body from where it was entered to its next suspension.\<close>

definition gen_body :: "generator \<Rightarrow> generator" where
  "gen_body g =
     (case gen_point g of
        Gen_running again \<Rightarrow>
          (let i = (if again then gen_i g + 1 else 1); g = g\<lparr>gen_i := i\<rparr>
           in if i \<le>s 4 then yield_value (i * 10) g else g\<lparr>gen_point := Gen_final\<rparr>)
      | _ \<Rightarrow> g)"

definition gen_destroy :: "generator \<Rightarrow> generator option" where
  "gen_destroy g =
     (case gen_point g of
        Gen_running _ \<Rightarrow> None
      | Gen_destroyed \<Rightarrow> None
      | _ \<Rightarrow> Some (g\<lparr>gen_point := Gen_destroyed\<rparr>))"

section \<open>The program\<close>

text \<open>Where a consumer is in its loop; the number is the loop variable.\<close>

datatype consumer_pc = Cs_new | Cs_loop nat | Cs_lock nat | Cs_resume nat | Cs_body nat
  | Cs_lookup nat | Cs_unlock nat | Cs_done

datatype gen_main_pc = Gm_make | Gm_spawn2 | Gm_spawn3 | Gm_join2 | Gm_join3 | Gm_resume | Gm_body
  | Gm_destroy | Gm_done

datatype consumer = Thrd2 | Thrd3

text \<open>There are only these two, so that statements on all consumers can be evaluated.\<close>

instantiation consumer :: enum
begin

definition enum_consumer :: "consumer list" where
  "enum_consumer = [Thrd2, Thrd3]"

definition enum_all_consumer :: "(consumer \<Rightarrow> bool) \<Rightarrow> bool" where
  "enum_all_consumer P \<longleftrightarrow> P Thrd2 \<and> P Thrd3"

definition enum_ex_consumer :: "(consumer \<Rightarrow> bool) \<Rightarrow> bool" where
  "enum_ex_consumer P \<longleftrightarrow> P Thrd2 \<or> P Thrd3"

instance
proof
  show "(UNIV :: consumer set) = set enum_class.enum"
    by (auto simp: enum_consumer_def intro: consumer.exhaust)
  show "distinct (enum_class.enum :: consumer list)"
    by (simp add: enum_consumer_def)
  show "enum_class.enum_all P \<longleftrightarrow> Ball UNIV P" for P :: "consumer \<Rightarrow> bool"
    unfolding enum_all_consumer_def by (metis UNIV_I consumer.exhaust)
  show "enum_class.enum_ex P \<longleftrightarrow> Bex UNIV P" for P :: "consumer \<Rightarrow> bool"
    unfolding enum_ex_consumer_def by (metis UNIV_I consumer.exhaust)
qed

end

record gen_state =
  the_gen :: generator
  mtx_generator :: "consumer option"
  consumers :: "consumer \<Rightarrow> consumer_pc"
  gen_main :: gen_main_pc
  lookups :: "u32 list"
  gen_ub :: bool

definition use_gen :: "generator option \<Rightarrow> gen_state \<Rightarrow> gen_state" where
  "use_gen r s = (case r of None \<Rightarrow> s\<lparr>gen_ub := True\<rparr> | Some g \<Rightarrow> s\<lparr>the_gen := g\<rparr>)"

definition consumer_goto :: "consumer \<Rightarrow> consumer_pc \<Rightarrow> gen_state \<Rightarrow> gen_state" where
  "consumer_goto t p s = s\<lparr>consumers := (consumers s)(t := p)\<rparr>"

definition consumer_step :: "consumer \<Rightarrow> gen_state \<Rightarrow> gen_state option" where
  "consumer_step t s =
     (case consumers s t of
        Cs_new \<Rightarrow> None
      | Cs_loop i \<Rightarrow> Some (consumer_goto t (if i < 2 then Cs_lock i else Cs_done) s)
      | Cs_lock i \<Rightarrow>
          (if mtx_generator s = None then Some (consumer_goto t (Cs_resume i) (s\<lparr>mtx_generator := Some t\<rparr>)) else None)
      | Cs_resume i \<Rightarrow> Some (consumer_goto t (Cs_body i) (use_gen (gen_resume (the_gen s)) s))
      | Cs_body i \<Rightarrow> Some (consumer_goto t (Cs_lookup i) (s\<lparr>the_gen := gen_body (the_gen s)\<rparr>))
      | Cs_lookup i \<Rightarrow> Some (consumer_goto t (Cs_unlock i) (s\<lparr>lookups := lookups s @ [gen_val (the_gen s)]\<rparr>))
      | Cs_unlock i \<Rightarrow> Some (consumer_goto t (Cs_loop (i + 1)) (s\<lparr>mtx_generator := None\<rparr>))
      | Cs_done \<Rightarrow> None)"

definition main_step :: "gen_state \<Rightarrow> gen_state option" where
  "main_step s =
     (case gen_main s of
        Gm_make \<Rightarrow> Some (s\<lparr>the_gen := make_generator, gen_main := Gm_spawn2\<rparr>)
      | Gm_spawn2 \<Rightarrow> Some (consumer_goto Thrd2 (Cs_loop 0) (s\<lparr>gen_main := Gm_spawn3\<rparr>))
      | Gm_spawn3 \<Rightarrow> Some (consumer_goto Thrd3 (Cs_loop 0) (s\<lparr>gen_main := Gm_join2\<rparr>))
      | Gm_join2 \<Rightarrow> (if consumers s Thrd2 = Cs_done then Some (s\<lparr>gen_main := Gm_join3\<rparr>) else None)
      | Gm_join3 \<Rightarrow> (if consumers s Thrd3 = Cs_done then Some (s\<lparr>gen_main := Gm_resume\<rparr>) else None)
      | Gm_resume \<Rightarrow> Some (use_gen (gen_resume (the_gen s)) (s\<lparr>gen_main := Gm_body\<rparr>))
      | Gm_body \<Rightarrow> Some (s\<lparr>the_gen := gen_body (the_gen s), gen_main := Gm_destroy\<rparr>)
      | Gm_destroy \<Rightarrow> Some (use_gen (gen_destroy (the_gen s)) (s\<lparr>gen_main := Gm_done\<rparr>))
      | Gm_done \<Rightarrow> None)"

text \<open>Which thread moves: None is \<^verbatim>\<open>main\<close>.\<close>

fun gen_act :: "consumer option \<Rightarrow> gen_state \<Rightarrow> gen_state option" where
  "gen_act None s = main_step s"
| "gen_act (Some t) s = consumer_step t s"

definition gen_start :: gen_state where
  "gen_start = \<lparr>the_gen = make_generator, mtx_generator = None, consumers = (\<lambda>_. Cs_new),
     gen_main = Gm_make, lookups = [], gen_ub = False\<rparr>"

section \<open>The invariant\<close>

text \<open>How often a consumer has resumed the generator and how often it has looked up the value.\<close>

fun resumed :: "consumer_pc \<Rightarrow> nat" where
  "resumed Cs_new = 0" | "resumed (Cs_loop i) = i" | "resumed (Cs_lock i) = i"
| "resumed (Cs_resume i) = i" | "resumed (Cs_body i) = i" | "resumed (Cs_lookup i) = i + 1"
| "resumed (Cs_unlock i) = i + 1" | "resumed Cs_done = 2"

fun looked_up :: "consumer_pc \<Rightarrow> nat" where
  "looked_up (Cs_lookup i) = i" | "looked_up p = resumed p"

fun holds_mtx :: "consumer_pc \<Rightarrow> bool" where
  "holds_mtx (Cs_resume i) \<longleftrightarrow> True" | "holds_mtx (Cs_body i) \<longleftrightarrow> True"
| "holds_mtx (Cs_lookup i) \<longleftrightarrow> True" | "holds_mtx (Cs_unlock i) \<longleftrightarrow> True" | "holds_mtx _ \<longleftrightarrow> False"

fun pc_ok :: "consumer_pc \<Rightarrow> bool" where
  "pc_ok (Cs_loop i) \<longleftrightarrow> i \<le> 2" | "pc_ok Cs_new \<longleftrightarrow> True" | "pc_ok Cs_done \<longleftrightarrow> True"
| "pc_ok (Cs_lock i) \<longleftrightarrow> i < 2" | "pc_ok (Cs_resume i) \<longleftrightarrow> i < 2" | "pc_ok (Cs_body i) \<longleftrightarrow> i < 2"
| "pc_ok (Cs_lookup i) \<longleftrightarrow> i < 2" | "pc_ok (Cs_unlock i) \<longleftrightarrow> i < 2"

text \<open>The frame after \<open>k\<close> resumes, and while the resume after those runs.\<close>

definition gen_after :: "nat \<Rightarrow> generator" where
  "gen_after k = \<lparr>gen_point = (if k = 0 then Gen_initial else if k \<le> 4 then Gen_yield else Gen_final),
     gen_val = 10 * of_nat (min k 4), gen_i = of_nat k\<rparr>"

definition gen_during :: "nat \<Rightarrow> generator" where
  "gen_during k = (gen_after k)\<lparr>gen_point := Gen_running (k \<noteq> 0)\<rparr>"

definition yielded :: "nat \<Rightarrow> u32 list" where
  "yielded k = map (\<lambda>j. 10 * of_nat (Suc j)) [0..<k]"

definition total :: "(consumer_pc \<Rightarrow> nat) \<Rightarrow> gen_state \<Rightarrow> nat" where
  "total f s = f (consumers s Thrd2) + f (consumers s Thrd3)"

fun in_body :: "consumer_pc \<Rightarrow> bool" where
  "in_body (Cs_body i) \<longleftrightarrow> True" | "in_body _ \<longleftrightarrow> False"

text \<open>What \<^verbatim>\<open>main\<close> knows of the consumers, and how far its own resume is.\<close>

fun main_ok :: "gen_main_pc \<Rightarrow> consumer_pc \<Rightarrow> consumer_pc \<Rightarrow> bool" where
  "main_ok Gm_make p2 p3 \<longleftrightarrow> p2 = Cs_new \<and> p3 = Cs_new"
| "main_ok Gm_spawn2 p2 p3 \<longleftrightarrow> p2 = Cs_new \<and> p3 = Cs_new"
| "main_ok Gm_spawn3 p2 p3 \<longleftrightarrow> p2 \<noteq> Cs_new \<and> p3 = Cs_new"
| "main_ok Gm_join2 p2 p3 \<longleftrightarrow> p2 \<noteq> Cs_new \<and> p3 \<noteq> Cs_new"
| "main_ok Gm_join3 p2 p3 \<longleftrightarrow> p2 = Cs_done \<and> p3 \<noteq> Cs_new"
| "main_ok _ p2 p3 \<longleftrightarrow> p2 = Cs_done \<and> p3 = Cs_done"

definition gen_inv :: "gen_state \<Rightarrow> bool" where
  "gen_inv s \<longleftrightarrow> \<not> gen_ub s \<and>
     main_ok (gen_main s) (consumers s Thrd2) (consumers s Thrd3) \<and>
     (\<forall>t. pc_ok (consumers s t) \<and> (holds_mtx (consumers s t) \<longleftrightarrow> mtx_generator s = Some t)) \<and>
     lookups s = yielded (total looked_up s) \<and>
     the_gen s =
       (if gen_main s = Gm_body then gen_during 4
        else if gen_main s = Gm_destroy then gen_after 5
        else if gen_main s = Gm_done then (gen_after 5)\<lparr>gen_point := Gen_destroyed\<rparr>
        else if \<exists>t. in_body (consumers s t) then gen_during (total resumed s)
        else gen_after (total resumed s))"

lemma ex_consumer: "(\<exists>t. P t) \<longleftrightarrow> P Thrd2 \<or> P Thrd3"
  unfolding enum_ex [symmetric] enum_ex_consumer_def ..

lemma all_consumer: "(\<forall>t. P t) \<longleftrightarrow> P Thrd2 \<and> P Thrd3"
  unfolding enum_all [symmetric] enum_all_consumer_def ..

text \<open>The two halves of a resume.\<close>

lemma gen_resume_after: "k \<le> 4 \<Longrightarrow> gen_resume (gen_after k) = Some (gen_during k)"
  by (auto simp: gen_resume_def gen_after_def gen_during_def)

lemma gen_body_during: "k \<le> 4 \<Longrightarrow> gen_body (gen_during k) = gen_after (Suc k)"
proof -
  assume "k \<le> 4"
  then have "k = 0 \<or> k = 1 \<or> k = 2 \<or> k = 3 \<or> k = 4" by linarith
  then show ?thesis
    by (elim disjE) (simp_all only:, code_simp+)
qed

lemma gen_after_val: "0 < k \<Longrightarrow> k \<le> 4 \<Longrightarrow> yielded (k - 1) @ [gen_val (gen_after k)] = yielded k"
  by (cases k) (simp_all add: yielded_def gen_after_def)

fun active :: "consumer_pc \<Rightarrow> bool" where
  "active Cs_new \<longleftrightarrow> False" | "active Cs_done \<longleftrightarrow> False" | "active _ \<longleftrightarrow> True"

lemma resumed_le: "pc_ok p \<Longrightarrow> resumed p \<le> 2"
  by (cases p) auto

lemma main_ok_active:
  assumes "gen_inv s" and "active (consumers s t)"
  shows "gen_main s \<in> {Gm_spawn3, Gm_join2, Gm_join3}"
proof -
  have "main_ok (gen_main s) (consumers s Thrd2) (consumers s Thrd3)" using assms(1) by (simp add: gen_inv_def)
  with assms(2) show ?thesis by (cases t; cases "gen_main s") auto
qed

lemma main_ok_step:
  assumes "gen_inv s" and "active (consumers s t)" and "p \<noteq> Cs_new"
  shows "main_ok (gen_main s) (((consumers s)(t := p)) Thrd2) (((consumers s)(t := p)) Thrd3)"
proof -
  have "main_ok (gen_main s) (consumers s Thrd2) (consumers s Thrd3)" using assms(1) by (simp add: gen_inv_def)
  with assms(2,3) show ?thesis by (cases t; cases "gen_main s") auto
qed

text \<open>The rest of the invariant as one consumer \<open>t\<close> sees it, while \<open>main\<close> does not resume.\<close>

definition pair_inv :: "consumer \<Rightarrow> consumer \<Rightarrow> gen_state \<Rightarrow> bool" where
  "pair_inv t u s \<longleftrightarrow> \<not> gen_ub s \<and> pc_ok (consumers s t) \<and> pc_ok (consumers s u) \<and>
     (holds_mtx (consumers s t) \<longleftrightarrow> mtx_generator s = Some t) \<and>
     (holds_mtx (consumers s u) \<longleftrightarrow> mtx_generator s = Some u) \<and>
     lookups s = yielded (looked_up (consumers s t) + looked_up (consumers s u)) \<and>
     the_gen s = (let k = resumed (consumers s t) + resumed (consumers s u)
        in if in_body (consumers s t) \<or> in_body (consumers s u) then gen_during k else gen_after k)"

lemma pair_inv_sym: "pair_inv t u s \<longleftrightarrow> pair_inv u t s"
  by (simp add: pair_inv_def Let_def add.commute disj_commute) blast

lemma gen_inv_pair:
  assumes "gen_main s \<in> {Gm_spawn3, Gm_join2, Gm_join3}" and "t \<noteq> u"
  shows "gen_inv s \<longleftrightarrow> main_ok (gen_main s) (consumers s Thrd2) (consumers s Thrd3) \<and> pair_inv t u s"
proof -
  have "gen_main s \<noteq> Gm_body" "gen_main s \<noteq> Gm_destroy" "gen_main s \<noteq> Gm_done" using assms(1) by auto
  then have "gen_inv s \<longleftrightarrow>
      main_ok (gen_main s) (consumers s Thrd2) (consumers s Thrd3) \<and> pair_inv Thrd2 Thrd3 s"
    unfolding gen_inv_def pair_inv_def all_consumer ex_consumer total_def Let_def by auto
  moreover have "t = Thrd2 \<and> u = Thrd3 \<or> t = Thrd3 \<and> u = Thrd2" using assms(2) by (cases t; cases u) auto
  ultimately show ?thesis using pair_inv_sym by blast
qed

lemma consumer_goto_simps [simp]:
  "consumers (consumer_goto t p s) = (consumers s)(t := p)" "gen_main (consumer_goto t p s) = gen_main s"
  "gen_ub (consumer_goto t p s) = gen_ub s" "the_gen (consumer_goto t p s) = the_gen s"
  "mtx_generator (consumer_goto t p s) = mtx_generator s" "lookups (consumer_goto t p s) = lookups s"
  by (simp_all add: consumer_goto_def)

lemma in_body_holds: "in_body p \<Longrightarrow> holds_mtx p"
  by (cases p) auto

lemma not_holding_looked_up: "\<not> holds_mtx p \<Longrightarrow> looked_up p = resumed p"
  by (cases p) auto

lemma consumer_step_pair:
  assumes inv: "pair_inv t u s" and ne: "t \<noteq> u" and step: "consumer_step t s = Some s'"
  shows "pair_inv t u s' \<and> consumers s' t \<noteq> Cs_new \<and> active (consumers s t) \<and>
    gen_main s' = gen_main s \<and> consumers s' = (consumers s)(t := consumers s' t)"
proof -
  have u2: "resumed (consumers s u) \<le> 2" using inv resumed_le by (simp add: pair_inv_def)
  have alone: "\<not> holds_mtx (consumers s u) \<and> \<not> in_body (consumers s u) \<and>
      looked_up (consumers s u) = resumed (consumers s u)"
    if "mtx_generator s = None \<or> mtx_generator s = Some t"
    using that inv ne in_body_holds not_holding_looked_up by (auto simp: pair_inv_def)
  note defs = consumer_step_def pair_inv_def
  show ?thesis
  proof (cases "consumers s t")
    case (Cs_loop i)
    with step have "s' = consumer_goto t (if i < 2 then Cs_lock i else Cs_done) s" by (simp add: defs)
    moreover have "i < 2 \<or> i = 2" using Cs_loop inv by (auto simp: pair_inv_def)
    ultimately show ?thesis using Cs_loop inv ne by (elim disjE) (simp_all add: defs Let_def)
  next
    case (Cs_lock i)
    with step have "mtx_generator s = None" "s' = consumer_goto t (Cs_resume i) (s\<lparr>mtx_generator := Some t\<rparr>)"
      by (auto simp: consumer_step_def split: if_splits)
    with Cs_lock alone inv ne show ?thesis by (simp add: defs Let_def)
  next
    case (Cs_resume i)
    let ?k = "i + resumed (consumers s u)"
    have "mtx_generator s = Some t" using Cs_resume inv by (simp add: defs)
    with alone Cs_resume inv have "the_gen s = gen_after ?k" "i < 2" by (simp_all add: defs)
    with u2 have "gen_resume (the_gen s) = Some (gen_during ?k)" by (simp add: gen_resume_after)
    with step Cs_resume alone inv ne \<open>mtx_generator s = Some t\<close> show ?thesis
      by (auto simp: defs use_gen_def)
  next
    case (Cs_body i)
    let ?k = "i + resumed (consumers s u)"
    have mtx: "mtx_generator s = Some t" using Cs_body inv by (simp add: defs)
    with alone Cs_body inv have g: "the_gen s = gen_during ?k" "i < 2" by (simp_all add: defs)
    with u2 have "gen_body (the_gen s) = gen_after (Suc ?k)" by (simp add: gen_body_during)
    with step Cs_body alone inv ne mtx show ?thesis by (auto simp: defs)
  next
    case (Cs_lookup i)
    let ?k = "i + 1 + resumed (consumers s u)"
    have mtx: "mtx_generator s = Some t" using Cs_lookup inv by (simp add: defs)
    with alone Cs_lookup inv have g: "the_gen s = gen_after ?k" "i < 2"
      and l: "lookups s = yielded (?k - 1)" by (simp_all add: defs)
    with u2 have "lookups s @ [gen_val (the_gen s)] = yielded ?k" using gen_after_val [of ?k] by simp
    with step Cs_lookup alone inv ne mtx show ?thesis by (auto simp: defs)
  next
    case (Cs_unlock i)
    with step inv ne alone show ?thesis by (auto simp: defs Let_def)
  qed (use step in \<open>simp_all add: consumer_step_def\<close>)
qed

lemma consumer_step_inv:
  assumes inv: "gen_inv s" and step: "consumer_step t s = Some s'"
  shows "gen_inv s'"
proof -
  obtain u where u: "t \<noteq> u" by (metis consumer.distinct(1))
  have act: "active (consumers s t)" using step by (auto simp: consumer_step_def split: consumer_pc.splits)
  with main_ok_active [OF inv] have m: "gen_main s \<in> {Gm_spawn3, Gm_join2, Gm_join3}" by blast
  with inv u have "pair_inv t u s" using gen_inv_pair by blast
  from consumer_step_pair [OF this u step] have s': "pair_inv t u s'" "consumers s' t \<noteq> Cs_new"
    "gen_main s' = gen_main s" "consumers s' = (consumers s)(t := consumers s' t)" by simp_all
  from main_ok_step [OF inv act s'(2)] s'(3,4) have
    "main_ok (gen_main s') (consumers s' Thrd2) (consumers s' Thrd3)" by metis
  with s' m u show ?thesis using gen_inv_pair [of s' t u] by simp
qed

lemma gen_after_0: "make_generator = gen_after 0"
  by (simp add: make_generator_def gen_after_def)

lemma new_not_holding:
  assumes "gen_inv s" and "consumers s t = Cs_new \<or> consumers s t = Cs_done"
  shows "mtx_generator s \<noteq> Some t"
proof -
  have "\<not> holds_mtx (consumers s t)" using assms(2) by auto
  then show ?thesis using assms(1) unfolding gen_inv_def by blast
qed

lemma main_step_inv:
  assumes inv: "gen_inv s" and step: "main_step s = Some s'"
  shows "gen_inv s'"
proof -
  let ?p2 = "consumers s Thrd2" and ?p3 = "consumers s Thrd3"
  note new = new_not_holding [OF inv, of Thrd2] new_not_holding [OF inv, of Thrd3]
  note defs = gen_inv_def all_consumer ex_consumer total_def
  show ?thesis
  proof (cases "gen_main s")
    case Gm_make
    with step have s': "s' = s\<lparr>the_gen := gen_after 0, gen_main := Gm_spawn2\<rparr>"
      by (simp add: main_step_def gen_after_0)
    have "?p2 = Cs_new" "?p3 = Cs_new" using inv Gm_make by (simp_all add: gen_inv_def)
    with new inv Gm_make show ?thesis by (simp add: s' defs)
  next
    case Gm_spawn2
    with step have s': "s' = consumer_goto Thrd2 (Cs_loop 0) (s\<lparr>gen_main := Gm_spawn3\<rparr>)" by (simp add: main_step_def)
    have "?p2 = Cs_new" "?p3 = Cs_new" using inv Gm_spawn2 by (simp_all add: gen_inv_def)
    with new inv Gm_spawn2 show ?thesis by (simp add: s' defs)
  next
    case Gm_spawn3
    with step have s': "s' = consumer_goto Thrd3 (Cs_loop 0) (s\<lparr>gen_main := Gm_join2\<rparr>)" by (simp add: main_step_def)
    have "?p3 = Cs_new" using inv Gm_spawn3 by (simp add: gen_inv_def)
    with new inv Gm_spawn3 show ?thesis by (simp add: s' defs)
  next
    case Gm_join2
    with step have "?p2 = Cs_done" and s': "s' = s\<lparr>gen_main := Gm_join3\<rparr>"
      by (simp_all add: main_step_def split: if_splits)
    with new inv Gm_join2 show ?thesis by (simp add: s' defs)
  next
    case Gm_join3
    with step have "?p3 = Cs_done" and s': "s' = s\<lparr>gen_main := Gm_resume\<rparr>"
      by (simp_all add: main_step_def split: if_splits)
    with new inv Gm_join3 show ?thesis by (simp add: s' defs)
  next
    case Gm_resume
    with inv have p: "?p2 = Cs_done" "?p3 = Cs_done" by (simp_all add: gen_inv_def)
    with inv Gm_resume have "the_gen s = gen_after 4" by (simp add: defs)
    with step Gm_resume have s': "s' = s\<lparr>gen_main := Gm_body, the_gen := gen_during 4\<rparr>"
      by (simp add: main_step_def gen_resume_after use_gen_def)
    with p new inv Gm_resume show ?thesis by (simp add: s' defs)
  next
    case Gm_body
    with inv have p: "?p2 = Cs_done" "?p3 = Cs_done" by (simp_all add: gen_inv_def)
    have s': "s' = s\<lparr>the_gen := gen_after 5, gen_main := Gm_destroy\<rparr>"
      using inv step Gm_body gen_body_during [of 4] by (simp add: main_step_def gen_inv_def)
    with p new inv Gm_body show ?thesis by (simp add: s' defs)
  next
    case Gm_destroy
    with inv have p: "?p2 = Cs_done" "?p3 = Cs_done" by (simp_all add: gen_inv_def)
    have "gen_destroy (gen_after 5) = Some ((gen_after 5)\<lparr>gen_point := Gen_destroyed\<rparr>)"
      by (simp add: gen_destroy_def gen_after_def)
    with inv step Gm_destroy have
      s': "s' = s\<lparr>gen_main := Gm_done, the_gen := (gen_after 5)\<lparr>gen_point := Gen_destroyed\<rparr>\<rparr>"
      by (simp add: main_step_def gen_inv_def use_gen_def)
    with p new inv Gm_destroy show ?thesis by (simp add: s' defs)
  qed (use step in \<open>simp add: main_step_def\<close>)
qed

lemma gen_act_inv: "gen_inv s \<Longrightarrow> gen_act c s = Some s' \<Longrightarrow> gen_inv s'"
  by (cases c) (auto intro: main_step_inv consumer_step_inv)

lemma gen_start_inv: "gen_inv gen_start"
  by (simp add: gen_inv_def gen_start_def gen_after_0 all_consumer ex_consumer total_def yielded_def)

interpretation gen: safe_system gen_act "\<lambda>s. s = gen_start" gen_inv
proof unfold_locales
  show "s = gen_start \<Longrightarrow> gen_inv s" for s by (simp add: gen_start_inv)
qed (rule gen_act_inv)


section \<open>Progress\<close>

text \<open>A bound on the steps that are left.\<close>

fun consumer_left :: "consumer_pc \<Rightarrow> nat" where
  "consumer_left Cs_new = 0" | "consumer_left Cs_done = 0"
| "consumer_left (Cs_loop i) = 6 * (2 - i) + 1" | "consumer_left (Cs_lock i) = 6 * (1 - i) + 6"
| "consumer_left (Cs_resume i) = 6 * (1 - i) + 5" | "consumer_left (Cs_body i) = 6 * (1 - i) + 4"
| "consumer_left (Cs_lookup i) = 6 * (1 - i) + 3" | "consumer_left (Cs_unlock i) = 6 * (1 - i) + 2"

fun main_left :: "gen_main_pc \<Rightarrow> nat" where
  "main_left Gm_make = 34" | "main_left Gm_spawn2 = 33" | "main_left Gm_spawn3 = 19"
| "main_left Gm_join2 = 5" | "main_left Gm_join3 = 4" | "main_left Gm_resume = 3"
| "main_left Gm_body = 2" | "main_left Gm_destroy = 1" | "main_left Gm_done = 0"

definition gen_left :: "gen_state \<Rightarrow> nat" where
  "gen_left s = main_left (gen_main s) + total consumer_left s"

lemma use_gen_simps [simp]:
  "consumers (use_gen r s) = consumers s" "gen_main (use_gen r s) = gen_main s"
  by (simp_all add: use_gen_def split: option.splits)

lemma consumer_left_step:
  assumes inv: "gen_inv s" and step: "consumer_step t s = Some s'"
  shows "gen_left s' < gen_left s"
proof -
  have ok: "pc_ok (consumers s t)" using inv by (simp add: gen_inv_def)
  obtain p where p: "consumers s' = (consumers s)(t := p)" "gen_main s' = gen_main s"
    "consumer_left p < consumer_left (consumers s t)"
    using step ok by (cases "consumers s t") (auto simp: consumer_step_def split: if_splits)
  then show ?thesis by (cases t) (auto simp: gen_left_def total_def)
qed

lemma main_left_step:
  assumes inv: "gen_inv s" and step: "main_step s = Some s'"
  shows "gen_left s' < gen_left s"
  using assms by (cases "gen_main s")
    (auto simp: main_step_def gen_inv_def gen_left_def total_def split: if_splits)

lemma consumer_can_step:
  assumes inv: "gen_inv s" and t: "active (consumers s t)"
  shows "\<exists>c v. gen_act c s = Some v"
proof (cases "\<exists>i. consumers s t = Cs_lock i")
  case False
  with t have "\<exists>v. consumer_step t s = Some v" by (cases "consumers s t") (auto simp: consumer_step_def)
  then show ?thesis by (metis gen_act.simps(2))
next
  case True
  show ?thesis
  proof (cases "mtx_generator s")
    case None
    with True have "\<exists>v. consumer_step t s = Some v" by (auto simp: consumer_step_def)
    then show ?thesis by (metis gen_act.simps(2))
  next
    case (Some u)
    with inv have "holds_mtx (consumers s u)" by (simp add: gen_inv_def)
    then have "\<exists>v. consumer_step u s = Some v" by (cases "consumers s u") (auto simp: consumer_step_def)
    then show ?thesis by (metis gen_act.simps(2))
  qed
qed

lemma gen_can_step:
  assumes inv: "gen_inv s" and "gen_main s \<noteq> Gm_done"
  shows "\<exists>c v. gen_act c s = Some v"
proof (cases "\<exists>v. main_step s = Some v")
  case True
  then show ?thesis by (metis gen_act.simps(1))
next
  case False
  with assms have "\<exists>t. consumers s t \<noteq> Cs_done \<and> consumers s t \<noteq> Cs_new"
    by (cases "gen_main s") (auto simp: main_step_def gen_inv_def ex_consumer split: if_splits)
  then obtain t where "consumers s t \<noteq> Cs_done" "consumers s t \<noteq> Cs_new" by blast
  then have "active (consumers s t)" by (cases "consumers s t") auto
  with inv show ?thesis by (rule consumer_can_step)
qed

lemma gen_act_left: "gen_inv s \<Longrightarrow> gen_act c s = Some s' \<Longrightarrow> gen_left s' < gen_left s"
  by (cases c) (auto intro: consumer_left_step main_left_step)

interpretation gen_end: ending_system gen_act "\<lambda>s. s = gen_start" gen_inv "\<lambda>s. gen_main s = Gm_done" gen_left
  by unfold_locales (blast intro: gen_can_step, rule gen_act_left)

section \<open>Properties\<close>

text \<open>C22: the generator under any interleaving of \<^verbatim>\<open>main\<close> and the two consumers. No thread ever
  resumes a coroutine that is running, finished or destroyed, nor destroys one that runs; at most
  one thread is in the critical section; the values looked up so far, by whichever thread, are a
  prefix of 10, 20, 30, 40, so none is lost, repeated or read half-written. The program cannot stop
  before the end of \<^verbatim>\<open>main\<close>: some thread can move, no execution has more moves than a bound says are
  left, and some execution reaches the end. At the end all four values have been looked up, two by
  each consumer, and the coroutine is destroyed.\<close>

theorem generator_program_correct:
  assumes "reachable gen_act (\<lambda>s. s = gen_start) s"
  shows "\<not> gen_ub s \<and>
    (\<forall>t u. holds_mtx (consumers s t) \<and> holds_mtx (consumers s u) \<longrightarrow> t = u) \<and>
    lookups s = take (length (lookups s)) [10, 20, 30, 40] \<and>
    (gen_main s \<noteq> Gm_done \<longrightarrow> (\<exists>c v. gen_act c s = Some v)) \<and>
    (\<forall>cs v. run_sched gen_act cs s = Some v \<longrightarrow> length cs + gen_left v \<le> gen_left s) \<and>
    (\<exists>cs v. run_sched gen_act cs s = Some v \<and> gen_main v = Gm_done) \<and>
    (gen_main s = Gm_done \<longrightarrow> lookups s = [10, 20, 30, 40] \<and>
       (\<forall>t. consumers s t = Cs_done \<and> looked_up (consumers s t) = 2) \<and>
       gen_point (the_gen s) = Gen_destroyed \<and> gen_val (the_gen s) = 40)"
proof -
  have inv: "gen_inv s" using assms by (rule gen.reachable_inv)
  have l: "lookups s = yielded (total looked_up s)" using inv by (simp add: gen_inv_def)
  have four: "yielded 4 = [10, 20, 30, 40]" by code_simp
  have le: "looked_up p \<le> 2" if "pc_ok p" for p using that by (cases p) auto
  have "total looked_up s \<le> 4"
    using inv le [of "consumers s Thrd2"] le [of "consumers s Thrd3"]
    unfolding total_def gen_inv_def by fastforce
  then have "yielded (total looked_up s) = take (total looked_up s) (yielded 4)"
    by (simp add: yielded_def take_map)
  with four have "lookups s = take (total looked_up s) [10, 20, 30, 40]" using l by simp
  then have prefix: "lookups s = take (length (lookups s)) [10, 20, 30, 40]" by (metis append_eq_conv_conj append_take_drop_id)
  have fin: "lookups s = [10, 20, 30, 40] \<and> (\<forall>t. consumers s t = Cs_done \<and> looked_up (consumers s t) = 2) \<and>
       gen_point (the_gen s) = Gen_destroyed \<and> gen_val (the_gen s) = 40" if "gen_main s = Gm_done"
    using inv that four by (simp add: gen_inv_def all_consumer total_def) (simp add: gen_after_def)
  have "\<not> gen_ub s" "\<forall>t u. holds_mtx (consumers s t) \<and> holds_mtx (consumers s u) \<longrightarrow> t = u"
    using inv by (auto simp: gen_inv_def)
  then show ?thesis
    using prefix fin gen_end.progress [OF inv] gen_end.run_bound [OF inv] gen_end.runs_to_end [OF inv] by blast
qed

text \<open>The schedule of the witness: the consumers take turns.\<close>

definition turn :: "consumer \<Rightarrow> consumer option list" where
  "turn t = replicate 6 (Some t)"

definition gen_run :: "consumer option list" where
  "gen_run = [None, None, None] @ turn Thrd2 @ turn Thrd3 @ turn Thrd3 @ turn Thrd2 @
     [Some Thrd2, Some Thrd3, None, None, None, None, None]"

theorem generator_program_correct_witness:
  "\<exists>s. run_sched gen_act gen_run gen_start = Some s \<and> gen_main s = Gm_done \<and> lookups s = [10, 20, 30, 40]"
proof -
  have run: "case run_sched gen_act gen_run gen_start of None \<Rightarrow> False | Some s \<Rightarrow> gen_main s = Gm_done"
    by code_simp
  then obtain s where s: "run_sched gen_act gen_run gen_start = Some s" and m: "gen_main s = Gm_done"
    by (auto split: option.splits)
  have "reachable gen_act (\<lambda>s. s = gen_start) s"
    using run_sched_from_init [OF refl s] .
  from generator_program_correct [OF this] s m show ?thesis by simp
qed

end
