(* ===== verification/Coro_Frames.thy ===== *)
theory Coro_Frames
  imports Coro_Promise
begin

text \<open>
  \<^verbatim>\<open>coroutine/coro.hpp\<close>: the frames of the coroutines and the two bodies. The programs run one task
  coroutine that creates, awaits and destroys single-task coroutines one after the other. Here are
  the frames, what may be done with a handle, and the bodies between their suspension points; the
  awaiters and who resumes whom are those of the programs built on this file.

  A handle that is misused sets the flag \<open>fr_ub\<close>: to resume a coroutine that is not suspended, to
  destroy one that runs or is destroyed, to touch the promise of a destroyed frame. A frame that is
  destroyed while it is suspended but a \<^verbatim>\<open>resume()\<close> of it is still unwinding is a matter of the
  programs: \<open>Coro_Stack\<close> records it in \<open>destroyed_in_use\<close>, \<open>Coro_Race\<close>, where the unwinding call is
  one of another thread that still writes to the frame, counts it as undefined.
\<close>

section \<open>Frames\<close>

text \<open>Suspended before the body, running, suspended at a \<^verbatim>\<open>co_await\<close>, suspended at the end, destroyed.\<close>

datatype point = Initial | Running | At_await | Final | Destroyed

text \<open>A single task: its point and the promise, with the members of every build.\<close>

record single_frame =
  sg_point :: point
  sg_task_handle :: bool
  sg_done :: bool
  sg_worker_finished :: bool

text \<open>
  The task's frame (its point and the loop variable) and the frames of all single tasks made so far,
  in order; the local variable \<^verbatim>\<open>single_task\<close> is the last one.
\<close>

record frames =
  task_point :: point
  task_i :: int
  singles :: "single_frame list"
  fr_ub :: bool

text \<open>Where a coroutine is when it has just been made.\<close>

definition start_point :: "promise_type \<Rightarrow> point" where
  "start_point p = (if starts_suspended p then Initial else Running)"

lemma start_points [simp]:
  "start_point task_promise = Initial" "start_point (sync_promise symmetric) = Initial"
  "start_point sync_trans_promise = Initial"
  by (simp_all add: start_point_def)

definition fresh_single :: single_frame where
  "fresh_single = \<lparr>sg_point = start_point (sync_promise True), sg_task_handle = False, sg_done = False, sg_worker_finished = False\<rparr>"

text \<open>Before the task is made; its loop variable then starts at 1.\<close>

definition no_frames :: frames where
  "no_frames = \<lparr>task_point = Destroyed, task_i = 0, singles = [], fr_ub = False\<rparr>"

definition make_task :: "frames \<Rightarrow> frames" where
  "make_task f = f\<lparr>task_point := start_point task_promise, task_i := 1, singles := []\<rparr>"

section \<open>What may be done with a handle\<close>

text \<open>Every use of a single task's frame goes through \<open>with_single\<close>: the frame must be there.\<close>

definition alive :: "frames \<Rightarrow> nat \<Rightarrow> bool" where
  "alive f k \<longleftrightarrow> k < length (singles f) \<and> sg_point (singles f ! k) \<noteq> Destroyed"

definition with_single :: "nat \<Rightarrow> (single_frame \<Rightarrow> single_frame) \<Rightarrow> frames \<Rightarrow> frames" where
  "with_single k g f =
     (if alive f k then f\<lparr>singles := (singles f)[k := g (singles f ! k)]\<rparr> else f\<lparr>fr_ub := True\<rparr>)"

definition resume_single :: "nat \<Rightarrow> frames \<Rightarrow> frames" where
  "resume_single k f =
     (if alive f k \<and> sg_point (singles f ! k) \<in> {Initial, At_await}
      then with_single k (\<lambda>s. s\<lparr>sg_point := Running\<rparr>) f else f\<lparr>fr_ub := True\<rparr>)"

definition resume_task :: "frames \<Rightarrow> frames" where
  "resume_task f =
     (if task_point f \<in> {Initial, At_await} then f\<lparr>task_point := Running\<rparr> else f\<lparr>fr_ub := True\<rparr>)"

text \<open>The destructors of \<^verbatim>\<open>SyncTask\<close>, \<^verbatim>\<open>SyncTransTask\<close> and \<^verbatim>\<open>Task\<close>.\<close>

definition destroy_single :: "nat \<Rightarrow> frames \<Rightarrow> frames" where
  "destroy_single k f =
     (if alive f k \<and> sg_point (singles f ! k) \<noteq> Running
      then with_single k (\<lambda>s. s\<lparr>sg_point := Destroyed\<rparr>) f else f\<lparr>fr_ub := True\<rparr>)"

definition destroy_task :: "frames \<Rightarrow> frames" where
  "destroy_task f =
     (if task_point f \<in> {Running, Destroyed} then f\<lparr>fr_ub := True\<rparr> else f\<lparr>task_point := Destroyed\<rparr>)"

section \<open>The bodies\<close>

text \<open>
  Where the body of the task is: at the loop condition, before \<^verbatim>\<open>co_await GetHandleAwaiter\<close>, before
  \<^verbatim>\<open>co_await single_task\<close>, after it, at \<^verbatim>\<open>co_return\<close>.
\<close>

datatype task_pc = T_loop | T_handle | T_await | T_resumed | T_return

definition current_single :: "frames \<Rightarrow> nat" where
  "current_single f = length (singles f) - 1"

definition make_single_task :: "frames \<Rightarrow> frames" where
  "make_single_task f = f\<lparr>singles := singles f @ [fresh_single]\<rparr>"

definition task_head :: "int \<Rightarrow> frames \<Rightarrow> task_pc \<times> frames" where
  "task_head count f = (if task_i f \<le> count then (T_handle, make_single_task f) else (T_return, f))"

text \<open>\<^verbatim>\<open>GetHandleAwaiter\<close> suspends and, answering false, goes on at once with the handle.\<close>

definition get_handle_task :: "frames \<Rightarrow> frames" where
  "get_handle_task f = resume_task (f\<lparr>task_point := At_await\<rparr>)"

definition get_handle_single :: "nat \<Rightarrow> frames \<Rightarrow> frames" where
  "get_handle_single k f = resume_single k (with_single k (\<lambda>s. s\<lparr>sg_point := At_await\<rparr>) f)"

text \<open>The end of an iteration: the destructor of the local single task, and the next value of \<open>i\<close>.\<close>

definition task_iteration_end :: "frames \<Rightarrow> frames" where
  "task_iteration_end f =
     (object_dtor destroy_single (get_return_object (current_single f)) f)\<lparr>task_i := task_i f + 1\<rparr>"

definition suspend_task :: "point \<Rightarrow> frames \<Rightarrow> frames" where
  "suspend_task p f = f\<lparr>task_point := p\<rparr>"

definition suspend_single :: "nat \<Rightarrow> point \<Rightarrow> frames \<Rightarrow> frames" where
  "suspend_single k p f = with_single k (\<lambda>s. s\<lparr>sg_point := p\<rparr>) f"

end
