(* ===== verification/Coro_Stack.thy ===== *)
theory Coro_Stack
  imports Coro_Frames
begin

text \<open>
  \<^verbatim>\<open>coroutine/symmetric_resume.cpp\<close> built without and with \<^verbatim>\<open>SYMMETRIC\<close>, and
  \<^verbatim>\<open>coroutine/symmetric_trans.cpp\<close>: one thread, and the stack of the \<^verbatim>\<open>resume()\<close> calls it is in, as
  \<^verbatim>\<open>TRACK_RESUME\<close> of \<^verbatim>\<open>log.hpp\<close> counts them. An entry of the stack is one such call and says where the
  code that runs in it is; the bottom entry is \<^verbatim>\<open>main\<close>. A symmetric transfer replaces the top entry.
\<close>

section \<open>State\<close>

text \<open>The three programs: nested resumes, resume with the \<^verbatim>\<open>done_\<close> flag, symmetric transfer.\<close>

datatype build = Nested | Ready | Transfer

datatype co_main_pc = Co_make | Co_resume | Co_destroy | Co_done

text \<open>The promise of the single tasks of each.\<close>

definition single_promise :: "build \<Rightarrow> promise_type" where
  "single_promise b =
     (case b of Nested \<Rightarrow> sync_promise False | Ready \<Rightarrow> sync_promise True | Transfer \<Rightarrow> sync_trans_promise)"

lemma single_start [simp]: "start_point (single_promise b) = sg_point fresh_single"
  by (cases b) (simp_all add: single_promise_def fresh_single_def)

text \<open>In \<^verbatim>\<open>awaiter::await_suspend\<close>: at its start, before the resume, after it.\<close>

datatype await_pc = Aw_save | Aw_resume | Aw_back

datatype single_pc = Sg_handle | Sg_return

text \<open>In the \<^verbatim>\<open>await_suspend\<close> of the final awaiter: at its start, or after its resume.\<close>

datatype final_pc = Fa_start | Fa_back

datatype activation = In_main co_main_pc | In_task task_pc | In_awaiter nat await_pc
  | In_single nat single_pc | In_final nat final_pc

text \<open>
  \<open>max_depth\<close> and \<open>destroyed_in_use\<close> are history: the largest depth so far, and the single tasks
  destroyed while a \<^verbatim>\<open>resume()\<close> of theirs was on the stack, suspended as they were.
\<close>

record co_state =
  co_frames :: frames
  co_stack :: "activation list"
  g_stack_depth :: int
  max_depth :: int
  destroyed_in_use :: "nat list"

definition co_start :: co_state where
  "co_start = \<lparr>co_frames = no_frames, co_stack = [In_main Co_make], g_stack_depth = 0,
     max_depth = 0, destroyed_in_use = []\<rparr>"

section \<open>Moves on the stack\<close>

definition goto_act :: "activation \<Rightarrow> activation list \<Rightarrow> frames \<Rightarrow> co_state \<Rightarrow> co_state" where
  "goto_act a rest f s = s\<lparr>co_frames := f, co_stack := a # rest\<rparr>"

text \<open>\<^verbatim>\<open>TRACK_RESUME\<close>: the tracker counts the call in and, when it returns, out again.\<close>

definition call_act :: "activation \<Rightarrow> activation list \<Rightarrow> frames \<Rightarrow> co_state \<Rightarrow> co_state" where
  "call_act a rest f s = s\<lparr>co_frames := f, co_stack := a # rest,
     g_stack_depth := g_stack_depth s + 1, max_depth := max (max_depth s) (g_stack_depth s + 1)\<rparr>"

definition ret_act :: "activation list \<Rightarrow> frames \<Rightarrow> co_state \<Rightarrow> co_state" where
  "ret_act rest f s = s\<lparr>co_frames := f, co_stack := rest, g_stack_depth := g_stack_depth s - 1\<rparr>"

fun owner :: "activation \<Rightarrow> nat option" where
  "owner (In_single k p) = Some k"
| "owner (In_final k p) = Some k"
| "owner _ = None"

section \<open>The code\<close>

definition co_main_step :: "co_main_pc \<Rightarrow> activation list \<Rightarrow> co_state \<Rightarrow> co_state option" where
  "co_main_step p rest s =
     (let f = co_frames s in
      case p of
        Co_make \<Rightarrow> Some (goto_act (In_main Co_resume) rest (make_task f) s)
      | Co_resume \<Rightarrow> Some (call_act (In_task T_loop) (In_main Co_destroy # rest) (resume_task f) s)
      | Co_destroy \<Rightarrow> Some (goto_act (In_main Co_done) rest (destroy_task f) s)
      | Co_done \<Rightarrow> None)"

definition co_task_step :: "int \<Rightarrow> task_pc \<Rightarrow> activation list \<Rightarrow> co_state \<Rightarrow> co_state" where
  "co_task_step count p rest s =
     (let f = co_frames s; k = current_single f in
      case p of
        T_loop \<Rightarrow> (let (p, f) = task_head count f in goto_act (In_task p) rest f s)
      | T_handle \<Rightarrow> goto_act (In_task T_await) rest (get_handle_task f) s
      | T_await \<Rightarrow> goto_act (In_awaiter k Aw_save) rest (suspend_task At_await f) s
      | T_resumed \<Rightarrow>
          goto_act (In_task T_loop) rest (task_iteration_end f)
            (s\<lparr>destroyed_in_use := destroyed_in_use s @ (if Some k \<in> owner ` set rest then [k] else [])\<rparr>)
      | T_return \<Rightarrow> ret_act rest (suspend_task Final f) s)"

text \<open>
  The awaiter of \<^verbatim>\<open>SyncTask\<close> without \<^verbatim>\<open>SYMMETRIC_EXTRA\<close>: it saves the task's handle and resumes the
  single task; then it answers nothing (the task stays suspended), or with \<^verbatim>\<open>SYMMETRIC\<close> whether to
  suspend.
\<close>

definition sync_await_suspend :: "bool \<Rightarrow> nat \<Rightarrow> await_pc \<Rightarrow> activation list \<Rightarrow> co_state \<Rightarrow> co_state" where
  "sync_await_suspend symmetric k p rest s =
     (let f = co_frames s in
      case p of
        Aw_save \<Rightarrow> goto_act (In_awaiter k Aw_resume) rest (with_single k (\<lambda>sg. sg\<lparr>sg_task_handle := True\<rparr>) f) s
      | Aw_resume \<Rightarrow> call_act (In_single k Sg_handle) (In_awaiter k Aw_back # rest) (resume_single k f) s
      | Aw_back \<Rightarrow>
          if symmetric
          then let done = sg_done (singles f ! k); f = with_single k (\<lambda>sg. sg\<lparr>sg_done := True\<rparr>) f
               in if done then goto_act (In_task T_resumed) rest (resume_task f) s
                  else ret_act rest f s
          else ret_act rest f s)"

text \<open>The awaiter of \<^verbatim>\<open>SyncTransTask\<close> saves the handle and transfers to the single task.\<close>

definition trans_await_suspend :: "nat \<Rightarrow> activation list \<Rightarrow> co_state \<Rightarrow> co_state" where
  "trans_await_suspend k rest s =
     (let f = with_single k (\<lambda>sg. sg\<lparr>sg_task_handle := True\<rparr>) (co_frames s)
      in goto_act (In_single k Sg_handle) rest (resume_single k f) s)"

definition co_await_step :: "build \<Rightarrow> nat \<Rightarrow> await_pc \<Rightarrow> activation list \<Rightarrow> co_state \<Rightarrow> co_state" where
  "co_await_step b k p rest s =
     (if b = Transfer then trans_await_suspend k rest s else sync_await_suspend (b = Ready) k p rest s)"

definition co_single_step :: "nat \<Rightarrow> single_pc \<Rightarrow> activation list \<Rightarrow> co_state \<Rightarrow> co_state" where
  "co_single_step k p rest s =
     (let f = co_frames s in
      case p of
        Sg_handle \<Rightarrow> goto_act (In_single k Sg_return) rest (get_handle_single k f) s
      | Sg_return \<Rightarrow> goto_act (In_final k Fa_start) rest (suspend_single k Final f) s)"

text \<open>
  The three final awaiters: one resumes the task if there is a handle, one only if the flag was
  up, one transfers to the task; a transfer to a null handle is undefined.
\<close>

definition resume_awaiter :: "nat \<Rightarrow> activation list \<Rightarrow> co_state \<Rightarrow> co_state" where
  "resume_awaiter k rest s =
     (let f = with_single k (\<lambda>sg. sg) (co_frames s); task_h = sg_task_handle (singles f ! k)
      in if task_h then call_act (In_task T_resumed) (In_final k Fa_back # rest) (resume_task f) s
         else ret_act rest f s)"

definition ready_resume_awaiter :: "nat \<Rightarrow> activation list \<Rightarrow> co_state \<Rightarrow> co_state" where
  "ready_resume_awaiter k rest s =
     (let done = sg_done (singles (co_frames s) ! k);
          f = with_single k (\<lambda>sg. sg\<lparr>sg_done := True\<rparr>) (co_frames s);
          task_handle = sg_task_handle (singles f ! k)
      in if done \<and> task_handle
         then call_act (In_task T_resumed) (In_final k Fa_back # rest) (resume_task f) s
         else ret_act rest f s)"

definition symmetric_trans_final_awaiter :: "nat \<Rightarrow> activation list \<Rightarrow> co_state \<Rightarrow> co_state" where
  "symmetric_trans_final_awaiter k rest s =
     (let f = with_single k (\<lambda>sg. sg) (co_frames s)
      in goto_act (In_task T_resumed) rest
           (if sg_task_handle (singles f ! k) then resume_task f else f\<lparr>fr_ub := True\<rparr>) s)"

definition co_final_step :: "build \<Rightarrow> nat \<Rightarrow> final_pc \<Rightarrow> activation list \<Rightarrow> co_state \<Rightarrow> co_state" where
  "co_final_step b k p rest s =
     (case p of
        Fa_start \<Rightarrow>
          (case finish_body (single_promise b) False of
             Some Resume_awaiter \<Rightarrow> resume_awaiter k rest s
           | Some Ready_resume_awaiter \<Rightarrow> ready_resume_awaiter k rest s
           | Some Symmetric_trans_final_awaiter \<Rightarrow> symmetric_trans_final_awaiter k rest s
           | _ \<Rightarrow> ret_act rest (co_frames s) s)
      | Fa_back \<Rightarrow> ret_act rest (co_frames s) s)"

lemma co_final_step_eq:
  "co_final_step b k p rest s =
     (case p of
        Fa_start \<Rightarrow>
          (case b of
             Nested \<Rightarrow> resume_awaiter k rest s
           | Ready \<Rightarrow> ready_resume_awaiter k rest s
           | Transfer \<Rightarrow> symmetric_trans_final_awaiter k rest s)
      | Fa_back \<Rightarrow> ret_act rest (co_frames s) s)"
  by (cases b) (simp_all add: co_final_step_def single_promise_def split: final_pc.splits)

definition co_step :: "build \<Rightarrow> int \<Rightarrow> co_state \<Rightarrow> co_state option" where
  "co_step b count s =
     (case co_stack s of
        [] \<Rightarrow> None
      | In_main p # rest \<Rightarrow> co_main_step p rest s
      | In_task p # rest \<Rightarrow> Some (co_task_step count p rest s)
      | In_awaiter k p # rest \<Rightarrow> Some (co_await_step b k p rest s)
      | In_single k p # rest \<Rightarrow> Some (co_single_step k p rest s)
      | In_final k p # rest \<Rightarrow> Some (co_final_step b k p rest s))"

fun co_run :: "build \<Rightarrow> int \<Rightarrow> nat \<Rightarrow> co_state \<Rightarrow> co_state option" where
  "co_run b count 0 s = Some s"
| "co_run b count (Suc n) s = (case co_step b count s of None \<Rightarrow> None | Some s \<Rightarrow> co_run b count n s)"

section \<open>Runs\<close>

definition co_reaches :: "build \<Rightarrow> int \<Rightarrow> co_state \<Rightarrow> co_state \<Rightarrow> bool" where
  "co_reaches b count s s' \<longleftrightarrow> (\<exists>n. co_run b count n s = Some s')"

lemma co_reaches_refl: "co_reaches b count s s"
  unfolding co_reaches_def by (rule exI [of _ 0]) simp

lemma co_reaches_step:
  "co_step b count s = Some t \<Longrightarrow> co_reaches b count t u \<Longrightarrow> co_reaches b count s u"
  unfolding co_reaches_def by (metis co_run.simps(2) option.simps(5))

lemma co_run_add: "co_run b count m s = Some t \<Longrightarrow> co_run b count (m + n) s = co_run b count n t"
  by (induction m arbitrary: s) (auto split: option.splits)

lemma co_reaches_trans [trans]:
  "co_reaches b count s t \<Longrightarrow> co_reaches b count t u \<Longrightarrow> co_reaches b count s u"
  unfolding co_reaches_def by (metis co_run_add)

text \<open>What an iteration leaves behind, and the state at the loop condition after \<open>j\<close> iterations.\<close>

definition gone :: "build \<Rightarrow> single_frame" where
  "gone b = \<lparr>sg_point = Destroyed, sg_task_handle = True, sg_done = (b = Ready), sg_worker_finished = False\<rparr>"

definition frames_after :: "build \<Rightarrow> nat \<Rightarrow> frames" where
  "frames_after b j =
     \<lparr>task_point = Running, task_i = 1 + int j, singles = replicate j (gone b), fr_ub = False\<rparr>"

fun nested_stack :: "nat \<Rightarrow> activation list" where
  "nested_stack 0 = []"
| "nested_stack (Suc j) = In_final j Fa_back # In_awaiter j Aw_back # nested_stack j"

definition at_loop :: "build \<Rightarrow> nat \<Rightarrow> co_state" where
  "at_loop b j =
     \<lparr>co_frames = frames_after b j,
      co_stack = In_task T_loop # (if b = Nested then nested_stack j else []) @ [In_main Co_destroy],
      g_stack_depth = (if b = Nested then 2 * int j + 1 else 1),
      max_depth = (case b of Nested \<Rightarrow> 2 * int j + 1 | Ready \<Rightarrow> if j = 0 then 1 else 2 | Transfer \<Rightarrow> 1),
      destroyed_in_use = (if b = Nested then [0..<j] else [])\<rparr>"

lemmas awaiter_defs = co_await_step_def sync_await_suspend_def trans_await_suspend_def
  co_final_step_eq resume_awaiter_def ready_resume_awaiter_def symmetric_trans_final_awaiter_def

lemmas co_step_defs = co_step_def co_main_step_def co_task_step_def awaiter_defs
  co_single_step_def goto_act_def call_act_def ret_act_def

lemmas frame_defs = with_single_def resume_single_def resume_task_def destroy_single_def
  destroy_task_def current_single_def make_single_task_def task_head_def get_handle_task_def
  get_handle_single_def task_iteration_end_def suspend_task_def suspend_single_def alive_def
  fresh_single_def make_task_def no_frames_def

lemma iteration:
  assumes "int j < count"
  shows "co_reaches b count (at_loop b j) (at_loop b (Suc j))"
proof -
  have "co_run b count (case b of Nested \<Rightarrow> 9 | Ready \<Rightarrow> 10 | Transfer \<Rightarrow> 8) (at_loop b j) =
      Some (at_loop b (Suc j))"
    using assms
    by (cases b) (simp_all add: eval_nat_numeral co_step_defs frame_defs at_loop_def frames_after_def
        gone_def nth_append list_update_append replicate_append_same)
  then show ?thesis unfolding co_reaches_def by blast
qed

lemma iterations: "int j \<le> count \<Longrightarrow> co_reaches b count (at_loop b 0) (at_loop b j)"
proof (induction j)
  case (Suc j)
  then have "co_reaches b count (at_loop b 0) (at_loop b j)" by simp
  also have "co_reaches b count (at_loop b j) (at_loop b (Suc j))" using Suc.prems by (intro iteration) simp
  finally show ?case .
qed (simp add: co_reaches_refl)

lemma first_resume: "co_reaches b count co_start (at_loop b 0)"
proof -
  have "co_run b count 2 co_start = Some (at_loop b 0)"
    by (cases b) (simp_all add: eval_nat_numeral co_step_defs frame_defs co_start_def at_loop_def frames_after_def)
  then show ?thesis unfolding co_reaches_def by blast
qed

text \<open>Out of the nested calls, whose single tasks are destroyed by then.\<close>

lemma unwind_nested:
  "co_reaches Nested count
     (s\<lparr>co_stack := nested_stack j @ rest\<rparr>)
     (s\<lparr>co_stack := rest, g_stack_depth := g_stack_depth s - 2 * int j\<rparr>)"
proof (induction j arbitrary: s)
  case 0
  have "s\<lparr>co_stack := rest, g_stack_depth := g_stack_depth s\<rparr> = s\<lparr>co_stack := rest\<rparr>" by simp
  then show ?case by (simp add: co_reaches_refl)
next
  case (Suc j)
  let ?t = "s\<lparr>g_stack_depth := g_stack_depth s - 2, co_stack := nested_stack j @ rest\<rparr>"
  have "co_run Nested count 2 (s\<lparr>co_stack := nested_stack (Suc j) @ rest\<rparr>) = Some ?t"
    by (simp add: eval_nat_numeral co_step_defs)
  then have "co_reaches Nested count (s\<lparr>co_stack := nested_stack (Suc j) @ rest\<rparr>) ?t"
    unfolding co_reaches_def by blast
  also have "co_reaches Nested count ?t
      (s\<lparr>co_stack := rest, g_stack_depth := g_stack_depth s - 2 * int (Suc j)\<rparr>)"
    using Suc.IH [of "s\<lparr>g_stack_depth := g_stack_depth s - 2\<rparr>"] by (simp add: algebra_simps)
  finally show ?case .
qed

text \<open>The end of \<^verbatim>\<open>main\<close>.\<close>

definition co_end :: "build \<Rightarrow> nat \<Rightarrow> co_state" where
  "co_end b n = (at_loop b n)\<lparr>co_frames := (frames_after b n)\<lparr>task_point := Destroyed\<rparr>,
     co_stack := [In_main Co_done], g_stack_depth := 0\<rparr>"

lemma last_return:
  assumes "count \<le> int n"
  shows "co_reaches b count (at_loop b n) (co_end b n)"
proof -
  let ?rest = "(if b = Nested then nested_stack n else []) @ [In_main Co_destroy]"
  let ?f = "(frames_after b n)\<lparr>task_point := Final\<rparr>"
  let ?t = "(at_loop b n)\<lparr>co_frames := ?f, co_stack := ?rest,
      g_stack_depth := g_stack_depth (at_loop b n) - 1\<rparr>"
  let ?u = "(at_loop b n)\<lparr>co_frames := ?f, co_stack := [In_main Co_destroy], g_stack_depth := 0\<rparr>"
  have "co_run b count 2 (at_loop b n) = Some ?t"
    using assms by (simp add: eval_nat_numeral co_step_defs frame_defs at_loop_def frames_after_def)
  then have "co_reaches b count (at_loop b n) ?t" unfolding co_reaches_def by blast
  also have "co_reaches b count ?t ?u"
  proof (cases "b = Nested")
    case True
    then show ?thesis using unwind_nested [where s = ?t and j = n and rest = "[In_main Co_destroy]"]
      by (simp add: at_loop_def)
  next
    case False
    then show ?thesis by (simp add: at_loop_def co_reaches_refl)
  qed
  also have "co_reaches b count ?u (co_end b n)"
  proof -
    have "co_run b count 1 ?u = Some (co_end b n)"
      by (simp add: co_end_def co_step_defs frame_defs frames_after_def)
    then show ?thesis unfolding co_reaches_def by blast
  qed
  finally show ?thesis .
qed

lemma whole_run: "co_reaches b count co_start (co_end b (nat count))"
proof -
  have "co_reaches b count co_start (at_loop b 0)" by (rule first_resume)
  also have "co_reaches b count (at_loop b 0) (at_loop b (nat count))"
  proof (cases "0 \<le> count")
    case True
    then show ?thesis by (intro iterations) simp
  next
    case False
    then show ?thesis by (simp add: co_reaches_refl)
  qed
  also have "co_reaches b count (at_loop b (nat count)) (co_end b (nat count))"
    by (rule last_return) simp
  finally show ?thesis .
qed

section \<open>Every state of a run\<close>

fun co_act :: "build \<Rightarrow> int \<Rightarrow> unit \<Rightarrow> co_state \<Rightarrow> co_state option" where
  "co_act b count _ s = co_step b count s"

abbreviation co_init :: "co_state \<Rightarrow> bool" where
  "co_init s \<equiv> s = co_start"

text \<open>The bottom of the stack is \<^verbatim>\<open>main\<close>, and the tracker counts the calls above it.\<close>

fun stack_ok :: "activation list \<Rightarrow> bool" where
  "stack_ok [] \<longleftrightarrow> False"
| "stack_ok [a] \<longleftrightarrow> (\<exists>p. a = In_main p)"
| "stack_ok (a # b # rest) \<longleftrightarrow> (\<forall>p. a \<noteq> In_main p) \<and> stack_ok (b # rest)"

definition tracker_inv :: "co_state \<Rightarrow> bool" where
  "tracker_inv s \<longleftrightarrow> stack_ok (co_stack s) \<and> g_stack_depth s = int (length (co_stack s)) - 1 \<and>
     g_stack_depth s \<le> max_depth s"

lemma stack_ok_Cons: "(\<forall>p. a \<noteq> In_main p) \<Longrightarrow> stack_ok (a # rest) \<longleftrightarrow> stack_ok rest"
  by (cases rest) auto

lemma stack_ok_main: "stack_ok (In_main p # rest) \<longleftrightarrow> rest = []"
  by (cases rest) auto

lemma tracker_goto: "stack_ok (a # rest) \<Longrightarrow> length (co_stack s) = Suc (length rest) \<Longrightarrow>
    tracker_inv s \<Longrightarrow> tracker_inv (goto_act a rest f s)"
  by (simp add: tracker_inv_def goto_act_def)

lemma tracker_call: "stack_ok (a # rest) \<Longrightarrow> length (co_stack s) = length rest \<Longrightarrow>
    tracker_inv s \<Longrightarrow> tracker_inv (call_act a rest f s)"
  by (simp add: tracker_inv_def call_act_def)

lemma tracker_ret: "stack_ok rest \<Longrightarrow> length (co_stack s) = Suc (length rest) \<Longrightarrow>
    tracker_inv s \<Longrightarrow> tracker_inv (ret_act rest f s)"
  by (simp add: tracker_inv_def ret_act_def)

lemma tracker_history: "tracker_inv (s\<lparr>destroyed_in_use := d\<rparr>) \<longleftrightarrow> tracker_inv s"
  by (simp add: tracker_inv_def)

lemmas tracker_moves = tracker_goto tracker_call tracker_ret

lemma tracker_step:
  assumes inv: "tracker_inv s" and step: "co_step b count s = Some s'"
  shows "tracker_inv s'"
proof -
  from step obtain a rest where st: "co_stack s = a # rest" by (auto simp: co_step_def split: list.splits)
  with inv have ok: "stack_ok (a # rest)" by (simp add: tracker_inv_def)
  show ?thesis
  proof (cases a)
    case (In_main p)
    with step st ok inv show ?thesis
      by (auto simp: co_step_def co_main_step_def Let_def stack_ok_main stack_ok_Cons
          intro!: tracker_moves split: co_main_pc.splits)
  next
    case (In_task p)
    with step st ok inv show ?thesis
      by (auto simp: co_step_def co_task_step_def Let_def stack_ok_Cons tracker_history
          intro!: tracker_moves split: task_pc.splits prod.splits)
  next
    case (In_awaiter k p)
    with step st ok inv show ?thesis
      by (auto simp: co_step_def awaiter_defs Let_def stack_ok_Cons
          intro!: tracker_moves split: await_pc.splits if_splits)
  next
    case (In_single k p)
    with step st ok inv show ?thesis
      by (auto simp: co_step_def co_single_step_def Let_def stack_ok_Cons
          intro!: tracker_moves split: single_pc.splits)
  next
    case (In_final k p)
    with step st ok inv show ?thesis
      by (auto simp: co_step_def awaiter_defs Let_def stack_ok_Cons
          intro!: tracker_moves split: final_pc.splits build.splits if_splits)
  qed
qed

interpretation tracker: safe_system "co_act b count" co_init tracker_inv for b count
proof unfold_locales
  show "co_init s \<Longrightarrow> tracker_inv s" for s by (simp add: tracker_inv_def co_start_def)
  show "tracker_inv s \<Longrightarrow> co_act b count c s = Some s' \<Longrightarrow> tracker_inv s'" for s c s'
    by (simp add: tracker_step)
qed

text \<open>What can only grow: the depth reached, the loop variable, and undefined behaviour stays.\<close>

definition grows :: "co_state \<Rightarrow> co_state \<Rightarrow> bool" where
  "grows s s' \<longleftrightarrow> max_depth s \<le> max_depth s' \<and> (fr_ub (co_frames s) \<longrightarrow> fr_ub (co_frames s'))"

lemma fr_ub_mono [simp]:
  "fr_ub f \<Longrightarrow> fr_ub (with_single k g f)" "fr_ub f \<Longrightarrow> fr_ub (resume_single k f)"
  "fr_ub f \<Longrightarrow> fr_ub (resume_task f)" "fr_ub f \<Longrightarrow> fr_ub (destroy_single k f)"
  "fr_ub f \<Longrightarrow> fr_ub (destroy_task f)" "fr_ub f \<Longrightarrow> fr_ub (make_single_task f)"
  "fr_ub f \<Longrightarrow> fr_ub (get_handle_task f)" "fr_ub f \<Longrightarrow> fr_ub (get_handle_single k f)"
  "fr_ub f \<Longrightarrow> fr_ub (task_iteration_end f)" "fr_ub f \<Longrightarrow> fr_ub (suspend_task p f)"
  "fr_ub f \<Longrightarrow> fr_ub (suspend_single k p f)" "fr_ub f \<Longrightarrow> fr_ub (make_task f)"
  by (simp_all add: frame_defs)


lemma grows_goto: "(fr_ub (co_frames s) \<Longrightarrow> fr_ub f) \<Longrightarrow> grows s (goto_act a rest f s)"
  by (simp add: grows_def goto_act_def)

lemma grows_call: "(fr_ub (co_frames s) \<Longrightarrow> fr_ub f) \<Longrightarrow> grows s (call_act a rest f s)"
  by (simp add: grows_def call_act_def)

lemma grows_ret: "(fr_ub (co_frames s) \<Longrightarrow> fr_ub f) \<Longrightarrow> grows s (ret_act rest f s)"
  by (simp add: grows_def ret_act_def)

lemma grows_history: "grows (s\<lparr>destroyed_in_use := d\<rparr>) t \<longleftrightarrow> grows s t"
  by (simp add: grows_def)

lemma grows_goto_history:
  "(fr_ub (co_frames s) \<Longrightarrow> fr_ub f) \<Longrightarrow> grows s (goto_act a rest f (s\<lparr>destroyed_in_use := d\<rparr>))"
  by (simp add: grows_def goto_act_def)

lemmas grows_moves = grows_goto grows_call grows_ret grows_goto_history

lemma fr_ub_task_head: "fr_ub f \<Longrightarrow> fr_ub (snd (task_head count f))"
  by (simp add: task_head_def)

lemma grows_step:
  assumes step: "co_step b count s = Some s'"
  shows "grows s s'"
proof -
  from step obtain a rest where st: "co_stack s = a # rest" by (auto simp: co_step_def split: list.splits)
  show ?thesis
  proof (cases a)
    case (In_main p)
    with step st show ?thesis
      by (auto simp: co_step_def co_main_step_def Let_def intro!: grows_moves split: co_main_pc.splits)
  next
    case (In_task p)
    with step st show ?thesis
      by (auto simp: co_step_def co_task_step_def Let_def split_beta fr_ub_task_head
          intro!: grows_moves split: task_pc.splits)
  next
    case (In_awaiter k p)
    with step st show ?thesis
      by (auto simp: co_step_def awaiter_defs Let_def intro!: grows_moves
          split: await_pc.splits if_splits)
  next
    case (In_single k p)
    with step st show ?thesis
      by (auto simp: co_step_def co_single_step_def Let_def intro!: grows_moves split: single_pc.splits)
  next
    case (In_final k p)
    with step st show ?thesis
      by (auto simp: co_step_def awaiter_defs Let_def intro!: grows_moves
          split: final_pc.splits build.splits if_splits)
  qed
qed

lemma grows_run: "co_run b count n s = Some s' \<Longrightarrow> grows s s'"
proof (induction n arbitrary: s)
  case (Suc n)
  then obtain t where "co_step b count s = Some t" "co_run b count n t = Some s'"
    by (auto split: option.splits)
  with Suc.IH [of t] grows_step [of b count s t] show ?case by (auto simp: grows_def)
qed (simp add: grows_def)

text \<open>The run is deterministic and ends, so every reachable state is on the way to its end.\<close>

lemma co_run_snoc: "co_run b count n s = Some t \<Longrightarrow> co_run b count (Suc n) s = co_step b count t"
  using co_run_add [of b count n s t 1] by (auto split: option.splits)

lemma reachable_co_run:
  "reachable (co_act b count) co_init s \<Longrightarrow> \<exists>m. co_run b count m co_start = Some s"
proof (induction rule: reachable.induct)
  case (reachable_init s)
  then show ?case by (intro exI [of _ 0]) simp
next
  case (reachable_act s c s')
  then show ?case using co_run_snoc by (metis co_act.simps)
qed

lemma end_stuck: "co_step b count (co_end b n) = None"
  by (simp add: co_step_defs co_end_def)

lemma reachable_to_end:
  assumes "reachable (co_act b count) co_init s"
  shows "co_reaches b count s (co_end b (nat count))"
proof -
  from assms obtain m where m: "co_run b count m co_start = Some s" using reachable_co_run by blast
  obtain n where n: "co_run b count n co_start = Some (co_end b (nat count))"
    using whole_run unfolding co_reaches_def by blast
  have "m \<le> n"
  proof (rule ccontr)
    assume "\<not> m \<le> n"
    then obtain d where "m = n + Suc d" using less_imp_Suc_add [of n m] by auto
    with co_run_add [OF n, of "Suc d"] m end_stuck show False by simp
  qed
  with co_run_add [OF m, of "n - m"] n show ?thesis unfolding co_reaches_def by auto
qed

section \<open>Properties\<close>

text \<open>C17: the three programs run to the end of \<^verbatim>\<open>main\<close>, for every number of single tasks. No handle
  is misused on the way: no coroutine is resumed that is not suspended, none is destroyed while it
  runs, no destroyed promise is touched. Every single task has been destroyed, in the order of
  creation, and so has the task; the depth \<^verbatim>\<open>TRACK_RESUME\<close> counts is 0 again. The programs differ in
  the depth they need: two calls for each single task when resumes nest, 2 with the \<^verbatim>\<open>done_\<close> flag, 1
  with symmetric transfer. They also differ in what the comment in \<^verbatim>\<open>ReadyResumeAwaiter\<close> calls a
  use-after-free: that the task, resumed inside the \<^verbatim>\<open>resume()\<close> of a single task, destroys the frame
  of this single task while that call is still unwinding. Nested resumes do this to every single
  task, the other two to none.\<close>

theorem coroutine_programs_run_to_end:
  "\<exists>n s. co_run b count n co_start = Some s \<and> co_stack s = [In_main Co_done] \<and>
     \<not> fr_ub (co_frames s) \<and> singles (co_frames s) = replicate (nat count) (gone b) \<and>
     task_point (co_frames s) = Destroyed \<and> g_stack_depth s = 0 \<and>
     max_depth s = (case b of Nested \<Rightarrow> 2 * int (nat count) + 1
                    | Ready \<Rightarrow> if count \<le> 0 then 1 else 2 | Transfer \<Rightarrow> 1) \<and>
     destroyed_in_use s = (if b = Nested then [0..<nat count] else [])"
proof -
  obtain n where "co_run b count n co_start = Some (co_end b (nat count))"
    using whole_run unfolding co_reaches_def by blast
  then show ?thesis
    by (intro exI [of _ n] exI [of _ "co_end b (nat count)"])
       (cases b, simp_all add: co_end_def at_loop_def frames_after_def)
qed


text \<open>C33: \<^verbatim>\<open>TRACK_RESUME\<close> counts the calls. At every moment \<^verbatim>\<open>g_stack_depth\<close> is the number of
  \<^verbatim>\<open>resume()\<close> calls on the stack, it is never negative and never exceeds the bound of the program,
  so for less than \<open>2 ^ 30\<close> single tasks it cannot overflow an \<^verbatim>\<open>int\<close>; and at no moment has a handle
  been misused.\<close>

theorem stack_depth_tracked:
  assumes "reachable (co_act b count) co_init s"
  shows "g_stack_depth s = int (length (co_stack s)) - 1 \<and> 0 \<le> g_stack_depth s \<and>
    g_stack_depth s \<le> (case b of Nested \<Rightarrow> 2 * int (nat count) + 1 | Ready \<Rightarrow> 2 | Transfer \<Rightarrow> 1) \<and>
    (if count < 2 ^ 30 then g_stack_depth s < 2 ^ 31 else True) \<and> \<not> fr_ub (co_frames s)"
proof -
  have inv: "tracker_inv s" using assms by (rule tracker.reachable_inv)
  then have "co_stack s \<noteq> []" by (auto simp: tracker_inv_def)
  then have "0 < length (co_stack s)" by simp
  with inv have d: "g_stack_depth s = int (length (co_stack s)) - 1" "0 \<le> g_stack_depth s"
    "g_stack_depth s \<le> max_depth s" by (simp_all add: tracker_inv_def)
  from reachable_to_end [OF assms] have "grows s (co_end b (nat count))"
    unfolding co_reaches_def using grows_run by blast
  then have "max_depth s \<le> max_depth (co_end b (nat count))" and ub: "\<not> fr_ub (co_frames s)"
    by (auto simp: grows_def co_end_def frames_after_def)
  then have "max_depth s \<le> (case b of Nested \<Rightarrow> 2 * int (nat count) + 1 | Ready \<Rightarrow> 2 | Transfer \<Rightarrow> 1)"
    by (cases b) (auto simp: co_end_def at_loop_def split: if_splits)
  moreover have "count < 2 ^ 30 \<Longrightarrow> int (nat count) < 2 ^ 30" by simp
  ultimately show ?thesis using d ub by (cases b) auto
qed

lemma co_run_reachable:
  assumes "co_run b count n co_start = Some s"
  shows "reachable (co_act b count) co_init s"
proof -
  have "run_sched (co_act b count) (replicate n ()) s = co_run b count n s" for n s
    by (induction n arbitrary: s) (simp_all split: option.split)
  with assms show ?thesis using run_sched_from_init [where init = co_init, OF refl] by metis
qed

definition co_example :: co_state where
  "co_example = the (co_run Nested 3 22 co_start)"

theorem stack_depth_tracked_witness:
  "reachable (co_act Nested 3) co_init co_example \<and> g_stack_depth co_example = 5"
proof -
  have "case co_run Nested 3 22 co_start of None \<Rightarrow> False | Some s \<Rightarrow> length (co_stack s) = 6" by code_simp
  then have ex: "co_run Nested 3 22 co_start = Some co_example" and l: "length (co_stack co_example) = 6"
    by (auto simp: co_example_def simp del: co_run.simps split: option.splits)
  have r: "reachable (co_act Nested 3) co_init co_example"
    using ex by (rule co_run_reachable)
  from stack_depth_tracked [OF r] r l show ?thesis by simp
qed


text \<open>
  With the \<^verbatim>\<open>done_\<close> flag: what the stack looks like. While the single task of an iteration has not
  reached its final awaiter its flag is down, and the awaiter finds it up when its resume returns.
\<close>

definition flag_down :: "frames \<Rightarrow> nat \<Rightarrow> bool" where
  "flag_down f k \<longleftrightarrow> alive f k \<and> \<not> sg_done (singles f ! k)"

inductive ready_ok :: "frames \<Rightarrow> activation list \<Rightarrow> bool" where
  main: "ready_ok f [In_main p]"
| task: "(p = T_handle \<or> p = T_await \<Longrightarrow> flag_down f (current_single f)) \<Longrightarrow>
    ready_ok f [In_task p, In_main q]"
| save: "p \<noteq> Aw_back \<Longrightarrow> flag_down f k \<Longrightarrow> ready_ok f [In_awaiter k p, In_main q]"
| returned: "alive f k \<Longrightarrow> sg_done (singles f ! k) \<Longrightarrow> ready_ok f [In_awaiter k Aw_back, In_main q]"
| single: "flag_down f k \<Longrightarrow> ready_ok f [In_single k p, In_awaiter k Aw_back, In_main q]"
| final: "flag_down f k \<Longrightarrow> ready_ok f [In_final k Fa_start, In_awaiter k Aw_back, In_main q]"

inductive_simps ready_ok_simps:
  "ready_ok f [In_main p]" "ready_ok f [In_task p, In_main q]" "ready_ok f [In_awaiter k p, In_main q]"
  "ready_ok f [In_single k p, In_awaiter j r, In_main q]" "ready_ok f [In_final k p, In_awaiter j r, In_main q]"

definition ready_inv :: "co_state \<Rightarrow> bool" where
  "ready_inv s \<longleftrightarrow> ready_ok (co_frames s) (co_stack s)"

lemma flag_down_simps [simp]:
  "flag_down (f\<lparr>fr_ub := u\<rparr>) k \<longleftrightarrow> flag_down f k" "flag_down (f\<lparr>task_point := p\<rparr>) k \<longleftrightarrow> flag_down f k"
  "current_single (f\<lparr>fr_ub := u\<rparr>) = current_single f" "current_single (f\<lparr>task_point := p\<rparr>) = current_single f"
  by (simp_all add: flag_down_def alive_def current_single_def)

lemma flag_down_keeps [simp]:
  assumes "flag_down f k"
  shows "flag_down (resume_single k f) k" "flag_down (get_handle_single k f) k"
    "flag_down (suspend_single k Final f) k" "flag_down (with_single k (\<lambda>sg. sg\<lparr>sg_task_handle := h\<rparr>) f) k"
    "flag_down (resume_task f) j \<longleftrightarrow> flag_down f j"
    "flag_down (get_handle_task f) j \<longleftrightarrow> flag_down f j"
    "flag_down (suspend_task p f) j \<longleftrightarrow> flag_down f j"
  using assms by (auto simp: flag_down_def frame_defs)

lemma current_single_keeps [simp]:
  "current_single (resume_task f) = current_single f" "current_single (get_handle_task f) = current_single f"
  "current_single (suspend_task p f) = current_single f"
  by (simp_all add: frame_defs)

lemma ready_step:
  assumes inv: "ready_inv s" and step: "co_step Ready count s = Some s'"
  shows "ready_inv s'"
proof -
  let ?f = "co_frames s"
  have "ready_ok ?f (co_stack s)" using inv by (simp add: ready_inv_def)
  then show ?thesis
  proof cases
    case (main p)
    with step show ?thesis by (cases p) (auto simp: ready_inv_def co_step_defs ready_ok_simps)
  next
    case (task p q)
    show ?thesis
    proof (cases p)
      case T_loop
      have "flag_down (make_single_task ?f) (current_single (make_single_task ?f))"
        by (simp add: flag_down_def frame_defs)
      with T_loop task step show ?thesis
        by (auto simp: ready_inv_def co_step_defs task_head_def Let_def ready_ok_simps split: if_splits)
    qed (use task step in \<open>auto simp: ready_inv_def co_step_defs Let_def ready_ok_simps\<close>)
  next
    case (save p k q)
    then show ?thesis using step by (cases p) (auto simp: ready_inv_def co_step_defs Let_def ready_ok_simps)
  next
    case (returned k q)
    then show ?thesis using step by (auto simp: ready_inv_def co_step_defs Let_def ready_ok_simps)
  next
    case (single k p q)
    then show ?thesis using step by (cases p) (auto simp: ready_inv_def co_step_defs Let_def ready_ok_simps)
  next
    case (final k q)
    then have "\<not> sg_done (singles ?f ! k)" "alive ?f k" by (simp_all add: flag_down_def)
    with final step show ?thesis
      by (auto simp: ready_inv_def co_step_defs Let_def with_single_def alive_def ready_ok_simps)
  qed
qed

interpretation ready: safe_system "co_act Ready count" co_init ready_inv for count
proof unfold_locales
  show "co_init s \<Longrightarrow> ready_inv s" for s by (simp add: ready_inv_def co_start_def ready_ok_simps)
  show "ready_inv s \<Longrightarrow> co_act Ready count c s = Some s' \<Longrightarrow> ready_inv s'" for s c s'
    by (simp add: ready_step)
qed

text \<open>The branch of the final awaiter that resumes the task is dead code without
  \<^verbatim>\<open>SYMMETRIC_EXTRA\<close>, as its comment says: in no reachable state is the program in a resume made by
  the final awaiter, since its exchange always finds the flag down; and when the awaiter exchanges,
  it always finds the flag up, so its answer is false and the task goes on at once in the same
  call.\<close>

theorem ready_final_awaiter_branch_is_dead:
  assumes "reachable (co_act Ready count) co_init s"
  shows "In_final k Fa_back \<notin> set (co_stack s) \<and>
    (hd (co_stack s) = In_final k Fa_start \<longrightarrow> \<not> sg_done (singles (co_frames s) ! k)) \<and>
    (hd (co_stack s) = In_awaiter k Aw_back \<longrightarrow> sg_done (singles (co_frames s) ! k) \<and>
       (\<exists>s'. co_step Ready count s = Some s' \<and> co_stack s' = In_task T_resumed # tl (co_stack s)))"
proof -
  let ?f = "co_frames s"
  have "ready_ok ?f (co_stack s)" using ready.reachable_inv [OF assms] by (simp add: ready_inv_def)
  then show ?thesis
    by cases (auto simp: flag_down_def co_step_defs Let_def split: if_splits)
qed

definition ready_example :: co_state where
  "ready_example = the (co_run Ready 3 10 co_start)"

theorem ready_final_awaiter_branch_is_dead_witness:
  "reachable (co_act Ready 3) co_init ready_example \<and> hd (co_stack ready_example) = In_awaiter 0 Aw_back \<and>
   sg_done (singles (co_frames ready_example) ! 0)"
proof -
  have "case co_run Ready 3 10 co_start of None \<Rightarrow> False | Some s \<Rightarrow> hd (co_stack s) = In_awaiter 0 Aw_back"
    by code_simp
  then have ex: "co_run Ready 3 10 co_start = Some ready_example"
    and h: "hd (co_stack ready_example) = In_awaiter 0 Aw_back"
    by (auto simp: ready_example_def simp del: co_run.simps split: option.splits)
  then have r: "reachable (co_act Ready 3) co_init ready_example"
    using co_run_reachable by blast
  from ready_final_awaiter_branch_is_dead [OF r, of 0] r h show ?thesis by simp
qed

end
