(* ===== verification/Coro_Race.thy ===== *)
theory Coro_Race
  imports Coro_Frames Worker
begin

text \<open>
  \<^verbatim>\<open>coroutine/symmetric_resume.cpp\<close> built with \<^verbatim>\<open>SYMMETRIC_EXTRA\<close>: the main thread runs the task, a
  thread of the worker pool resumes the single tasks, and the two race for the flag \<^verbatim>\<open>done_\<close> of each
  single task. One step is one access to what the threads share. A loop that waits for a flag is a
  step that is possible once the flag is set.
\<close>

section \<open>State\<close>

text \<open>What is submitted to the pool: resume a single task and publish that, or resume the task.\<close>

datatype pool_job = Resume_single nat | Resume_task

text \<open>Where a thread is in \<^verbatim>\<open>awaiter::await_suspend\<close> and in that of the final awaiter.\<close>

datatype race_await_pc = Ra_save | Ra_submit | Ra_poll nat | Ra_exchange | Ra_spin

datatype race_final_pc = Rf_exchange | Rf_read bool | Rf_spin | Rf_submit

text \<open>Where a thread is inside one \<^verbatim>\<open>resume()\<close> call. \<open>R_finish\<close> is after the store of \<^verbatim>\<open>g_task_finished\<close>.\<close>

datatype code_pc = R_task task_pc | R_finish | R_await nat race_await_pc
  | R_handle nat | R_return nat | R_final nat race_final_pc

text \<open>Where a thread of the pool is in its job; \<open>L_begin\<close> also when it has none.\<close>

datatype job_pc = L_begin | L_in code_pc | L_publish nat | L_end

datatype race_main_pc = Rm_start | Rm_make | Rm_resume | Rm_in code_pc | Rm_suspended | Rm_wait
  | Rm_stop | Rm_join | Rm_destroy | Rm_done

record race =
  rc_frames :: frames
  g_worker :: "pool_job pool"
  g_task_suspended :: bool
  g_task_finished :: bool
  rc_main :: race_main_pc
  rc_job :: "nat \<Rightarrow> job_pc"

definition race_start :: race where
  "race_start = \<lparr>rc_frames = no_frames, g_worker = make_pool 1, g_task_suspended = False,
     g_task_finished = False, rc_main = Rm_start, rc_job = (\<lambda>_. L_begin)\<rparr>"

section \<open>The code inside a resume\<close>

text \<open>
  A thread of the pool is inside the resume of a single task, or of the task; to destroy the frame
  then is undefined, even if it is suspended already.
\<close>

definition inside :: "pool_job \<Rightarrow> race \<Rightarrow> bool" where
  "inside j s \<longleftrightarrow> (\<exists>i \<in> set [0..<length (threads (g_worker s))].
     run_pc (threads (g_worker s) ! i) = In_task j \<and> rc_job s i \<noteq> L_end)"

definition with_frames :: "(frames \<Rightarrow> frames) \<Rightarrow> race \<Rightarrow> race" where
  "with_frames g s = s\<lparr>rc_frames := g (rc_frames s)\<rparr>"

definition race_ub :: "race \<Rightarrow> race" where
  "race_ub s = with_frames (\<lambda>f. f\<lparr>fr_ub := True\<rparr>) s"

definition race_submit :: "pool_job \<Rightarrow> race \<Rightarrow> race" where
  "race_submit j s = s\<lparr>g_worker := submit j (g_worker s)\<rparr>"

definition race_task :: "int \<Rightarrow> task_pc \<Rightarrow> race \<Rightarrow> code_pc \<times> race" where
  "race_task cnt p s =
     (let f = rc_frames s; k = current_single f in
      case p of
        T_loop \<Rightarrow> (let (p, f) = task_head cnt f in (R_task p, with_frames (\<lambda>_. f) s))
      | T_handle \<Rightarrow> (R_task T_await, with_frames get_handle_task s)
      | T_await \<Rightarrow> (R_await k Ra_save, with_frames (suspend_task At_await) s)
      | T_resumed \<Rightarrow>
          (R_task T_loop, (if inside (Resume_single k) s then race_ub else (\<lambda>s. s))
             (with_frames task_iteration_end s))
      | T_return \<Rightarrow> (R_finish, s\<lparr>g_task_finished := True\<rparr>))"

text \<open>\<^verbatim>\<open>await_suspend\<close>: None as next point says that it answers true and the resume returns.\<close>

definition race_await :: "nat \<Rightarrow> race_await_pc \<Rightarrow> race \<Rightarrow> (code_pc option \<times> race) option" where
  "race_await k p s =
     (let sg = singles (rc_frames s) ! k; s = with_frames (with_single k (\<lambda>sg. sg)) s in
      case p of
        Ra_save \<Rightarrow>
          Some (Some (R_await k Ra_submit), with_frames (with_single k (\<lambda>sg. sg\<lparr>sg_task_handle := True\<rparr>)) s)
      | Ra_submit \<Rightarrow> Some (Some (R_await k (Ra_poll 0)), race_submit (Resume_single k) s)
      | Ra_poll i \<Rightarrow>
          Some (Some (R_await k (if i < 50 \<and> \<not> sg_done sg then Ra_poll (i + 1) else Ra_exchange)), s)
      | Ra_exchange \<Rightarrow>
          Some (if sg_done sg then Some (R_await k Ra_spin) else None,
                with_frames (with_single k (\<lambda>sg. sg\<lparr>sg_done := True\<rparr>)) s)
      | Ra_spin \<Rightarrow>
          (if sg_worker_finished sg then Some (Some (R_task T_resumed), with_frames resume_task s)
           else None))"

text \<open>The final awaiter: None as next point says that the resume of the single task returns.\<close>

definition race_final :: "nat \<Rightarrow> race_final_pc \<Rightarrow> race \<Rightarrow> (code_pc option \<times> race) option" where
  "race_final k p s =
     (case p of
        Rf_exchange \<Rightarrow>
          Some (Some (R_final k (Rf_read (sg_done (singles (rc_frames s) ! k)))),
                with_frames (with_single k (\<lambda>sg. sg\<lparr>sg_done := True\<rparr>)) s)
      | Rf_read done \<Rightarrow>
          Some (if done \<and> sg_task_handle (singles (rc_frames s) ! k) then Some (R_final k Rf_spin) else None,
                with_frames (with_single k (\<lambda>sg. sg)) s)
      | Rf_spin \<Rightarrow> if g_task_suspended s then Some (Some (R_final k Rf_submit), s) else None
      | Rf_submit \<Rightarrow> Some (None, race_submit Resume_task s))"

definition code_step :: "int \<Rightarrow> code_pc \<Rightarrow> race \<Rightarrow> (code_pc option \<times> race) option" where
  "code_step cnt p s =
     (case p of
        R_task p \<Rightarrow> (let (p, s) = race_task cnt p s in Some (Some p, s))
      | R_finish \<Rightarrow> Some (None, with_frames (suspend_task Final) s)
      | R_await k p \<Rightarrow> race_await k p s
      | R_handle k \<Rightarrow> Some (Some (R_return k), with_frames (get_handle_single k) s)
      | R_return k \<Rightarrow> Some (Some (R_final k Rf_exchange), with_frames (suspend_single k Final) s)
      | R_final k p \<Rightarrow> race_final k p s)"

section \<open>The threads\<close>

definition set_main :: "race_main_pc \<Rightarrow> race \<Rightarrow> race" where
  "set_main p s = s\<lparr>rc_main := p\<rparr>"

definition set_job :: "nat \<Rightarrow> job_pc \<Rightarrow> race \<Rightarrow> race" where
  "set_job i p s = s\<lparr>rc_job := (rc_job s)(i := p)\<rparr>"

definition race_main_step :: "int \<Rightarrow> race \<Rightarrow> race option" where
  "race_main_step cnt s =
     (case rc_main s of
        Rm_start \<Rightarrow> Some (set_main Rm_make (s\<lparr>g_worker := start (g_worker s)\<rparr>))
      | Rm_make \<Rightarrow> Some (set_main Rm_resume (with_frames make_task s))
      | Rm_resume \<Rightarrow> Some (set_main (Rm_in (R_task T_loop)) (with_frames resume_task s))
      | Rm_in p \<Rightarrow>
          (case code_step cnt p s of
             None \<Rightarrow> None
           | Some (None, s) \<Rightarrow> Some (set_main Rm_suspended s)
           | Some (Some p, s) \<Rightarrow> Some (set_main (Rm_in p) s))
      | Rm_suspended \<Rightarrow> Some (set_main Rm_wait (s\<lparr>g_task_suspended := True\<rparr>))
      | Rm_wait \<Rightarrow> if g_task_finished s then Some (set_main Rm_stop s) else None
      | Rm_stop \<Rightarrow> Some (set_main Rm_join (s\<lparr>g_worker := stop (g_worker s)\<rparr>))
      | Rm_join \<Rightarrow> map_option (\<lambda>w. set_main Rm_destroy (s\<lparr>g_worker := w\<rparr>)) (join (g_worker s))
      | Rm_destroy \<Rightarrow>
          Some (set_main Rm_done ((if inside Resume_task s then race_ub else (\<lambda>s. s))
            (with_frames destroy_task s)))
      | Rm_done \<Rightarrow> None)"

text \<open>The function object a thread of the pool calls.\<close>

definition job_step :: "int \<Rightarrow> nat \<Rightarrow> pool_job \<Rightarrow> race \<Rightarrow> race option" where
  "job_step cnt i j s =
     (case rc_job s i of
        L_begin \<Rightarrow>
          Some (case j of
             Resume_single k \<Rightarrow> set_job i (L_in (R_handle k)) (with_frames (resume_single k) s)
           | Resume_task \<Rightarrow> set_job i (L_in (R_task T_resumed)) (with_frames resume_task s))
      | L_in p \<Rightarrow>
          (case code_step cnt p s of
             None \<Rightarrow> None
           | Some (None, s) \<Rightarrow>
               Some (set_job i (case j of Resume_single k \<Rightarrow> L_publish k | Resume_task \<Rightarrow> L_end) s)
           | Some (Some p, s) \<Rightarrow> Some (set_job i (L_in p) s))
      | L_publish k \<Rightarrow>
          Some (set_job i L_end (with_frames (with_single k (\<lambda>sg. sg\<lparr>sg_worker_finished := True\<rparr>)) s))
      | L_end \<Rightarrow> map_option (\<lambda>w. set_job i L_begin (s\<lparr>g_worker := w\<rparr>)) (run_step i (g_worker s)))"

definition worker_step :: "int \<Rightarrow> nat \<Rightarrow> race \<Rightarrow> race option" where
  "worker_step cnt i s =
     (if i < length (threads (g_worker s))
      then case run_pc (threads (g_worker s) ! i) of
             In_task j \<Rightarrow> job_step cnt i j s
           | _ \<Rightarrow> map_option (\<lambda>w. s\<lparr>g_worker := w\<rparr>) (run_step i (g_worker s))
      else None)"

datatype race_action = Main_moves | Worker_moves nat

fun race_act :: "int \<Rightarrow> race_action \<Rightarrow> race \<Rightarrow> race option" where
  "race_act cnt Main_moves s = race_main_step cnt s"
| "race_act cnt (Worker_moves i) s = worker_step cnt i s"


end
