(* ===== verification/Race_Inv.thy ===== *)
theory Race_Inv
  imports Coro_Race
begin

text \<open>
  The invariant of the program of \<^verbatim>\<open>Coro_Race\<close>, with the one thread its pool has: for each place
  the threads can be in together, what the queue, the flags and the frames are. It is kept by every
  step, and in each of its cases nothing undefined has happened.
\<close>

section \<open>Frames between the steps\<close>

text \<open>The frames with destroyed single tasks \<open>ds\<close> and, within an iteration, the one of this iteration.\<close>

definition frames_at :: "point \<Rightarrow> single_frame list \<Rightarrow> single_frame list \<Rightarrow> frames" where
  "frames_at p ds c = \<lparr>task_point = p, task_i = 1 + int (length ds), singles = ds @ c, fr_ub = False\<rparr>"

definition all_dead :: "single_frame list \<Rightarrow> bool" where
  "all_dead ds \<longleftrightarrow> (\<forall>x \<in> set ds. sg_point x = Destroyed)"

definition single_at :: "point \<Rightarrow> bool \<Rightarrow> bool \<Rightarrow> bool \<Rightarrow> single_frame" where
  "single_at p h d w = \<lparr>sg_point = p, sg_task_handle = h, sg_done = d, sg_worker_finished = w\<rparr>"

lemma single_at_simps [simp]:
  "sg_point (single_at p h d w) = p" "sg_task_handle (single_at p h d w) = h"
  "sg_done (single_at p h d w) = d" "sg_worker_finished (single_at p h d w) = w"
  "(single_at p h d w)\<lparr>sg_point := p'\<rparr> = single_at p' h d w"
  "(single_at p h d w)\<lparr>sg_task_handle := h'\<rparr> = single_at p h' d w"
  "(single_at p h d w)\<lparr>sg_done := d'\<rparr> = single_at p h d' w"
  "(single_at p h d w)\<lparr>sg_worker_finished := w'\<rparr> = single_at p h d w'"
  "fresh_single = single_at Initial False False False"
  by (simp_all add: single_at_def fresh_single_def)

lemma frames_at_task [simp]:
  "current_single (frames_at p ds [x]) = length ds"
  "singles (frames_at p ds c) = ds @ c"
  "suspend_task p' (frames_at p ds c) = frames_at p' ds c"
  "get_handle_task (frames_at Running ds c) = frames_at Running ds c"
  "resume_task (frames_at At_await ds c) = frames_at Running ds c"
  "resume_task (frames_at Initial ds c) = frames_at Running ds c"
  "destroy_task (frames_at Final ds c) = frames_at Destroyed ds c"
  "task_head cnt (frames_at p ds []) =
     (if int (length ds) < cnt then (T_handle, frames_at p ds [fresh_single]) else (T_return, frames_at p ds []))"
  by (simp_all add: frames_at_def current_single_def suspend_task_def get_handle_task_def resume_task_def
      destroy_task_def task_head_def make_single_task_def)

lemma frames_at_single [simp]:
  "alive (frames_at p ds [single_at q h d w]) (length ds) \<longleftrightarrow> q \<noteq> Destroyed"
  "q \<noteq> Destroyed \<Longrightarrow> with_single (length ds) g (frames_at p ds [single_at q h d w]) =
     frames_at p ds [g (single_at q h d w)]"
  by (simp_all add: frames_at_def alive_def with_single_def)

lemma frames_at_moves [simp]:
  "resume_single (length ds) (frames_at p ds [single_at Initial h d w]) = frames_at p ds [single_at Running h d w]"
  "get_handle_single (length ds) (frames_at p ds [single_at Running h d w]) = frames_at p ds [single_at Running h d w]"
  "suspend_single (length ds) Final (frames_at p ds [single_at Running h d w]) = frames_at p ds [single_at Final h d w]"
  "task_iteration_end (frames_at p ds [single_at Final h d w]) = frames_at p (ds @ [single_at Destroyed h d w]) []"
  by (simp_all add: resume_single_def get_handle_single_def suspend_single_def task_iteration_end_def
      destroy_single_def) (simp_all add: frames_at_def)

lemma all_dead_simps [simp]:
  "all_dead []" "all_dead (ds @ [x]) \<longleftrightarrow> all_dead ds \<and> sg_point x = Destroyed"
  by (auto simp: all_dead_def)

section \<open>The invariant\<close>

text \<open>
  Where the job that resumes single task \<open>k\<close> is: what the pool's thread does, the queue and the
  frame. \<open>r\<close> says that the awaiter exchanged first; then the job hands the task to the pool.
\<close>

inductive flow :: "nat \<Rightarrow> bool \<Rightarrow> bool \<Rightarrow> (pool_job \<times> job_pc) option \<Rightarrow> pool_job list \<Rightarrow> single_frame \<Rightarrow> bool"
  for k :: nat and r :: bool and susp :: bool where
  queued: "flow k r susp None [Resume_single k] (single_at Initial True r False)"
| begun: "flow k r susp (Some (Resume_single k, L_begin)) [] (single_at Initial True r False)"
| handle: "flow k r susp (Some (Resume_single k, L_in (R_handle k))) [] (single_at Running True r False)"
| return: "flow k r susp (Some (Resume_single k, L_in (R_return k))) [] (single_at Running True r False)"
| exchange: "flow k r susp (Some (Resume_single k, L_in (R_final k Rf_exchange))) [] (single_at Final True r False)"
| read: "flow k r susp (Some (Resume_single k, L_in (R_final k (Rf_read r)))) [] (single_at Final True True False)"
| spin: "r \<Longrightarrow> flow k r susp (Some (Resume_single k, L_in (R_final k Rf_spin))) [] (single_at Final True True False)"
| submit: "r \<Longrightarrow> susp \<Longrightarrow>
    flow k r susp (Some (Resume_single k, L_in (R_final k Rf_submit))) [] (single_at Final True True False)"
| publish: "(r \<Longrightarrow> susp) \<Longrightarrow> q = (if r then [Resume_task] else []) \<Longrightarrow>
    flow k r susp (Some (Resume_single k, L_publish k)) q (single_at Final True True False)"
| over: "(r \<Longrightarrow> susp) \<Longrightarrow> q = (if r then [Resume_task] else []) \<Longrightarrow>
    flow k r susp None q (single_at Final True True True)"

text \<open>Who runs the task: main before it has suspended the task once, then the pool's thread.\<close>

inductive runner :: "code_pc \<Rightarrow> race_main_pc \<Rightarrow> (pool_job \<times> job_pc) option \<Rightarrow> bool \<Rightarrow> bool" for p :: code_pc where
  by_main: "runner p (Rm_in p) None False"
| by_worker: "runner p Rm_wait (Some (Resume_task, L_in p)) True"

inductive race_ok ::
  "int \<Rightarrow> race_main_pc \<Rightarrow> (pool_job \<times> job_pc) option \<Rightarrow> pool_job list \<Rightarrow> frames \<Rightarrow> bool \<Rightarrow> bool \<Rightarrow> bool"
  for cnt :: int where
  starting: "m = Rm_start \<or> m = Rm_make \<Longrightarrow> race_ok cnt m None [] no_frames False False"
| made: "race_ok cnt Rm_resume None [] (frames_at Initial [] []) False False"
| at_head: "runner (R_task T_loop) m w susp \<Longrightarrow> all_dead ds \<Longrightarrow> length ds \<le> nat cnt \<Longrightarrow>
    race_ok cnt m w [] (frames_at Running ds []) susp False"
| at_return: "runner (R_task T_return) m w susp \<Longrightarrow> all_dead ds \<Longrightarrow> length ds = nat cnt \<Longrightarrow>
    race_ok cnt m w [] (frames_at Running ds []) susp False"
| fresh_task: "runner (R_task p) m w susp \<Longrightarrow> all_dead ds \<Longrightarrow> length ds < nat cnt \<Longrightarrow>
    p = T_handle \<or> p = T_await \<Longrightarrow>
    race_ok cnt m w [] (frames_at Running ds [single_at Initial False False False]) susp False"
| fresh_await: "runner (R_await (length ds) p) m w susp \<Longrightarrow> all_dead ds \<Longrightarrow> length ds < nat cnt \<Longrightarrow>
    p = Ra_save \<and> \<not> h \<or> p = Ra_submit \<and> h \<Longrightarrow>
    race_ok cnt m w [] (frames_at At_await ds [single_at Initial h False False]) susp False"
| main_polls: "flow (length ds) False False w q x \<Longrightarrow> all_dead ds \<Longrightarrow> length ds < nat cnt \<Longrightarrow>
    (\<exists>i. p = Ra_poll i) \<or> p = Ra_exchange \<or> p = Ra_spin \<and> sg_done x \<Longrightarrow>
    race_ok cnt (Rm_in (R_await (length ds) p)) w q (frames_at At_await ds [x]) False False"
| worker_polls: "all_dead ds \<Longrightarrow> length ds < nat cnt \<Longrightarrow> (\<exists>i. p = Ra_poll i) \<or> p = Ra_exchange \<Longrightarrow>
    race_ok cnt Rm_wait (Some (Resume_task, L_in (R_await (length ds) p))) [Resume_single (length ds)]
      (frames_at At_await ds [single_at Initial True False False]) True False"
| suspended: "flow (length ds) True susp w q x \<Longrightarrow> all_dead ds \<Longrightarrow> length ds < nat cnt \<Longrightarrow>
    m = (if susp then Rm_wait else Rm_suspended) \<Longrightarrow>
    race_ok cnt m w q (frames_at At_await ds [x]) susp False"
| taken: "all_dead ds \<Longrightarrow> length ds < nat cnt \<Longrightarrow>
    race_ok cnt Rm_wait (Some (Resume_task, L_begin)) [] (frames_at At_await ds [single_at Final True True True])
      True False"
| resumed: "runner (R_task T_resumed) m w susp \<Longrightarrow> all_dead ds \<Longrightarrow> length ds < nat cnt \<Longrightarrow>
    race_ok cnt m w [] (frames_at Running ds [single_at Final True True True]) susp False"
| main_finishes: "all_dead ds \<Longrightarrow> length ds = nat cnt \<Longrightarrow>
    race_ok cnt (Rm_in R_finish) None [] (frames_at Running ds []) False True"
| worker_finishes: "m = Rm_wait \<or> m = Rm_stop \<or> m = Rm_join \<Longrightarrow> all_dead ds \<Longrightarrow> length ds = nat cnt \<Longrightarrow>
    race_ok cnt m (Some (Resume_task, L_in R_finish)) [] (frames_at Running ds []) True True"
| finished: "m = Rm_wait \<or> m = Rm_stop \<or> m = Rm_join \<or> m = Rm_destroy \<or> m = Rm_suspended \<Longrightarrow>
    susp = (m \<noteq> Rm_suspended) \<Longrightarrow> all_dead ds \<Longrightarrow> length ds = nat cnt \<Longrightarrow>
    race_ok cnt m None [] (frames_at Final ds []) susp True"
| ended: "all_dead ds \<Longrightarrow> length ds = nat cnt \<Longrightarrow>
    race_ok cnt Rm_done None [] (frames_at Destroyed ds []) True True"

text \<open>What the one thread of the pool does, and the state of the pool itself.\<close>

definition activity :: "race \<Rightarrow> (pool_job \<times> job_pc) option" where
  "activity s =
     (case threads (g_worker s) of
        t # ts \<Rightarrow> (case run_pc t of In_task j \<Rightarrow> if rc_job s 0 = L_end then None else Some (j, rc_job s 0)
                  | _ \<Rightarrow> None)
      | [] \<Rightarrow> None)"

definition no_threads :: "race_main_pc \<Rightarrow> bool" where
  "no_threads m \<longleftrightarrow> m \<in> {Rm_start, Rm_destroy, Rm_done}"

definition team_ok :: "race_main_pc \<Rightarrow> pool_job pool_thread list \<Rightarrow> job_pc \<Rightarrow> bool" where
  "team_ok m ts p \<longleftrightarrow>
     (if no_threads m then ts = [] \<and> p = L_begin
      else \<exists>t. ts = [t] \<and> (stop_requested t \<longleftrightarrow> m = Rm_join) \<and> (run_pc t = Exited \<longrightarrow> stop_requested t) \<and>
        ((\<forall>j. run_pc t \<noteq> In_task j) \<longrightarrow> p = L_begin))"

definition race_inv :: "int \<Rightarrow> race \<Rightarrow> bool" where
  "race_inv cnt s \<longleftrightarrow> thread_count (g_worker s) = 1 \<and>
     team_ok (rc_main s) (threads (g_worker s)) (rc_job s 0) \<and>
     race_ok cnt (rc_main s) (activity s) (tasks (g_worker s)) (rc_frames s)
       (g_task_suspended s) (g_task_finished s)"


lemma move_simps [simp]:
  "rc_main (set_main p s) = p" "rc_frames (set_main p s) = rc_frames s" "g_worker (set_main p s) = g_worker s"
  "g_task_suspended (set_main p s) = g_task_suspended s" "g_task_finished (set_main p s) = g_task_finished s"
  "rc_job (set_main p s) = rc_job s" "activity (set_main p s) = activity s"
  "rc_main (set_job i q s) = rc_main s" "rc_frames (set_job i q s) = rc_frames s" "g_worker (set_job i q s) = g_worker s"
  "g_task_suspended (set_job i q s) = g_task_suspended s" "g_task_finished (set_job i q s) = g_task_finished s"
  "rc_job (set_job i q s) = (rc_job s)(i := q)"
  "rc_main (with_frames g s) = rc_main s" "rc_frames (with_frames g s) = g (rc_frames s)"
  "g_worker (with_frames g s) = g_worker s" "g_task_suspended (with_frames g s) = g_task_suspended s"
  "g_task_finished (with_frames g s) = g_task_finished s" "rc_job (with_frames g s) = rc_job s"
  "activity (with_frames g s) = activity s"
  "rc_main (race_submit j s) = rc_main s" "rc_frames (race_submit j s) = rc_frames s"
  "thread_count (g_worker (race_submit j s)) = thread_count (g_worker s)"
  "threads (g_worker (race_submit j s)) = threads (g_worker s)"
  "tasks (g_worker (race_submit j s)) = tasks (g_worker s) @ [j]"
  "g_task_suspended (race_submit j s) = g_task_suspended s" "g_task_finished (race_submit j s) = g_task_finished s"
  "rc_job (race_submit j s) = rc_job s" "activity (race_submit j s) = activity s"
  "activity (s\<lparr>g_task_suspended := b\<rparr>) = activity s" "activity (s\<lparr>g_task_finished := b\<rparr>) = activity s"
  by (simp_all add: set_main_def set_job_def with_frames_def race_submit_def submit_def activity_def
      split: list.split run_pc.split)

lemma inside_iff:
  assumes "team_ok (rc_main s) (threads (g_worker s)) (rc_job s 0)"
  shows "inside j s \<longleftrightarrow> (\<exists>p. activity s = Some (j, p))"
  using assms by (auto simp: team_ok_def inside_def activity_def split: if_splits run_pc.splits)

lemma team_ok_main: "no_threads m \<longleftrightarrow> no_threads m' \<Longrightarrow> m = Rm_join \<longleftrightarrow> m' = Rm_join \<Longrightarrow>
    team_ok m ts p \<Longrightarrow> team_ok m' ts p"
  by (auto simp: team_ok_def)

lemma inside_with_frames [simp]: "inside j (with_frames g s) \<longleftrightarrow> inside j s"
  by (simp add: inside_def)

lemmas code_defs = code_step_def race_task_def race_await_def race_final_def Let_def

inductive_simps runner_simps: "runner p (Rm_in q) w susp" "runner p Rm_wait w susp" "runner p Rm_suspended w susp"

lemma flow_single:
  assumes "flow k r susp w q x"
  shows "\<exists>p d e. x = single_at p True d e \<and> p \<noteq> Destroyed"
  using assms by cases auto

text \<open>The awaiter exchanges first, or finds the job past its own exchange.\<close>

lemma flow_raced:
  "flow k False False w q x \<Longrightarrow> \<not> sg_done x \<Longrightarrow> flow k True False w q (x\<lparr>sg_done := True\<rparr>)"
  by (erule flow.cases) (auto intro: flow.intros)

lemma flow_over:
  "flow k False False w q x \<Longrightarrow> sg_worker_finished x \<Longrightarrow> w = None \<and> q = [] \<and> x = single_at Final True True True"
  by (erule flow.cases) auto

lemma main_in_step:
  assumes inv: "race_inv cnt s" and m: "rc_main s = Rm_in p" and step: "race_main_step cnt s = Some s'"
  shows "race_inv cnt s'"
proof -
  have ok: "race_ok cnt (Rm_in p) (activity s) (tasks (g_worker s)) (rc_frames s)
      (g_task_suspended s) (g_task_finished s)" and team: "team_ok (Rm_in p) (threads (g_worker s)) (rc_job s 0)"
    and n: "thread_count (g_worker s) = 1"
    using inv m by (simp_all add: race_inv_def)
  note team' = team_ok_main [OF _ _ team]
  note ins = inside_iff [of s, unfolded m, OF team]
  have nt: "no_threads (Rm_in q) \<longleftrightarrow> False" "no_threads Rm_suspended \<longleftrightarrow> False" for q
    by (simp_all add: no_threads_def)
  note simps = race_inv_def m n race_main_step_def code_defs
  from ok show ?thesis
  proof cases
    case at_head
    then show ?thesis using step team'
      by (auto simp: simps nt runner_simps intro!: race_ok.fresh_task [OF by_main] race_ok.at_return [OF by_main]
          split: if_splits)
  next
    case at_return
    then show ?thesis using step team'
      by (auto simp: simps nt runner_simps intro!: race_ok.main_finishes)
  next
    case fresh_task
    then show ?thesis using step team'
      by (auto simp: simps nt runner_simps intro!: race_ok.fresh_task [OF by_main] race_ok.fresh_await [OF by_main])
  next
    case fresh_await
    then show ?thesis using step team'
      by (auto simp: simps nt runner_simps intro!: race_ok.fresh_await [OF by_main] race_ok.main_polls flow.queued)
  next
    case (main_polls ds x pc)
    obtain q d e where x: "x = single_at q True d e" "q \<noteq> Destroyed" using flow_single main_polls by blast
    from main_polls(8) consider (poll) i where "pc = Ra_poll i" | (exch) "pc = Ra_exchange" | (spin) "pc = Ra_spin" "d"
      using x by auto
    then show ?thesis
    proof cases
      case poll
      with main_polls x step team' show ?thesis by (auto simp: simps nt intro!: race_ok.main_polls)
    next
      case exch
      show ?thesis
      proof (cases d)
        case True
        with exch main_polls x step team' show ?thesis by (auto simp: simps nt intro!: race_ok.main_polls)
      next
        case False
        have "flow (length ds) True False (activity s) (tasks (g_worker s)) (x\<lparr>sg_done := True\<rparr>)"
          using main_polls x False by (intro flow_raced) auto
        with False exch main_polls x step team' show ?thesis
          by (auto simp: simps nt intro!: race_ok.suspended)
      qed
    next
      case spin
      with step main_polls have "sg_worker_finished x" by (auto simp: simps split: if_splits)
      with flow_over main_polls have "activity s = None" "tasks (g_worker s) = []" "x = single_at Final True True True"
        by blast+
      with spin main_polls step team' show ?thesis
        by (auto simp: simps nt intro!: race_ok.resumed [OF by_main])
    qed
  next
    case resumed
    then show ?thesis using step team' ins
      by (auto simp: simps nt runner_simps intro!: race_ok.at_head [OF by_main])
  next
    case main_finishes
    then show ?thesis using step team'
      by (auto simp: simps nt intro!: race_ok.finished)
  qed (auto split: if_splits)
qed

lemma activity_start: "rc_job s 0 = L_begin \<Longrightarrow> threads (g_worker s) = [t] \<Longrightarrow> run_pc t = At_loop \<Longrightarrow> activity s = None"
  by (simp add: activity_def)

lemma start_one:
  assumes "thread_count w = 1" and "threads w = []"
  shows "threads (start w) = [\<lparr>stop_requested = False, run_pc = At_loop\<rparr>]"
    "tasks (start w) = tasks w" "thread_count (start w) = 1"
  using assms by (simp_all add: start_def)

lemma activity_worker:
  "threads w = ts \<Longrightarrow> activity (s\<lparr>g_worker := w\<rparr>) =
     (case ts of t # _ \<Rightarrow> (case run_pc t of In_task j \<Rightarrow> if rc_job s 0 = L_end then None else Some (j, rc_job s 0)
        | _ \<Rightarrow> None) | [] \<Rightarrow> None)"
  by (simp add: activity_def split: list.split run_pc.split)

inductive_cases race_ok_startE: "race_ok cnt Rm_start w q f u v"
inductive_cases race_ok_makeE: "race_ok cnt Rm_make w q f u v"
inductive_cases race_ok_resumeE: "race_ok cnt Rm_resume w q f u v"
inductive_cases race_ok_suspendedE: "race_ok cnt Rm_suspended w q f u v"
inductive_cases race_ok_waitE: "race_ok cnt Rm_wait w q f u True"
inductive_cases race_ok_stopE: "race_ok cnt Rm_stop w q f u v"
inductive_cases race_ok_joinE: "race_ok cnt Rm_join w q f u v"
inductive_cases race_ok_destroyE: "race_ok cnt Rm_destroy w q f u v"

lemmas race_ok_mainE = race_ok_startE race_ok_makeE race_ok_resumeE race_ok_suspendedE race_ok_waitE
  race_ok_stopE race_ok_joinE race_ok_destroyE

lemma flow_resumable: "flow k True False w q x \<Longrightarrow> flow k True True w q x"
  by (erule flow.cases) (auto intro: flow.intros)

lemma main_step_race_inv:
  assumes inv: "race_inv cnt s" and step: "race_main_step cnt s = Some s'"
  shows "race_inv cnt s'"
proof (cases "\<exists>p. rc_main s = Rm_in p")
  case True
  with main_in_step [OF inv] step show ?thesis by blast
next
  case False
  have ok: "race_ok cnt (rc_main s) (activity s) (tasks (g_worker s)) (rc_frames s)
      (g_task_suspended s) (g_task_finished s)"
    and team: "team_ok (rc_main s) (threads (g_worker s)) (rc_job s 0)"
    and n: "thread_count (g_worker s) = 1"
    using inv by (simp_all add: race_inv_def)
  note simps = race_inv_def n race_main_step_def
  show ?thesis
  proof (cases "rc_main s")
    case Rm_start
    with team have "threads (g_worker s) = []" "rc_job s 0 = L_begin" by (simp_all add: team_ok_def no_threads_def)
    moreover have "race_ok cnt Rm_make None [] no_frames False False" by (simp add: race_ok.starting)
    moreover have "tasks (g_worker s) = [] \<and> rc_frames s = no_frames \<and> \<not> g_task_suspended s \<and> \<not> g_task_finished s"
      using ok unfolding Rm_start by (elim race_ok_mainE) (auto simp: runner.simps split: if_splits)
    ultimately show ?thesis using Rm_start step n
      by (auto simp: simps team_ok_def no_threads_def start_one activity_worker [OF start_one(1)])
  next
    case Rm_make
    have "activity s = None \<and> tasks (g_worker s) = [] \<and> rc_frames s = no_frames \<and> \<not> g_task_suspended s \<and> \<not> g_task_finished s"
      using ok unfolding Rm_make by (elim race_ok_mainE) (auto simp: runner.simps split: if_splits)
    moreover have "make_task no_frames = frames_at Initial [] []"
      by (simp add: make_task_def no_frames_def frames_at_def)
    ultimately show ?thesis using Rm_make step team_ok_main [OF _ _ team]
      by (auto simp: simps no_threads_def intro: race_ok.made)
  next
    case Rm_resume
    have "activity s = None \<and> tasks (g_worker s) = [] \<and> rc_frames s = frames_at Initial [] [] \<and>
        \<not> g_task_suspended s \<and> \<not> g_task_finished s"
      using ok unfolding Rm_resume by (elim race_ok_mainE) (auto simp: runner.simps split: if_splits)
    then show ?thesis using Rm_resume step team_ok_main [OF _ _ team]
      by (auto simp: simps no_threads_def intro!: race_ok.at_head [OF by_main])
  next
    case Rm_suspended
    have "race_ok cnt Rm_wait (activity s) (tasks (g_worker s)) (rc_frames s) True (g_task_finished s)"
      using ok unfolding Rm_suspended
      by (elim race_ok_mainE) (auto simp: runner.simps intro!: race_ok.suspended race_ok.finished flow_resumable
          split: if_splits)
    then show ?thesis using Rm_suspended step team_ok_main [OF _ _ team]
      by (auto simp: simps no_threads_def)
  next
    case Rm_wait
    with step have fin: "g_task_finished s" by (auto simp: race_main_step_def split: if_splits)
    have "race_ok cnt Rm_stop (activity s) (tasks (g_worker s)) (rc_frames s) (g_task_suspended s) True"
      using ok unfolding Rm_wait fin eq_True [THEN iffD2, OF fin]
      by (elim race_ok_mainE) (auto simp: runner.simps intro!: race_ok.worker_finishes race_ok.finished)
    then show ?thesis using Rm_wait step fin team_ok_main [OF _ _ team]
      by (auto simp: simps no_threads_def)
  next
    case Rm_stop
    with team obtain t where t: "threads (g_worker s) = [t]" "run_pc t \<noteq> Exited"
      "(\<forall>j. run_pc t \<noteq> In_task j) \<longrightarrow> rc_job s 0 = L_begin" by (auto simp: team_ok_def no_threads_def)
    have "race_ok cnt Rm_join (activity s) (tasks (g_worker s)) (rc_frames s) (g_task_suspended s) (g_task_finished s)"
      using ok unfolding Rm_stop
      by (elim race_ok_mainE) (auto simp: runner.simps intro!: race_ok.worker_finishes race_ok.finished split: if_splits)
    moreover have "activity (s\<lparr>g_worker := stop (g_worker s)\<rparr>) = activity s"
      using t by (simp add: activity_def stop_def split: run_pc.split)
    ultimately show ?thesis using Rm_stop step n t
      by (auto simp: simps team_ok_def no_threads_def) (simp_all add: stop_def n)
  next
    case Rm_join
    with team obtain t where t: "threads (g_worker s) = [t]" 
      "(\<forall>j. run_pc t \<noteq> In_task j) \<longrightarrow> rc_job s 0 = L_begin" by (auto simp: team_ok_def no_threads_def)
    with step Rm_join have ex: "run_pc t = Exited" "s' = set_main Rm_destroy (s\<lparr>g_worker := (g_worker s)\<lparr>threads := []\<rparr>\<rparr>)"
      by (auto simp: race_main_step_def join_def split: if_splits)
    then have "activity s = None" using t by (simp add: activity_def)
    moreover have "race_ok cnt Rm_destroy None (tasks (g_worker s)) (rc_frames s) (g_task_suspended s) (g_task_finished s)"
      using ok \<open>activity s = None\<close> unfolding Rm_join
      by (elim race_ok_mainE) (auto simp: runner.simps intro!: race_ok.finished split: if_splits)
    ultimately show ?thesis using ex t n by (simp add: simps team_ok_def no_threads_def activity_def)
  next
    case Rm_destroy
    with team have t: "threads (g_worker s) = []" by (simp add: team_ok_def no_threads_def)
    then have "\<not> inside Resume_task s" by (simp add: inside_def)
    moreover have "race_ok cnt Rm_done (activity s) (tasks (g_worker s)) (destroy_task (rc_frames s))
        (g_task_suspended s) (g_task_finished s)"
      using ok unfolding Rm_destroy
      by (elim race_ok_mainE) (auto simp: runner.simps intro!: race_ok.ended split: if_splits)
    moreover have s': "s' = set_main Rm_done (with_frames destroy_task s)"
      using step Rm_destroy calculation(1) by (simp add: race_main_step_def)
    moreover have "team_ok Rm_done (threads (g_worker s)) (rc_job s 0)"
      using team Rm_destroy by (simp add: team_ok_def no_threads_def)
    ultimately show ?thesis using n by (simp add: race_inv_def)
  qed (use False step in \<open>auto simp: race_main_step_def\<close>)
qed


text \<open>A thread of the pool takes a job, and a step of a job.\<close>

lemma flow_take: "flow k r susp None (j # q) x \<Longrightarrow>
    j = Resume_single k \<and> flow k r susp (Some (j, L_begin)) q x \<or>
    j = Resume_task \<and> r \<and> susp \<and> q = [] \<and> x = single_at Final True True True"
  by (erule flow.cases) (auto intro: flow.intros split: if_splits)

lemma take_ok:
  assumes "race_ok cnt m None (j # q) f u v"
  shows "race_ok cnt m (Some (j, L_begin)) q f u v"
  using assms
proof cases
  case (main_polls ds x p)
  then have "flow (length ds) False False (Some (j, L_begin)) q x" using flow_take by blast
  with main_polls show ?thesis by (simp add: race_ok.main_polls)
next
  case (suspended ds x)
  from flow_take [OF \<open>flow (length ds) True u None (j # q) x\<close>] show ?thesis
  proof
    assume "j = Resume_single (length ds) \<and> flow (length ds) True u (Some (j, L_begin)) q x"
    then have fl: "flow (length ds) True u (Some (j, L_begin)) q x" by (rule conjunct2)
    with suspended have "race_ok cnt m (Some (j, L_begin)) q (frames_at At_await ds [x]) u False"
      by (intro race_ok.suspended [OF fl]) simp_all
    with suspended show ?thesis by simp
  next
    assume "j = Resume_task \<and> True \<and> u \<and> q = [] \<and> x = single_at Final True True True"
    with suspended show ?thesis by (simp add: race_ok.taken)
  qed
qed

inductive_cases flow_jobE: "flow k r susp (Some (j, p)) q x"

definition job_moved :: "job_pc \<Rightarrow> race \<Rightarrow> race \<Rightarrow> bool" where
  "job_moved q s s' \<longleftrightarrow> rc_job s' = (rc_job s)(0 := q) \<and> threads (g_worker s') = threads (g_worker s) \<and>
     thread_count (g_worker s') = thread_count (g_worker s) \<and> rc_main s' = rc_main s \<and>
     g_task_suspended s' = g_task_suspended s"

lemma job_moved_simps [simp]:
  "job_moved q s (set_job 0 q s)"
  "job_moved q s (set_job 0 q (with_frames g s))"
  "job_moved q s (set_job 0 q (race_submit j s))"
  "job_moved q s (set_job 0 q (with_frames g (with_frames h s)))"
  "job_moved q s (set_job 0 q (race_submit j (with_frames g s)))"
  "job_moved q s (set_job 0 q (s\<lparr>g_task_finished := b\<rparr>))"
  by (simp_all add: job_moved_def)

lemma job_moved_activity:
  assumes "job_moved q s s'" and "activity s = Some (j, rc_job s 0)"
  shows "activity s' = (if q = L_end then None else Some (j, q))"
  using assms by (auto simp: job_moved_def activity_def split: list.splits run_pc.splits if_splits)

lemma job_moved_team:
  assumes "job_moved q s s'" and "activity s = Some (j, rc_job s 0)"
    and "team_ok (rc_main s) (threads (g_worker s)) (rc_job s 0)"
  shows "team_ok (rc_main s') (threads (g_worker s')) (rc_job s' 0)"
  using assms by (auto simp: job_moved_def activity_def team_ok_def split: list.splits run_pc.splits if_splits)

text \<open>One step of the job that resumes single task \<open>k\<close>, the last of the frames.\<close>

definition flow_moved :: "nat \<Rightarrow> bool \<Rightarrow> single_frame list \<Rightarrow> single_frame \<Rightarrow> race \<Rightarrow> race \<Rightarrow> job_pc \<Rightarrow> single_frame \<Rightarrow> bool" where
  "flow_moved k r ds x s s' q x' \<longleftrightarrow> job_moved q s s' \<and> rc_frames s' = frames_at At_await ds [x'] \<and>
     (sg_done x \<longrightarrow> sg_done x') \<and> g_task_finished s' = g_task_finished s \<and>
     flow k r (g_task_suspended s) (if q = L_end then None else Some (Resume_single k, q)) (tasks (g_worker s')) x'"

lemma flow_step:
  assumes flow: "flow k r (g_task_suspended s) (Some (j, rc_job s 0)) (tasks (g_worker s)) x"
    and f: "rc_frames s = frames_at At_await ds [x]" and k: "k = length ds"
    and step: "job_step cnt 0 j s = Some s'"
  shows "\<exists>q x'. flow_moved k r ds x s s' q x'"
proof -
  note defs = flow_moved_def
  note sdefs = job_step_def code_defs
  have m: "flow_moved k r ds x s s' q x' \<Longrightarrow> ?thesis" for q x' by blast
  from flow show ?thesis
  proof cases
    case begun
    with step f k show ?thesis
      by (intro m [of "L_in (R_handle k)" "single_at Running True r False"]) (auto simp: defs sdefs intro: flow.intros)
  next
    case handle
    with step f k show ?thesis
      by (intro m [of "L_in (R_return k)" "single_at Running True r False"]) (auto simp: defs sdefs intro: flow.intros)
  next
    case return
    with step f k show ?thesis
      by (intro m [of "L_in (R_final k Rf_exchange)" "single_at Final True r False"])
         (auto simp: defs sdefs intro: flow.intros)
  next
    case exchange
    with step f k show ?thesis
      by (intro m [of "L_in (R_final k (Rf_read r))" "single_at Final True True False"])
         (auto simp: defs sdefs intro: flow.intros)
  next
    case read
    show ?thesis
    proof (cases r)
      case True
      with read step f k show ?thesis
        by (intro m [of "L_in (R_final k Rf_spin)" "single_at Final True True False"])
           (auto simp: defs sdefs flow.spin)
    next
      case False
      with read step f k show ?thesis
        by (intro m [of "L_publish k" "single_at Final True True False"]) (auto simp: defs sdefs flow.publish)
    qed
  next
    case spin
    with step f k show ?thesis
      by (intro m [of "L_in (R_final k Rf_submit)" "single_at Final True True False"])
         (auto simp: defs sdefs intro: flow.intros split: if_splits)
  next
    case submit
    with step f k show ?thesis
      by (intro m [of "L_publish k" "single_at Final True True False"])
         (auto simp: defs sdefs intro: flow.intros)
  next
    case publish
    with step f k show ?thesis
      by (intro m [of L_end "single_at Final True True True"]) (auto simp: defs sdefs intro: flow.intros)
  qed
qed

lemma job_not_end: "activity s = Some (j, p) \<Longrightarrow> p = rc_job s 0 \<and> p \<noteq> L_end"
  by (auto simp: activity_def split: list.splits run_pc.splits if_splits)

lemma job_step_inv:
  assumes inv: "race_inv cnt s" and act: "activity s = Some (j, rc_job s 0)"
    and step: "job_step cnt 0 j s = Some s'"
  shows "race_inv cnt s'"
proof -
  have ok: "race_ok cnt (rc_main s) (Some (j, rc_job s 0)) (tasks (g_worker s)) (rc_frames s)
      (g_task_suspended s) (g_task_finished s)"
    and team: "team_ok (rc_main s) (threads (g_worker s)) (rc_job s 0)"
    and n: "thread_count (g_worker s) = 1"
    using inv act by (simp_all add: race_inv_def)
  have goal: "race_inv cnt s'" if "job_moved q s s'"
    and "race_ok cnt (rc_main s) (if q = L_end then None else Some (j, q)) (tasks (g_worker s')) (rc_frames s')
        (g_task_suspended s) (g_task_finished s')" for q
    using that n job_moved_activity [OF that(1) act] job_moved_team [OF that(1) act team]
    by (simp add: race_inv_def job_moved_def)
  note ins = inside_iff [OF team]
  note defs = job_step_def code_defs
  from ok show ?thesis
  proof cases
    case (at_head ds)
    then have j: "j = Resume_task" "rc_job s 0 = L_in (R_task T_loop)" "rc_main s = Rm_wait" "g_task_suspended s"
      by (auto simp: runner.simps)
    show ?thesis
    proof (cases "int (length ds) < cnt")
      case True
      with at_head j step show ?thesis
        by (intro goal [of "L_in (R_task T_handle)"]) (auto simp: defs intro!: race_ok.fresh_task [OF by_worker])
    next
      case False
      with at_head j step show ?thesis
        by (intro goal [of "L_in (R_task T_return)"]) (auto simp: defs intro!: race_ok.at_return [OF by_worker])
    qed
  next
    case (at_return ds)
    then have "j = Resume_task" "rc_job s 0 = L_in (R_task T_return)" "rc_main s = Rm_wait" "g_task_suspended s"
      by (auto simp: runner.simps)
    with at_return step show ?thesis
      by (intro goal [of "L_in R_finish"]) (auto simp: defs intro!: race_ok.worker_finishes)
  next
    case (fresh_task p ds)
    then have j: "j = Resume_task" "rc_job s 0 = L_in (R_task p)" "rc_main s = Rm_wait" "g_task_suspended s"
      by (auto simp: runner.simps)
    from \<open>p = T_handle \<or> p = T_await\<close> show ?thesis
    proof
      assume "p = T_handle"
      with fresh_task j step show ?thesis
        by (intro goal [of "L_in (R_task T_await)"]) (auto simp: defs intro!: race_ok.fresh_task [OF by_worker])
    next
      assume "p = T_await"
      with fresh_task j step show ?thesis
        by (intro goal [of "L_in (R_await (length ds) Ra_save)"])
           (auto simp: defs intro!: race_ok.fresh_await [OF by_worker])
    qed
  next
    case (fresh_await ds p h)
    then have j: "j = Resume_task" "rc_job s 0 = L_in (R_await (length ds) p)" "rc_main s = Rm_wait" "g_task_suspended s"
      by (auto simp: runner.simps)
    from \<open>p = Ra_save \<and> \<not> h \<or> p = Ra_submit \<and> h\<close> show ?thesis
    proof
      assume "p = Ra_save \<and> \<not> h"
      with fresh_await j step show ?thesis
        by (intro goal [of "L_in (R_await (length ds) Ra_submit)"])
           (auto simp: defs intro!: race_ok.fresh_await [OF by_worker])
    next
      assume "p = Ra_submit \<and> h"
      with fresh_await j step show ?thesis
        by (intro goal [of "L_in (R_await (length ds) (Ra_poll 0))"]) (auto simp: defs intro!: race_ok.worker_polls)
    qed
  next
    case (main_polls ds x p)
    from flow_step [of "length ds" False s j x ds cnt s'] main_polls step obtain q x' where
      "flow_moved (length ds) False ds x s s' q x'" by auto
    moreover have "j = Resume_single (length ds)" using main_polls by (auto elim: flow_jobE)
    ultimately show ?thesis using main_polls
      by (intro goal [of q]) (auto simp: flow_moved_def intro!: race_ok.main_polls)
  next
    case (worker_polls ds p)
    from \<open>(\<exists>i. p = Ra_poll i) \<or> p = Ra_exchange\<close> show ?thesis
    proof
      assume "\<exists>i. p = Ra_poll i"
      then obtain i where i: "p = Ra_poll i" ..
      with worker_polls step show ?thesis
        by (intro goal [of "L_in (R_await (length ds) (if i < 50 then Ra_poll (i + 1) else Ra_exchange))"])
           (auto simp: defs intro!: race_ok.worker_polls)
    next
      assume "p = Ra_exchange"
      with worker_polls step show ?thesis
        by (intro goal [of L_end]) (auto simp: defs intro!: race_ok.suspended flow.queued)
    qed
  next
    case (suspended ds x)
    from flow_step [of "length ds" True s j x ds cnt s'] suspended step obtain q x' where
      "flow_moved (length ds) True ds x s s' q x'" by auto
    moreover have "j = Resume_single (length ds)" using suspended by (auto elim: flow_jobE)
    ultimately show ?thesis using suspended
      by (intro goal [of q]) (auto simp: flow_moved_def intro!: race_ok.suspended)
  next
    case (taken ds)
    with step show ?thesis
      by (intro goal [of "L_in (R_task T_resumed)"]) (auto simp: defs intro!: race_ok.resumed [OF by_worker])
  next
    case (resumed ds)
    then have j: "j = Resume_task" "rc_job s 0 = L_in (R_task T_resumed)" "rc_main s = Rm_wait" "g_task_suspended s"
      by (auto simp: runner.simps)
    then have "\<not> inside (Resume_single (length ds)) s" using act ins by simp
    with resumed j step show ?thesis
      by (intro goal [of "L_in (R_task T_loop)"]) (auto simp: defs intro!: race_ok.at_head [OF by_worker])
  next
    case (worker_finishes ds)
    with step show ?thesis
      by (intro goal [of L_end]) (auto simp: defs intro!: race_ok.finished)
  qed
qed

lemma pool_move_inv:
  assumes inv: "race_inv cnt s" and t: "threads (g_worker s) = [t]" "threads w = [t\<lparr>run_pc := p\<rparr>]"
    and "thread_count w = 1" and p: "p = Exited \<Longrightarrow> stop_requested t" "\<And>j. p \<noteq> In_task j"
    and idle: "activity s = None" "tasks w = tasks (g_worker s)"
  shows "race_inv cnt (s\<lparr>g_worker := w, rc_job := (rc_job s)(0 := L_begin)\<rparr>)"
proof -
  have "activity (s\<lparr>g_worker := w, rc_job := (rc_job s)(0 := L_begin)\<rparr>) = None"
    using t p(2) by (auto simp: activity_def split: run_pc.split)
  with assms show ?thesis by (auto simp: race_inv_def team_ok_def split: if_splits)
qed

lemma team_ok_thread:
  assumes team: "team_ok m ts p" and i: "i < length ts"
  obtains t where "i = 0" "ts = [t]" "\<not> no_threads m" "stop_requested t \<longleftrightarrow> m = Rm_join"
    "(\<forall>j. run_pc t \<noteq> In_task j) \<longrightarrow> p = L_begin"
proof -
  have nt: "\<not> no_threads m"
  proof
    assume "no_threads m"
    with team have "ts = []" by (simp add: team_ok_def)
    with i show False by simp
  qed
  with team obtain t where "ts = [t]" "stop_requested t \<longleftrightarrow> m = Rm_join"
    "(\<forall>j. run_pc t \<noteq> In_task j) \<longrightarrow> p = L_begin"
    unfolding team_ok_def by (simp only: if_False) blast
  with nt i that show thesis by simp
qed

lemma run_step_one:
  assumes "threads w = [t]"
  shows "run_step 0 w =
    (case run_pc t of
       At_loop \<Rightarrow> Some (w\<lparr>threads := [t\<lparr>run_pc := if stop_requested t then Exited else At_wait\<rparr>]\<rparr>)
     | At_wait \<Rightarrow>
         (if stop_requested t then Some (w\<lparr>threads := [t\<lparr>run_pc := Exited\<rparr>]\<rparr>)
          else case tasks w of
                 [] \<Rightarrow> None
               | fn # rest \<Rightarrow> Some (w\<lparr>tasks := rest, begun := begun w @ [fn], threads := [t\<lparr>run_pc := In_task fn\<rparr>]\<rparr>))
     | In_task fn \<Rightarrow> Some (w\<lparr>finished := finished w @ [fn], threads := [t\<lparr>run_pc := At_loop\<rparr>]\<rparr>)
     | Exited \<Rightarrow> None)"
  using assms by (simp add: run_step_def set_pc_def Let_def split: run_pc.split list.split)

lemma worker_step_inv:
  assumes inv: "race_inv cnt s" and step: "worker_step cnt i s = Some s'"
  shows "race_inv cnt s'"
proof -
  have ok: "race_ok cnt (rc_main s) (activity s) (tasks (g_worker s)) (rc_frames s)
      (g_task_suspended s) (g_task_finished s)"
    and team: "team_ok (rc_main s) (threads (g_worker s)) (rc_job s 0)"
    and n: "thread_count (g_worker s) = 1"
    using inv by (simp_all add: race_inv_def)
  have len: "i < length (threads (g_worker s))" using step by (simp add: worker_step_def split: if_splits)
  obtain t where i: "i = 0" and t: "threads (g_worker s) = [t]" and nt: "\<not> no_threads (rc_main s)"
    and stop: "stop_requested t \<longleftrightarrow> rc_main s = Rm_join"
    and idle: "(\<forall>j. run_pc t \<noteq> In_task j) \<longrightarrow> rc_job s 0 = L_begin"
    by (rule team_ok_thread [OF team len])
  note defs = worker_step_def i t run_step_one [OF t]
  show ?thesis
  proof (cases "run_pc t")
    case At_loop
    let ?p = "if stop_requested t then Exited else At_wait"
    let ?w = "(g_worker s)\<lparr>threads := [t\<lparr>run_pc := ?p\<rparr>]\<rparr>"
    have "activity s = None" and j: "rc_job s 0 = L_begin" using At_loop t idle by (simp_all add: activity_def)
    then have "race_inv cnt (s\<lparr>g_worker := ?w, rc_job := (rc_job s)(0 := L_begin)\<rparr>)"
      using n by (intro pool_move_inv [OF inv t, of ?w ?p]) (simp_all split: if_splits)
    moreover have "(rc_job s)(0 := L_begin) = rc_job s" using j by (simp add: fun_upd_idem)
    ultimately show ?thesis using At_loop step by (simp add: defs)
  next
    case At_wait
    then have a: "activity s = None" and j: "rc_job s 0 = L_begin" using t idle by (simp_all add: activity_def)
    show ?thesis
    proof (cases "stop_requested t")
      case True
      let ?w = "(g_worker s)\<lparr>threads := [t\<lparr>run_pc := Exited\<rparr>]\<rparr>"
      from a have "race_inv cnt (s\<lparr>g_worker := ?w, rc_job := (rc_job s)(0 := L_begin)\<rparr>)"
        using n True by (intro pool_move_inv [OF inv t, of ?w Exited]) simp_all
      moreover have "(rc_job s)(0 := L_begin) = rc_job s" using j by (simp add: fun_upd_idem)
      ultimately show ?thesis using At_wait True step by (simp add: defs)
    next
      case False
      with At_wait step obtain j' q where q: "tasks (g_worker s) = j' # q"
        by (cases "tasks (g_worker s)") (simp_all add: defs)
      with ok a have r: "race_ok cnt (rc_main s) (Some (j', L_begin)) q (rc_frames s)
          (g_task_suspended s) (g_task_finished s)" by (simp add: take_ok)
      let ?w = "(g_worker s)\<lparr>tasks := q, begun := begun (g_worker s) @ [j'], threads := [t\<lparr>run_pc := In_task j'\<rparr>]\<rparr>"
      have s': "s' = s\<lparr>g_worker := ?w\<rparr>" using step At_wait False q by (simp add: defs)
      then have "activity s' = Some (j', L_begin)" using j by (simp add: activity_def)
      with r s' n stop nt False show ?thesis by (simp add: race_inv_def team_ok_def)
    qed
  next
    case (In_task j)
    with step t i have js: "job_step cnt 0 j s = Some s'" by (simp add: worker_step_def)
    show ?thesis
    proof (cases "rc_job s 0 = L_end")
      case True
      let ?w = "(g_worker s)\<lparr>finished := finished (g_worker s) @ [j], threads := [t\<lparr>run_pc := At_loop\<rparr>]\<rparr>"
      have "activity s = None" using True In_task t by (simp add: activity_def)
      then have "race_inv cnt (s\<lparr>g_worker := ?w, rc_job := (rc_job s)(0 := L_begin)\<rparr>)"
        using n by (intro pool_move_inv [OF inv t, of ?w At_loop]) simp_all
      moreover have "run_step 0 (g_worker s) = Some ?w" using In_task by (simp add: run_step_one [OF t])
      then have "job_step cnt 0 j s = Some (set_job 0 L_begin (s\<lparr>g_worker := ?w\<rparr>))"
        using True by (simp only: job_step_def job_pc.case option.map)
      then have "s' = s\<lparr>g_worker := ?w, rc_job := (rc_job s)(0 := L_begin)\<rparr>"
        using js by (simp add: set_job_def)
      ultimately show ?thesis by simp
    next
      case False
      then have act: "activity s = Some (j, rc_job s 0)" using In_task t by (simp add: activity_def)
      show ?thesis by (rule job_step_inv [OF inv act js])
    qed
  qed (use step in \<open>simp add: defs\<close>)
qed

lemma race_start_inv: "race_inv cnt race_start"
  by (auto simp: race_inv_def race_start_def make_pool_def team_ok_def no_threads_def activity_def
      intro!: race_ok.starting)

lemma race_act_inv: "race_inv cnt s \<Longrightarrow> race_act cnt c s = Some s' \<Longrightarrow> race_inv cnt s'"
  by (cases c) (auto intro: main_step_race_inv worker_step_inv)

abbreviation race_init :: "race \<Rightarrow> bool" where
  "race_init s \<equiv> s = race_start"

interpretation race: safe_system "race_act cnt" race_init "race_inv cnt" for cnt
proof unfold_locales
  show "race_init s \<Longrightarrow> race_inv cnt s" for s by (simp add: race_start_inv)
qed (rule race_act_inv)

end
