(* ===== verification/Race_Props.thy ===== *)
theory Race_Props
  imports Race_Inv
begin

text \<open>
  What follows from the invariant for the program of \<^verbatim>\<open>Coro_Race\<close>: it is safe, some thread can
  always move, every move lowers a bound, and so every execution ends with all frames destroyed.
\<close>

section \<open>A bound on the moves that are left\<close>

fun task_left :: "task_pc \<Rightarrow> nat" where
  "task_left T_loop = 82" | "task_left T_handle = 81" | "task_left T_await = 80"
| "task_left T_resumed = 3" | "task_left T_return = 2"

fun await_left :: "race_await_pc \<Rightarrow> nat" where
  "await_left Ra_save = 79" | "await_left Ra_submit = 78" | "await_left (Ra_poll i) = 6 + (50 - i)"
| "await_left Ra_exchange = 5" | "await_left Ra_spin = 4"

fun final_left :: "race_final_pc \<Rightarrow> nat" where
  "final_left Rf_exchange = 13" | "final_left (Rf_read d) = 12" | "final_left Rf_spin = 11"
| "final_left Rf_submit = 10"

fun code_left :: "code_pc \<Rightarrow> nat" where
  "code_left (R_task p) = task_left p" | "code_left R_finish = 1"
| "code_left (R_await k p) = await_left p" | "code_left (R_handle k) = 15"
| "code_left (R_return k) = 14" | "code_left (R_final k p) = final_left p"

text \<open>A job in the queue weighs as much as the moves it can cause.\<close>

fun job_weight :: "pool_job \<Rightarrow> nat" where
  "job_weight (Resume_single k) = 21" | "job_weight Resume_task = 9"

fun job_left :: "pool_job \<Rightarrow> job_pc \<Rightarrow> nat" where
  "job_left j L_begin = job_weight j" | "job_left j (L_in p) = 5 + code_left p"
| "job_left j (L_publish k) = 4" | "job_left j L_end = 3"

fun thread_left :: "pool_job run_pc \<Rightarrow> job_pc \<Rightarrow> nat" where
  "thread_left (In_task j) p = job_left j p" | "thread_left At_loop p = 2"
| "thread_left At_wait p = 1" | "thread_left Exited p = 0"

fun race_main_left :: "race_main_pc \<Rightarrow> nat" where
  "race_main_left Rm_start = 94" | "race_main_left Rm_make = 90" | "race_main_left Rm_resume = 89"
| "race_main_left (Rm_in p) = 6 + code_left p" | "race_main_left Rm_suspended = 5"
| "race_main_left Rm_wait = 4" | "race_main_left Rm_stop = 3" | "race_main_left Rm_join = 2"
| "race_main_left Rm_destroy = 1" | "race_main_left Rm_done = 0"

definition pool_left :: "race \<Rightarrow> nat" where
  "pool_left s = (case threads (g_worker s) of t # _ \<Rightarrow> thread_left (run_pc t) (rc_job s 0) | [] \<Rightarrow> 0)"

definition shared_left :: "int \<Rightarrow> race \<Rightarrow> nat" where
  "shared_left cnt s = 100 * nat (cnt + 1 - task_i (rc_frames s)) + sum_list (map job_weight (tasks (g_worker s)))"

definition race_left :: "int \<Rightarrow> race \<Rightarrow> nat" where
  "race_left cnt s = race_main_left (rc_main s) + pool_left s + shared_left cnt s"

lemma task_i_simps [simp]:
  "task_i (with_single k g f) = task_i f" "task_i (resume_single k f) = task_i f"
  "task_i (resume_task f) = task_i f" "task_i (destroy_task f) = task_i f"
  "task_i (get_handle_task f) = task_i f" "task_i (get_handle_single k f) = task_i f"
  "task_i (suspend_task p f) = task_i f" "task_i (suspend_single k p f) = task_i f"
  "task_i (make_single_task f) = task_i f" "task_i (task_iteration_end f) = task_i f + 1"
  "task_i (f\<lparr>fr_ub := u\<rparr>) = task_i f"
  by (simp_all add: with_single_def resume_single_def resume_task_def destroy_task_def get_handle_task_def
      get_handle_single_def suspend_task_def suspend_single_def make_single_task_def task_iteration_end_def
      destroy_single_def)

lemma shared_left_simps [simp]:
  "shared_left cnt (set_main p s) = shared_left cnt s" "shared_left cnt (set_job i q s) = shared_left cnt s"
  "shared_left cnt (race_submit j s) = shared_left cnt s + job_weight j"
  "shared_left cnt (s\<lparr>g_task_finished := b\<rparr>) = shared_left cnt s"
  "shared_left cnt (s\<lparr>g_task_suspended := b\<rparr>) = shared_left cnt s"
  "(\<And>f. task_i (g f) = task_i f) \<Longrightarrow> shared_left cnt (with_frames g s) = shared_left cnt s"
  "shared_left cnt (race_ub s) = shared_left cnt s"
  by (simp_all add: shared_left_def race_ub_def)

text \<open>The code inside a resume changes neither thread's place itself.\<close>

definition same_places :: "race \<Rightarrow> race \<Rightarrow> bool" where
  "same_places s s' \<longleftrightarrow> rc_main s' = rc_main s \<and> rc_job s' = rc_job s \<and>
     threads (g_worker s') = threads (g_worker s)"

lemma same_places_simps [simp]:
  "same_places s s" "same_places s (with_frames g s') \<longleftrightarrow> same_places s s'"
  "same_places s (race_submit j s') \<longleftrightarrow> same_places s s'" "same_places s (race_ub s') \<longleftrightarrow> same_places s s'"
  "same_places s (s'\<lparr>g_task_finished := b\<rparr>) \<longleftrightarrow> same_places s s'"
  by (auto simp: same_places_def race_ub_def)

lemma shared_left_iteration:
  assumes "task_i (rc_frames s) \<le> cnt"
  shows "shared_left cnt (with_frames task_iteration_end s) + 100 = shared_left cnt s"
proof -
  have "nat (cnt + 1 - task_i (rc_frames s)) = Suc (nat (cnt - task_i (rc_frames s)))" using assms by simp
  then show ?thesis by (simp add: shared_left_def)
qed

lemma code_step_left:
  assumes step: "code_step cnt p s = Some (r, s')"
    and i: "p = R_task T_resumed \<Longrightarrow> task_i (rc_frames s) \<le> cnt"
  shows "(case r of None \<Rightarrow> 0 | Some q \<Rightarrow> code_left q) + shared_left cnt s' < code_left p + shared_left cnt s \<and>
    same_places s s'"
proof (cases p)
  case (R_task t)
  show ?thesis
  proof (cases t)
    case T_loop
    have "shared_left cnt (with_frames (\<lambda>_. make_single_task (rc_frames s)) s) = shared_left cnt s"
      "shared_left cnt (with_frames (\<lambda>_. rc_frames s) s) = shared_left cnt s"
      by (simp_all add: shared_left_def)
    with T_loop R_task step show ?thesis by (auto simp: code_defs task_head_def split: if_splits)
  next
    case T_resumed
    with R_task step i shared_left_iteration [of s cnt] show ?thesis by (auto simp: code_defs split: if_splits)
  qed (use R_task step in \<open>auto simp: code_defs\<close>)
next
  case (R_await k a)
  with step show ?thesis by (cases a) (auto simp: code_defs split: if_splits)
next
  case (R_final k a)
  with step show ?thesis by (cases a) (auto simp: code_defs split: if_splits)
qed (use step in \<open>auto simp: code_defs\<close>)


lemma resumed_iteration:
  assumes "race_inv cnt s" and "rc_main s = Rm_in (R_task T_resumed) \<or> activity s = Some (j, L_in (R_task T_resumed))"
  shows "task_i (rc_frames s) \<le> cnt"
proof -
  have "race_ok cnt (rc_main s) (activity s) (tasks (g_worker s)) (rc_frames s)
      (g_task_suspended s) (g_task_finished s)" using assms(1) by (simp add: race_inv_def)
  then show ?thesis
  proof cases
    case (resumed ds)
    then show ?thesis by (simp add: frames_at_def)
  qed (use assms(2) in \<open>auto simp: runner.simps elim: flow_jobE split: if_splits\<close>)
qed

lemma same_places_pool: "same_places s s' \<Longrightarrow> pool_left s' = pool_left s"
  by (simp add: same_places_def pool_left_def split: list.split)

lemma main_step_left:
  assumes inv: "race_inv cnt s" and step: "race_main_step cnt s = Some s'"
  shows "race_left cnt s' < race_left cnt s"
proof -
  have team: "team_ok (rc_main s) (threads (g_worker s)) (rc_job s 0)" and n: "thread_count (g_worker s) = 1"
    using inv by (simp_all add: race_inv_def)
  have p: "pool_left (set_main m s) = pool_left s" "pool_left (with_frames g s) = pool_left s"
    "pool_left (race_ub s) = pool_left s" "pool_left (s\<lparr>g_task_suspended := b\<rparr>) = pool_left s" for m g s b
    by (simp_all add: pool_left_def race_ub_def split: list.split)
  note defs = race_main_step_def race_left_def p
  show ?thesis
  proof (cases "rc_main s")
    case Rm_start
    with team n have "threads (start (g_worker s)) = [\<lparr>stop_requested = False, run_pc = At_loop\<rparr>]"
      "tasks (start (g_worker s)) = tasks (g_worker s)"
      by (simp_all add: team_ok_def no_threads_def start_one)
    with Rm_start step show ?thesis by (auto simp: defs) (simp add: pool_left_def shared_left_def)
  next
    case Rm_make
    have "race_ok cnt Rm_make (activity s) (tasks (g_worker s)) (rc_frames s) (g_task_suspended s) (g_task_finished s)"
      using inv Rm_make by (simp add: race_inv_def)
    then have "rc_frames s = no_frames" by (elim race_ok_makeE) (auto simp: runner.simps split: if_splits)
    then have "shared_left cnt (with_frames make_task s) \<le> shared_left cnt s"
      by (simp add: shared_left_def make_task_def no_frames_def)
    with Rm_make step show ?thesis by (auto simp: defs)
  next
    case (Rm_in q)
    with step obtain r t where c: "code_step cnt q s = Some (r, t)"
      and s': "s' = set_main (case r of None \<Rightarrow> Rm_suspended | Some q \<Rightarrow> Rm_in q) t"
      by (auto simp: race_main_step_def split: option.splits)
    have "q = R_task T_resumed \<Longrightarrow> task_i (rc_frames s) \<le> cnt"
      using resumed_iteration [OF inv] Rm_in by blast
    from code_step_left [OF c this] have
      "(case r of None \<Rightarrow> 0 | Some q \<Rightarrow> code_left q) + shared_left cnt t < code_left q + shared_left cnt s"
      "pool_left t = pool_left s" by (simp_all add: same_places_pool)
    with Rm_in s' show ?thesis by (auto simp: race_left_def p split: option.splits)
  next
    case Rm_stop
    have "pool_left (s\<lparr>g_worker := stop (g_worker s)\<rparr>) = pool_left s"
      by (simp add: pool_left_def stop_def split: list.split)
    moreover have "shared_left cnt (s\<lparr>g_worker := stop (g_worker s)\<rparr>) = shared_left cnt s"
      by (simp add: shared_left_def stop_def)
    ultimately show ?thesis using Rm_stop step by (auto simp: defs)
  next
    case Rm_join
    with step obtain w where w: "join (g_worker s) = Some w" "s' = set_main Rm_destroy (s\<lparr>g_worker := w\<rparr>)"
      by (auto simp: race_main_step_def)
    then have "threads w = []" "tasks w = tasks (g_worker s)" by (auto simp: join_def split: if_splits)
    with w Rm_join show ?thesis by (simp add: race_left_def p) (simp add: pool_left_def shared_left_def)
  qed (use step in \<open>auto simp: defs split: if_splits\<close>)
qed

lemma worker_step_left:
  assumes inv: "race_inv cnt s" and step: "worker_step cnt i s = Some s'"
  shows "race_left cnt s' < race_left cnt s"
proof -
  have team: "team_ok (rc_main s) (threads (g_worker s)) (rc_job s 0)" using inv by (simp add: race_inv_def)
  have len: "i < length (threads (g_worker s))" using step by (simp add: worker_step_def split: if_splits)
  obtain t where i: "i = 0" and t: "threads (g_worker s) = [t]" and "\<not> no_threads (rc_main s)"
    and "stop_requested t \<longleftrightarrow> rc_main s = Rm_join"
    and idle: "(\<forall>j. run_pc t \<noteq> In_task j) \<longrightarrow> rc_job s 0 = L_begin"
    by (rule team_ok_thread [OF team len])
  show ?thesis
  proof (cases "\<exists>j. run_pc t = In_task j \<and> rc_job s 0 \<noteq> L_end")
    case False
    then obtain w where w: "run_step 0 (g_worker s) = Some w" and s': "rc_main s' = rc_main s \<and> rc_frames s' = rc_frames s \<and>
        g_worker s' = w \<and> rc_job s' 0 = L_begin"
      using step i t idle by (cases "run_pc t") (auto simp: worker_step_def job_step_def set_job_def)
    have eq: "race_left cnt s' = race_main_left (rc_main s) + (case threads w of t # _ \<Rightarrow> thread_left (run_pc t) L_begin | [] \<Rightarrow> 0) +
        (100 * nat (cnt + 1 - task_i (rc_frames s)) + sum_list (map job_weight (tasks w)))"
      using s' by (simp add: race_left_def pool_left_def shared_left_def split: list.split)
    have "race_left cnt s = race_main_left (rc_main s) + thread_left (run_pc t) (rc_job s 0) + shared_left cnt s"
      using t by (simp add: race_left_def pool_left_def)
    with w eq False show ?thesis
      unfolding run_step_one [OF t] shared_left_def
      by (cases "run_pc t"; cases "tasks (g_worker s)") (auto split: if_splits)
  next
    case True
    then obtain j where j: "run_pc t = In_task j" and ne: "rc_job s 0 \<noteq> L_end" by blast
    with step i t have js: "job_step cnt 0 j s = Some s'" by (simp add: worker_step_def)
    have left: "race_left cnt u = race_main_left (rc_main s) + job_left j (rc_job u 0) + shared_left cnt u"
      if "rc_main u = rc_main s" "threads (g_worker u) = [t]" for u
      using that j by (simp add: race_left_def pool_left_def)
    show ?thesis
    proof (cases "rc_job s 0")
      case L_begin
      with js t show ?thesis by (cases j) (auto simp: job_step_def left)
    next
      case (L_in p)
      with js obtain r u where c: "code_step cnt p s = Some (r, u)"
        and s': "s' = set_job 0 (case r of None \<Rightarrow> (case j of Resume_single k \<Rightarrow> L_publish k | Resume_task \<Rightarrow> L_end)
            | Some q \<Rightarrow> L_in q) u"
        by (auto simp: job_step_def split: option.splits)
      have "activity s = Some (j, L_in p)" using t j L_in by (simp add: activity_def)
      with resumed_iteration [OF inv] have "p = R_task T_resumed \<Longrightarrow> task_i (rc_frames s) \<le> cnt" by blast
      from code_step_left [OF c this] have u:
        "(case r of None \<Rightarrow> 0 | Some q \<Rightarrow> code_left q) + shared_left cnt u < code_left p + shared_left cnt s"
        "rc_main u = rc_main s" "threads (g_worker u) = [t]" by (simp_all add: same_places_def t)
      with L_in s' t show ?thesis by (auto simp: left split: option.splits pool_job.splits)
    next
      case (L_publish k)
      with js t show ?thesis by (auto simp: job_step_def left)
    qed (use ne in simp)
  qed
qed


lemma race_act_left: "race_inv cnt s \<Longrightarrow> race_act cnt c s = Some s' \<Longrightarrow> race_left cnt s' < race_left cnt s"
  by (cases c) (auto intro: main_step_left worker_step_left)

section \<open>Somebody can move\<close>

text \<open>The thread of the pool can move unless it waits for a job, for the flag, or is out.\<close>

lemma code_step_enabled:
  assumes "code_step cnt p s = None"
  shows "(\<exists>k. p = R_await k Ra_spin \<and> \<not> sg_worker_finished (singles (rc_frames s) ! k)) \<or>
    (\<exists>k. p = R_final k Rf_spin \<and> \<not> g_task_suspended s)"
proof (cases p)
  case (R_task t)
  with assms show ?thesis by (cases t) (auto simp: code_defs split: prod.splits)
next
  case (R_await k a)
  with assms show ?thesis by (cases a) (auto simp: code_defs split: if_splits)
next
  case (R_final k a)
  with assms show ?thesis by (cases a) (auto simp: code_defs split: if_splits)
qed (use assms in \<open>auto simp: code_defs\<close>)

lemma job_step_enabled:
  assumes "rc_job s 0 \<noteq> L_end" and none: "job_step cnt 0 j s = None"
  shows "\<exists>p. rc_job s 0 = L_in p \<and> code_step cnt p s = None"
proof (cases "rc_job s 0")
  case (L_in p)
  with none have "code_step cnt p s = None"
    by (cases "code_step cnt p s") (auto simp: job_step_def split: option.splits)
  with L_in show ?thesis by simp
next
  case L_begin
  with none show ?thesis by (simp add: job_step_def)
next
  case (L_publish k)
  with none show ?thesis by (simp add: job_step_def)
qed (use assms(1) in simp)

lemma worker_enabled:
  assumes team: "team_ok (rc_main s) (threads (g_worker s)) (rc_job s 0)" and nt: "\<not> no_threads (rc_main s)"
    and stuck: "worker_step cnt 0 s = None"
  shows "(\<exists>j p. activity s = Some (j, L_in p) \<and> code_step cnt p s = None) \<or>
    activity s = None \<and> rc_main s \<noteq> Rm_join \<and> tasks (g_worker s) = [] \<or>
    rc_main s = Rm_join \<and> (\<exists>w. join (g_worker s) = Some w)"
proof -
  from team nt obtain t where t: "threads (g_worker s) = [t]" and st: "stop_requested t \<longleftrightarrow> rc_main s = Rm_join"
    and ex: "run_pc t = Exited \<longrightarrow> stop_requested t"
    unfolding team_ok_def by (simp only: if_False) blast
  note w = stuck [unfolded worker_step_def t]
  show ?thesis
  proof (cases "run_pc t")
    case At_loop
    with w show ?thesis by (simp add: run_step_one [OF t])
  next
    case At_wait
    with w st have "rc_main s \<noteq> Rm_join" "tasks (g_worker s) = []"
      by (simp_all add: run_step_one [OF t] split: if_splits list.splits)
    moreover have "activity s = None" using t At_wait by (simp add: activity_def)
    ultimately show ?thesis by simp
  next
    case (In_task j)
    with w have js: "job_step cnt 0 j s = None" by simp
    show ?thesis
    proof (cases "rc_job s 0 = L_end")
      case True
      with js In_task show ?thesis by (simp add: job_step_def run_step_one [OF t])
    next
      case False
      then have "activity s = Some (j, rc_job s 0)" using t In_task by (simp add: activity_def)
      with job_step_enabled [OF False js] show ?thesis by auto
    qed
  next
    case Exited
    with t have "join (g_worker s) = Some ((g_worker s)\<lparr>threads := []\<rparr>)" by (simp add: join_def)
    with ex st Exited show ?thesis by blast
  qed
qed

text \<open>When main waits for the pool, the pool is not waiting.\<close>

definition stuck_worker :: "(pool_job \<times> job_pc) option \<Rightarrow> pool_job list \<Rightarrow> bool \<Rightarrow> bool" where
  "stuck_worker w q susp \<longleftrightarrow>
     (\<exists>j k. w = Some (j, L_in (R_final k Rf_spin)) \<and> \<not> susp) \<or>
     (\<exists>j k. w = Some (j, L_in (R_await k Ra_spin))) \<or> w = None \<and> q = []"

lemma flow_not_stuck:
  assumes "flow k r susp w q x" and "stuck_worker w q susp"
  shows "r \<and> \<not> susp \<or> \<not> r \<and> sg_worker_finished x"
  using assms by cases (auto simp: stuck_worker_def)

lemma main_enabled:
  assumes "race_main_step cnt s = None" and "rc_main s \<noteq> Rm_done"
  shows "(\<exists>k. rc_main s = Rm_in (R_await k Ra_spin) \<and> \<not> sg_worker_finished (singles (rc_frames s) ! k)) \<or>
    (\<exists>k. rc_main s = Rm_in (R_final k Rf_spin)) \<or>
    rc_main s = Rm_wait \<and> \<not> g_task_finished s \<or> rc_main s = Rm_join \<and> join (g_worker s) = None"
proof (cases "rc_main s")
  case (Rm_in p)
  with assms(1) have "code_step cnt p s = None" by (auto simp: race_main_step_def split: option.splits)
  with code_step_enabled [OF this] Rm_in show ?thesis by blast
qed (use assms in \<open>auto simp: race_main_step_def split: if_splits\<close>)

lemma not_stuck:
  assumes ok: "race_ok cnt m w q f susp fin" and st: "stuck_worker w q susp"
    and m: "(\<exists>k. m = Rm_in (R_await k Ra_spin) \<and> \<not> sg_worker_finished (singles f ! k)) \<or>
      (\<exists>k. m = Rm_in (R_final k Rf_spin)) \<or> m = Rm_wait \<and> \<not> fin"
  shows False
  using ok
proof cases
  case (main_polls ds x p)
  with flow_not_stuck [of "length ds" False False w q x] st m show False by auto
next
  case (suspended ds x)
  with flow_not_stuck [of "length ds" True susp w q x] st m show False by (auto split: if_splits)
next
  case (worker_polls ds p)
  with st show False by (auto simp: stuck_worker_def)
qed (use st m in \<open>auto simp: stuck_worker_def runner.simps split: if_splits\<close>)

lemma race_can_step:
  assumes inv: "race_inv cnt s" and nd: "rc_main s \<noteq> Rm_done"
  shows "\<exists>c v. race_act cnt c s = Some v"
proof (rule ccontr)
  assume "\<not> ?thesis"
  then have main: "race_main_step cnt s = None" and worker: "worker_step cnt 0 s = None"
    by (metis not_None_eq race_act.simps(1), metis not_None_eq race_act.simps(2))
  have ok: "race_ok cnt (rc_main s) (activity s) (tasks (g_worker s)) (rc_frames s)
      (g_task_suspended s) (g_task_finished s)"
    and team: "team_ok (rc_main s) (threads (g_worker s)) (rc_job s 0)"
    using inv by (simp_all add: race_inv_def)
  from main_enabled [OF main nd] have m: "\<not> no_threads (rc_main s)" by (auto simp: no_threads_def)
  from worker_enabled [OF team m worker] show False
  proof (elim disjE conjE exE)
    fix w assume "rc_main s = Rm_join" "join (g_worker s) = Some w"
    with main show False by (simp add: race_main_step_def)
  next
    assume "activity s = None" "rc_main s \<noteq> Rm_join" "tasks (g_worker s) = []"
    then have "stuck_worker (activity s) (tasks (g_worker s)) (g_task_suspended s)" by (simp add: stuck_worker_def)
    with main_enabled [OF main nd] ok \<open>rc_main s \<noteq> Rm_join\<close> show False using not_stuck by blast
  next
    fix j p assume a: "activity s = Some (j, L_in p)" "code_step cnt p s = None"
    from code_step_enabled [OF a(2)] a(1)
    have st: "stuck_worker (activity s) (tasks (g_worker s)) (g_task_suspended s)"
      by (auto simp: stuck_worker_def)
    show False
    proof (cases "rc_main s = Rm_join")
      case True
      have "p = R_finish" using ok a(1) unfolding True by (elim race_ok_joinE) (auto simp: runner.simps split: if_splits)
      with a(2) show False by (simp add: code_step_def)
    next
      case False
      with main_enabled [OF main nd] ok st show False using not_stuck by blast
    qed
  qed
qed


section \<open>Properties\<close>

lemma race_ok_inside:
  assumes "race_ok cnt m (Some (j, p)) q f u v"
  shows "(case j of Resume_single k \<Rightarrow> alive f k | Resume_task \<Rightarrow> task_point f \<noteq> Destroyed) \<and>
    (j = Resume_task \<longrightarrow> (\<forall>c. m \<noteq> Rm_in c))"
  using assms
proof cases
  case (main_polls ds x pc)
  with flow_single [of "length ds" False False "Some (j, p)" q x] show ?thesis
    by (auto elim!: flow_jobE)
next
  case (suspended ds x)
  with flow_single [of "length ds" True u "Some (j, p)" q x] show ?thesis
    by (auto elim!: flow_jobE split: if_splits)
qed (auto simp: runner.simps frames_at_def)

lemma race_ok_no_ub: "race_ok cnt m w q f u v \<Longrightarrow> \<not> fr_ub f"
  by (erule race_ok.cases) (auto simp: frames_at_def no_frames_def)

text \<open>C5: no race over a frame. In every reachable state, whichever of the two exchanges of \<^verbatim>\<open>done_\<close>
  comes first and however the threads interleave: no coroutine has been resumed that was not
  suspended, no promise touched after its frame was destroyed, and no frame destroyed while the
  pool's thread was inside its resume or had still to publish that it is done with it; a frame the
  pool's thread is in exists; and the task never runs on both threads.\<close>

theorem race_frames_safe:
  assumes "reachable (race_act cnt) race_init s"
  shows "\<not> fr_ub (rc_frames s) \<and>
    (if inside (Resume_single k) s then alive (rc_frames s) k else True) \<and>
    (if inside Resume_task s then task_point (rc_frames s) \<noteq> Destroyed \<and> (\<forall>c. rc_main s \<noteq> Rm_in c) else True)"
proof -
  have inv: "race_inv cnt s" using assms by (rule race.reachable_inv)
  then have ok: "race_ok cnt (rc_main s) (activity s) (tasks (g_worker s)) (rc_frames s)
      (g_task_suspended s) (g_task_finished s)"
    and team: "team_ok (rc_main s) (threads (g_worker s)) (rc_job s 0)"
    by (simp_all add: race_inv_def)
  note ins = inside_iff [OF team]
  have "(case j of Resume_single k \<Rightarrow> alive (rc_frames s) k | Resume_task \<Rightarrow> task_point (rc_frames s) \<noteq> Destroyed) \<and>
    (j = Resume_task \<longrightarrow> (\<forall>c. rc_main s \<noteq> Rm_in c))" if "inside j s" for j
    using that ok race_ok_inside unfolding ins by metis
  from this [of "Resume_single k"] this [of Resume_task] race_ok_no_ub [OF ok] show ?thesis by simp
qed

text \<open>Schedules: main runs up to its exchange; the pool's thread runs the single task to its end.\<close>

definition main_first :: "race_action list" where
  "main_first = replicate 60 Main_moves"

definition worker_first :: "race_action list" where
  "worker_first = replicate 8 Main_moves @ replicate 9 (Worker_moves 0) @ replicate 5 Main_moves"

definition race_example :: race where
  "race_example = the (run_sched (race_act 1) (main_first @ replicate 6 (Worker_moves 0)) race_start)"

lemma race_example_run:
  "run_sched (race_act 1) (main_first @ replicate 6 (Worker_moves 0)) race_start = Some race_example"
  "inside (Resume_single 0) race_example"
proof -
  have "case run_sched (race_act 1) (main_first @ replicate 6 (Worker_moves 0)) race_start of
      None \<Rightarrow> False | Some s \<Rightarrow> inside (Resume_single 0) s" by code_simp
  then show "run_sched (race_act 1) (main_first @ replicate 6 (Worker_moves 0)) race_start = Some race_example"
    "inside (Resume_single 0) race_example"
    by (auto simp: race_example_def simp del: run_sched.simps split: option.splits)
qed

lemma race_example_reachable: "reachable (race_act 1) race_init race_example"
  using run_sched_from_init [where init = race_init, OF refl race_example_run(1)] .

theorem race_frames_safe_witness:
  "reachable (race_act 1) race_init race_example \<and> alive (rc_frames race_example) 0"
  using race_frames_safe [OF race_example_reachable, of 0] race_example_reachable race_example_run(2) by simp

interpretation race_end: ending_system "race_act cnt" race_init "race_inv cnt" "\<lambda>s. rc_main s = Rm_done" "race_left cnt"
  for cnt
  by unfold_locales (blast intro: race_can_step, rule race_act_left)

inductive_cases race_ok_doneE: "race_ok cnt Rm_done w q f u v"

text \<open>C7: the program ends, under every scheduler. No reachable state before the end is stuck, in
  particular neither \<^verbatim>\<open>join\<close> nor one of the loops on a flag waits for ever while nobody else can
  move; every step lowers a bound, which no execution exceeds, and from every state some execution
  reaches the end. There the pool's thread is joined, its queue is empty,
  all \<^verbatim>\<open>count\<close> single tasks have been run and destroyed, and so has the task.\<close>

theorem race_program_terminates:
  assumes "reachable (race_act cnt) race_init s"
  shows "(rc_main s \<noteq> Rm_done \<longrightarrow> (\<exists>c v. race_act cnt c s = Some v)) \<and>
    (\<forall>cs s'. run_sched (race_act cnt) cs s = Some s' \<longrightarrow> length cs + race_left cnt s' \<le> race_left cnt s) \<and>
    (\<exists>cs s'. run_sched (race_act cnt) cs s = Some s' \<and> rc_main s' = Rm_done) \<and>
    (rc_main s = Rm_done \<longrightarrow> threads (g_worker s) = [] \<and> tasks (g_worker s) = [] \<and>
       length (singles (rc_frames s)) = nat cnt \<and> all_dead (singles (rc_frames s)) \<and>
       task_point (rc_frames s) = Destroyed \<and> \<not> fr_ub (rc_frames s))"
proof -
  have inv: "race_inv cnt s" using assms by (rule race.reachable_inv)
  have "threads (g_worker s) = [] \<and> tasks (g_worker s) = [] \<and>
       length (singles (rc_frames s)) = nat cnt \<and> all_dead (singles (rc_frames s)) \<and>
       task_point (rc_frames s) = Destroyed \<and> \<not> fr_ub (rc_frames s)" if fin: "rc_main s = Rm_done"
  proof -
    have "race_ok cnt Rm_done (activity s) (tasks (g_worker s)) (rc_frames s) (g_task_suspended s) (g_task_finished s)"
      and "team_ok Rm_done (threads (g_worker s)) (rc_job s 0)" using inv fin by (simp_all add: race_inv_def)
    then show ?thesis
      by (elim race_ok_doneE) (auto simp: runner.simps frames_at_def team_ok_def no_threads_def split: if_splits)
  qed
  with race_end.progress [OF inv] race_end.run_bound [OF inv] race_end.runs_to_end [OF inv] show ?thesis by blast
qed

theorem race_program_terminates_witness:
  "\<exists>cs s'. run_sched (race_act 1) cs race_example = Some s' \<and> rc_main s' = Rm_done"
  using race_program_terminates [OF race_example_reachable] by blast

text \<open>The race is real. Both orders of the two exchanges happen: with one the task goes on in
  main and finishes there, with the other main suspends it and the pool's thread finishes it.\<close>

theorem race_both_orders_happen:
  "(\<exists>s. run_sched (race_act 1) worker_first race_start = Some s \<and> \<not> g_task_suspended s \<and>
      rc_main s = Rm_in (R_task T_return)) \<and>
   (\<exists>s. run_sched (race_act 1) (main_first @ Main_moves # replicate 17 (Worker_moves 0)) race_start = Some s \<and>
      rc_main s = Rm_wait \<and> activity s = Some (Resume_task, L_in R_finish))"
proof -
  have "case run_sched (race_act 1) worker_first race_start of None \<Rightarrow> False
    | Some s \<Rightarrow> \<not> g_task_suspended s \<and> rc_main s = Rm_in (R_task T_return)" by code_simp
  moreover have "case run_sched (race_act 1) (main_first @ Main_moves # replicate 17 (Worker_moves 0)) race_start of
      None \<Rightarrow> False | Some s \<Rightarrow> rc_main s = Rm_wait \<and> activity s = Some (Resume_task, L_in R_finish)"
    by code_simp
  ultimately show ?thesis by (simp split: option.splits)
qed

end
