(* ===== verification/Log.thy ===== *)
theory Log
  imports Atomics
begin

text \<open>
  \<^verbatim>\<open>coroutine/log.hpp\<close>: the small thread ids that the log lines of the coroutine programs begin
  with, and the beginning of a line. The text behind it is not modelled.
\<close>

section \<open>Thread ids\<close>

text \<open>\<^verbatim>\<open>g_thread_counter\<close> is shared; \<^verbatim>\<open>my_tid\<close> is a thread's own and set by its first call.\<close>

record log_ids =
  g_thread_counter :: u32
  my_tid :: "tid \<Rightarrow> u32 option"

definition log_ids_start :: log_ids where
  "log_ids_start = \<lparr>g_thread_counter = 0, my_tid = (\<lambda>_. None)\<rparr>"

definition get_tid :: "tid \<Rightarrow> log_ids \<Rightarrow> u32 \<times> log_ids" where
  "get_tid t s =
     (case my_tid s t of
        Some i \<Rightarrow> (i, s)
      | None \<Rightarrow>
          (case atomic_fetch_add (g_thread_counter s) 1 of (old, new) \<Rightarrow>
             (new, s\<lparr>g_thread_counter := new, my_tid := (my_tid s)(t \<mapsto> new)\<rparr>)))"

text \<open>The calls of an execution, by thread, and what they return.\<close>

fun get_tids :: "tid list \<Rightarrow> log_ids \<Rightarrow> u32 list \<times> log_ids" where
  "get_tids [] s = ([], s)"
| "get_tids (t # ts) s =
     (case get_tid t s of (i, s) \<Rightarrow> case get_tids ts s of (is, s) \<Rightarrow> (i # is, s))"

section \<open>The beginning of a line\<close>

definition digit :: "nat \<Rightarrow> char" where
  "digit d = char_of (48 + d)"

fun decimal :: "nat \<Rightarrow> string" where
  "decimal n = (if n < 10 then [digit n] else decimal (n div 10) @ [digit (n mod 10)])"

text \<open>\<^verbatim>\<open>{:02} | {:>{}}\<close> of the id and of an empty string in twice the depth columns.\<close>

definition log_prefix :: "nat \<Rightarrow> nat \<Rightarrow> string" where
  "log_prefix tid depth =
     (if tid < 10 then ''0'' else []) @ decimal tid @ '' | '' @ replicate (2 * depth) CHR '' ''"

text \<open>Reading the id and the depth off a beginning.\<close>

definition undecimal :: "string \<Rightarrow> nat" where
  "undecimal cs = foldl (\<lambda>n c. 10 * n + (of_char c - 48)) 0 cs"

definition read_prefix :: "string \<Rightarrow> nat \<times> nat" where
  "read_prefix cs =
     (let ds = takeWhile (\<lambda>c. c \<noteq> CHR '' '') cs
      in (undecimal ds, (length cs - length ds - 3) div 2))"

section \<open>Properties\<close>

lemma of_char_digit: "d < 10 \<Longrightarrow> (of_char (digit d) :: nat) = 48 + d"
  by (simp add: digit_def)

lemma digit_not_space: "d < 10 \<Longrightarrow> digit d \<noteq> CHR '' ''"
proof
  assume d: "d < 10" and "digit d = CHR '' ''"
  then have "(of_char (digit d) :: nat) = of_char CHR '' ''" by simp
  with of_char_digit [OF d] show False by simp
qed

lemma undecimal_snoc: "undecimal (cs @ [c]) = 10 * undecimal cs + (of_char c - 48)"
  by (simp add: undecimal_def)

declare decimal.simps [simp del]

lemma undecimal_decimal: "undecimal (decimal n) = n"
proof (induction n rule: decimal.induct)
  case (1 n)
  show ?case
  proof (cases "n < 10")
    case True
    then show ?thesis by (simp add: decimal.simps [of n] undecimal_def of_char_digit)
  next
    case False
    with 1 show ?thesis by (simp add: decimal.simps [of n] undecimal_snoc of_char_digit)
  qed
qed

lemma decimal_no_space: "c \<in> set (decimal n) \<Longrightarrow> c \<noteq> CHR '' ''"
proof (induction n arbitrary: c rule: decimal.induct)
  case (1 n)
  have "c \<in> set (if n < 10 then [digit n] else decimal (n div 10) @ [digit (n mod 10)])"
    using 1(2) unfolding decimal.simps [of n] .
  with 1(1) digit_not_space [of n] digit_not_space [of "n mod 10"] show ?case by (auto split: if_splits)
qed

text \<open>A log line tells its thread and its depth: from its beginning both can be read back, for
  every id and every depth of nested resumes.\<close>

lemma log_prefix_roundtrip: "read_prefix (log_prefix tid depth) = (tid, depth)"
proof -
  let ?ds = "(if tid < 10 then ''0'' else []) @ decimal tid"
  have "takeWhile (\<lambda>c. c \<noteq> CHR '' '') (?ds @ '' | '' @ replicate (2 * depth) CHR '' '') = ?ds"
    using decimal_no_space by (subst takeWhile_append2) auto
  moreover have "undecimal ?ds = tid"
    using undecimal_decimal [of tid] by (simp add: undecimal_def)
  ultimately show ?thesis by (simp add: read_prefix_def log_prefix_def Let_def)
qed

text \<open>The ids given out so far are those up to the counter, each to one thread.\<close>

definition ids_ok :: "tid list \<Rightarrow> log_ids \<Rightarrow> bool" where
  "ids_ok ks s \<longleftrightarrow> g_thread_counter s = of_nat (length ks) \<and> distinct ks \<and>
     (\<forall>n < length ks. my_tid s (ks ! n) = Some (of_nat (Suc n))) \<and> (\<forall>t. t \<notin> set ks \<longrightarrow> my_tid s t = None)"

lemma get_tid_ok:
  assumes "ids_ok ks s" and "get_tid t s = (i, s')"
  shows "\<exists>ks'. ids_ok ks' s' \<and> set ks' = insert t (set ks)" "my_tid s' t = Some i"
    "my_tid s u = Some j \<Longrightarrow> my_tid s' u = Some j"
proof -
  have "(\<exists>ks'. ids_ok ks' s' \<and> set ks' = insert t (set ks)) \<and> my_tid s' t = Some i \<and>
      (my_tid s u = Some j \<longrightarrow> my_tid s' u = Some j)"
  proof (cases "t \<in> set ks")
    case True
    then obtain n where "n < length ks" "ks ! n = t" by (auto simp: in_set_conv_nth)
    with assms have "my_tid s t = Some (of_nat (Suc n))" by (auto simp: ids_ok_def)
    with assms True show ?thesis by (auto simp: get_tid_def insert_absorb)
  next
    case False
    with assms(1) have "my_tid s t = None" by (simp add: ids_ok_def)
    with assms have i: "i = of_nat (Suc (length ks))"
      and s': "s' = s\<lparr>g_thread_counter := i, my_tid := (my_tid s)(t \<mapsto> i)\<rparr>"
      by (auto simp: get_tid_def atomic_fetch_add_def ids_ok_def)
    have ne: "ks ! n \<noteq> t" if "n < length ks" for n using False that by (metis nth_mem)
    have "ids_ok (ks @ [t]) s'"
      using assms(1) False ne unfolding ids_ok_def s' i by (auto simp: nth_append less_Suc_eq)
    moreover have "my_tid s u = Some j \<longrightarrow> my_tid s' u = Some j"
      using \<open>my_tid s t = None\<close> s' by auto
    ultimately show ?thesis using s' by (intro conjI exI [of _ "ks @ [t]"]) auto
  qed
  then show "\<exists>ks'. ids_ok ks' s' \<and> set ks' = insert t (set ks)" "my_tid s' t = Some i"
    "my_tid s u = Some j \<Longrightarrow> my_tid s' u = Some j" by blast+
qed

lemma get_tids_ok:
  "ids_ok ks s \<Longrightarrow> get_tids ts s = (is, s') \<Longrightarrow>
    (\<exists>ks'. ids_ok ks' s' \<and> set ks' = set ks \<union> set ts) \<and> map Some is = map (my_tid s') ts \<and>
    (\<forall>u j. my_tid s u = Some j \<longrightarrow> my_tid s' u = Some j)"
proof (induction ts arbitrary: ks s "is")
  case Nil
  then show ?case by auto
next
  case (Cons t ts)
  obtain i s1 where g: "get_tid t s = (i, s1)" by (cases "get_tid t s")
  obtain js where js: "get_tids ts s1 = (js, s')" "is = i # js"
    using Cons.prems(2) g by (auto split: prod.splits)
  from get_tid_ok(1) [OF Cons.prems(1) g] obtain ks1 where k1: "ids_ok ks1 s1" "set ks1 = insert t (set ks)"
    by blast
  have t: "my_tid s1 t = Some i" using get_tid_ok(2) [OF Cons.prems(1) g] .
  have keep: "my_tid s u = Some j \<Longrightarrow> my_tid s1 u = Some j" for u j
    using get_tid_ok(3) [OF Cons.prems(1) g] .
  note ih = Cons.IH [OF k1(1) js(1)]
  then obtain ks' where "ids_ok ks' s'" "set ks' = set ks1 \<union> set ts" by blast
  moreover from this(2) k1(2) have "set ks' = set ks \<union> set (t # ts)" by auto
  ultimately show ?case using ih t keep js(2) by auto
qed

text \<open>C34: every thread has an id of its own. In any sequence of calls of \<^verbatim>\<open>get_tid\<close> by fewer than
  \<open>2 ^ 31\<close> threads, two calls return the same id exactly if the same thread made them, and every id
  is positive as an \<^verbatim>\<open>int\<close> and at most the number of threads.\<close>

theorem get_tid_identifies_thread:
  assumes "get_tids ts log_ids_start = (is, s)" and "card (set ts) < 2 ^ 31"
    and "i < length ts" and "j < length ts"
  shows "(is ! i = is ! j \<longleftrightarrow> ts ! i = ts ! j) \<and> 0 < sint (is ! i) \<and> sint (is ! i) \<le> int (card (set ts))"
proof -
  have "ids_ok [] log_ids_start" by (simp add: ids_ok_def log_ids_start_def)
  from get_tids_ok [OF this assms(1)] obtain ks where ks: "ids_ok ks s" "set ks = set ts"
    and m: "map Some is = map (my_tid s) ts" by auto
  have len: "length ks < 2 ^ 31" "length ks = card (set ts)"
    using assms(2) ks by (simp_all add: ids_ok_def distinct_card [symmetric])
  have at: "\<exists>n < length ks. ks ! n = ts ! k \<and> is ! k = of_nat (Suc n)" if "k < length ts" for k
  proof -
    have "ts ! k \<in> set ks" using that ks(2) by simp
    then obtain n where n: "n < length ks" "ks ! n = ts ! k" by (auto simp: in_set_conv_nth)
    have "length is = length ts" using m by (metis length_map)
    then have "Some (is ! k) = my_tid s (ts ! k)" using m that by (metis nth_map)
    with n ks(1) show ?thesis by (metis ids_ok_def option.inject)
  qed
  from at [OF assms(3)] obtain n where n: "n < length ks" "ks ! n = ts ! i" "is ! i = of_nat (Suc n)" by blast
  from at [OF assms(4)] obtain l where l: "l < length ks" "ks ! l = ts ! j" "is ! j = of_nat (Suc l)" by blast
  have small: "unat (of_nat (Suc k) :: u32) = Suc k" if "k < length ks" for k
    using that len unfolding unat_of_nat by (intro mod_less) simp
  have "sint (of_nat (Suc k) :: u32) = int (Suc k)" if "k < length ks" for k
    using that len unfolding signed_of_nat by (subst signed_take_bit_int_eq_self) simp_all
  with n len have "0 < sint (is ! i)" "sint (is ! i) \<le> int (card (set ts))" by simp_all
  moreover have "is ! i = is ! j \<longleftrightarrow> n = l" using n l small by (metis nat.inject)
  moreover have "n = l \<longleftrightarrow> ts ! i = ts ! j"
    using n l ks(1) by (metis ids_ok_def nth_eq_iff_index_eq)
  ultimately show ?thesis by blast
qed

theorem get_tid_identifies_thread_witness:
  "fst (get_tids [7, 3, 7] log_ids_start) = [1, 2, 1] \<and> 0 < sint (1 :: u32)"
proof -
  obtain s where s: "get_tids [7, 3, 7] log_ids_start = ([1, 2, 1], s)"
    by (auto simp: get_tid_def log_ids_start_def atomic_fetch_add_def)
  from get_tid_identifies_thread [OF s, of 0 2] s show ?thesis by simp
qed

end
