(* ===== verification/Log_Lines.thy ===== *)
theory Log_Lines
  imports Log
begin

text \<open>
  \<^verbatim>\<open>coroutine/log.hpp\<close>, the lines: what \<^verbatim>\<open>LOG_MSG\<close>, \<^verbatim>\<open>LOG_FUNCTION\<close> and the trackers of \<^verbatim>\<open>TRACK_RESUME\<close>
  print, as one thread executes them. A line is the string \<^verbatim>\<open>std::println\<close> puts out without the
  newline; the name of the function and the formatted message are given.
\<close>

section \<open>The macros\<close>

text \<open>The depth is the thread's \<^verbatim>\<open>g_stack_depth\<close>.\<close>

record log_state =
  log_depth :: int
  log_out :: "string list"

definition log_println :: "nat \<Rightarrow> string \<Rightarrow> log_state \<Rightarrow> log_state" where
  "log_println i text s = s\<lparr>log_out := log_out s @ [log_prefix i (nat (log_depth s)) @ text]\<rparr>"

definition log_msg_f :: "nat \<Rightarrow> string \<Rightarrow> string \<Rightarrow> log_state \<Rightarrow> log_state" where
  "log_msg_f i func msg = log_println i (func @ '' --> '' @ msg)"

definition log_f :: "nat \<Rightarrow> string \<Rightarrow> log_state \<Rightarrow> log_state" where
  "log_f i func = log_println i func"

definition log_line :: "nat \<Rightarrow> log_state \<Rightarrow> log_state" where
  "log_line i s = log_println i (replicate 65 CHR ''-'' @ '' '' @ decimal (nat (log_depth s))) s"

text \<open>The two trackers: constructor and destructor.\<close>

definition stack_frame_tracker :: "log_state \<Rightarrow> log_state" where
  "stack_frame_tracker s = s\<lparr>log_depth := log_depth s + 1\<rparr>"

definition stack_frame_tracker_end :: "log_state \<Rightarrow> log_state" where
  "stack_frame_tracker_end s = s\<lparr>log_depth := log_depth s - 1\<rparr>"

definition line_tracker :: "nat \<Rightarrow> log_state \<Rightarrow> log_state" where
  "line_tracker i = log_line i"

definition line_tracker_end :: "nat \<Rightarrow> log_state \<Rightarrow> log_state" where
  "line_tracker_end i = log_line i"

text \<open>The trackers are destroyed in the reverse order of their construction.\<close>

definition track_resume :: "nat \<Rightarrow> (log_state \<Rightarrow> log_state) \<Rightarrow> log_state \<Rightarrow> log_state" where
  "track_resume i resume_expr s =
     (let s = line_tracker i (stack_frame_tracker s); s = resume_expr s
      in stack_frame_tracker_end (line_tracker_end i s))"

text \<open>What is printed of a coroutine handle: the lower half of its address.\<close>

definition short_addr :: "u64 \<Rightarrow> u32" where
  "short_addr handle = ucast (handle AND 0xFFFFFFFF)"

lemma short_addr_ucast: "short_addr h = ucast h"
proof -
  have m: "(0xFFFFFFFF :: u64) = mask 32" by (simp add: mask_eq_exp_minus_1)
  show ?thesis
    unfolding short_addr_def m by (rule bit_word_eqI) (simp add: bit_simps bit_mask_iff)
qed

section \<open>What a run prints\<close>

text \<open>What a thread logs: a message, the name of a function, or a tracked resume with all inside it.\<close>

datatype log_event = Log_msg string string | Log_function string | Log_resume "log_event list"

fun run_event :: "nat \<Rightarrow> log_event \<Rightarrow> log_state \<Rightarrow> log_state"
  and run_events :: "nat \<Rightarrow> log_event list \<Rightarrow> log_state \<Rightarrow> log_state" where
  "run_event i (Log_msg func msg) s = log_msg_f i func msg s"
| "run_event i (Log_function func) s = log_f i func s"
| "run_event i (Log_resume es) s = track_resume i (run_events i es) s"
| "run_events i [] s = s"
| "run_events i (e # es) s = run_events i es (run_event i e s)"

text \<open>The nesting of each line.\<close>

fun event_levels :: "nat \<Rightarrow> log_event \<Rightarrow> nat list"
  and events_levels :: "nat \<Rightarrow> log_event list \<Rightarrow> nat list" where
  "event_levels d (Log_msg func msg) = [d]"
| "event_levels d (Log_function func) = [d]"
| "event_levels d (Log_resume es) = Suc d # events_levels (Suc d) es @ [Suc d]"
| "events_levels d [] = []"
| "events_levels d (e # es) = event_levels d e @ events_levels d es"

text \<open>A function has a name, and it does not begin with a space.\<close>

definition name_ok :: "string \<Rightarrow> bool" where
  "name_ok func \<longleftrightarrow> (\<exists>c cs. func = c # cs \<and> c \<noteq> CHR '' '')"

fun event_ok :: "log_event \<Rightarrow> bool" where
  "event_ok (Log_msg func msg) \<longleftrightarrow> name_ok func"
| "event_ok (Log_function func) \<longleftrightarrow> name_ok func"
| "event_ok (Log_resume es) \<longleftrightarrow> (\<forall>e \<in> set es. event_ok e)"

text \<open>Reading thread and depth off a whole line: the spaces after the bar are the indentation.\<close>

definition read_line :: "string \<Rightarrow> nat \<times> nat" where
  "read_line cs =
     (let ds = takeWhile (\<lambda>c. c \<noteq> CHR '' '') cs
      in (undecimal ds, length (takeWhile (\<lambda>c. c = CHR '' '') (drop (length ds + 3) cs)) div 2))"

section \<open>The lines show the nesting\<close>

lemma read_line_text:
  assumes "name_ok text"
  shows "read_line (log_prefix i d @ text) = (i, d)"
proof -
  obtain c cs where first: "text = c # cs" "c \<noteq> CHR '' ''" using assms by (auto simp: name_ok_def)
  let ?ds = "(if i < 10 then ''0'' else []) @ decimal i"
  have line: "log_prefix i d @ text = ?ds @ '' | '' @ replicate (2 * d) CHR '' '' @ text"
    by (simp add: log_prefix_def)
  have ds: "takeWhile (\<lambda>c. c \<noteq> CHR '' '') (log_prefix i d @ text) = ?ds"
    unfolding line using decimal_no_space by (subst takeWhile_append2) auto
  have "drop (length ?ds + 3) (log_prefix i d @ text) = replicate (2 * d) CHR '' '' @ text"
    unfolding line by simp
  moreover have "takeWhile (\<lambda>c. c = CHR '' '') (replicate (2 * d) CHR '' '' @ text) = replicate (2 * d) CHR '' ''"
    using first by (subst takeWhile_append2) auto
  moreover have "undecimal ?ds = i" using undecimal_decimal [of i] by (simp add: undecimal_def)
  ultimately show ?thesis unfolding read_line_def ds Let_def by (simp only: length_replicate) simp
qed

definition prints :: "nat \<Rightarrow> nat list \<Rightarrow> log_state \<Rightarrow> log_state \<Rightarrow> bool" where
  "prints i ds s s' \<longleftrightarrow> log_depth s' = log_depth s \<and>
     (\<exists>ls. log_out s' = log_out s @ ls \<and> map read_line ls = map (Pair i) ds)"

lemma prints_println: "name_ok text \<Longrightarrow> prints i [nat (log_depth s)] s (log_println i text s)"
  by (simp add: prints_def log_println_def read_line_text)

lemma prints_trans: "prints i ds s s' \<Longrightarrow> prints i es s' s'' \<Longrightarrow> prints i (ds @ es) s s''"
  by (auto simp: prints_def)

lemma prints_line: "prints i [nat (log_depth s)] s (log_line i s)"
  by (simp add: log_line_def prints_println name_ok_def numeral_eq_Suc)

lemma prints_track:
  assumes "0 \<le> log_depth s"
    and "\<And>s. log_depth s = d + 1 \<Longrightarrow> prints i ds s (f s)" and "log_depth s = d"
  shows "prints i (Suc (nat d) # ds @ [Suc (nat d)]) s (track_resume i f s)"
proof -
  define s0 where "s0 = stack_frame_tracker s"
  have d0: "log_depth s0 = d + 1" and o0: "log_out s0 = log_out s"
    using assms(3) by (simp_all add: s0_def stack_frame_tracker_def)
  let ?s1 = "log_line i s0" and ?s2 = "f (log_line i s0)"
  have level: "nat (d + 1) = Suc (nat d)" using assms(1,3) by simp
  have p1: "prints i [Suc (nat d)] s0 ?s1" using prints_line [of i s0] by (simp add: d0 level)
  then have d1: "log_depth ?s1 = d + 1" by (simp add: prints_def d0)
  from assms(2) [OF d1] have p2: "prints i ds ?s1 ?s2" .
  then have d2: "log_depth ?s2 = d + 1" by (simp add: prints_def d1)
  have p3: "prints i [Suc (nat d)] ?s2 (log_line i ?s2)" using prints_line [of i ?s2] by (simp add: d2 level)
  from prints_trans [OF p1 prints_trans [OF p2 p3]]
  show ?thesis
    using assms(3) unfolding prints_def track_resume_def Let_def line_tracker_def line_tracker_end_def
    by (auto simp: s0_def [symmetric] d0 o0 stack_frame_tracker_end_def)
qed

lemma run_event_prints:
  "event_ok e \<Longrightarrow> 0 \<le> log_depth s \<Longrightarrow> prints i (event_levels (nat (log_depth s)) e) s (run_event i e s)"
  "\<forall>e \<in> set es. event_ok e \<Longrightarrow> 0 \<le> log_depth s \<Longrightarrow>
    prints i (events_levels (nat (log_depth s)) es) s (run_events i es s)"
proof (induction i e s and i es s rule: run_event_run_events.induct)
  case (1 i func msg s)
  then have "name_ok (func @ '' --> '' @ msg)" by (auto simp: name_ok_def)
  then show ?case by (simp add: log_msg_f_def prints_println)
next
  case (2 i func s)
  then show ?case by (simp add: log_f_def prints_println)
next
  case (3 i es s)
  have "prints i (events_levels (Suc (nat (log_depth s))) es) r (run_events i es r)"
    if "log_depth r = log_depth s + 1" for r
  proof -
    have "prints i (events_levels (nat (log_depth r)) es) r (run_events i es r)"
      by (rule 3(1)) (use 3(2,3) that in simp_all)
    with 3(3) that show ?thesis by (simp add: nat_add_distrib)
  qed
  then show ?case using 3(3) by (simp add: prints_track)
next
  case (4 i s)
  then show ?case by (simp add: prints_def)
next
  case (5 i e es s)
  then have "prints i (event_levels (nat (log_depth s)) e) s (run_event i e s)" by simp
  moreover from this have "log_depth (run_event i e s) = log_depth s" by (simp add: prints_def)
  with 5 have "prints i (events_levels (nat (log_depth s)) es) (run_event i e s) (run_events i es (run_event i e s))"
    by simp
  ultimately show ?case by (simp add: prints_trans)
qed


text \<open>
  Whatever a thread logs, inside any nesting of tracked resumes: it ends at the depth at which it
  began, and from each line it has printed the thread and the depth of nested resumes can be read
  back.
\<close>

theorem log_lines_show_nesting:
  assumes "\<forall>e \<in> set es. event_ok e" and "0 \<le> log_depth s"
  shows "log_depth (run_events i es s) = log_depth s \<and>
    (\<exists>ls. log_out (run_events i es s) = log_out s @ ls \<and>
       map read_line ls = map (Pair i) (events_levels (nat (log_depth s)) es))"
  using run_event_prints(2) [OF assms] by (simp add: prints_def)

end
