(* ===== verification/Spec2Isabelle.thy ===== *)
theory Spec2Isabelle
  imports Tri_Lock Pthread_Mutex Kernel_Equiv Kernel_Linear Lock_Kernel Cond_Stack Cond_Equiv Std_Wrappers Worker Generator
    Coro_Stack Race_Props Log_Lines
begin

text \<open>
  \<^bold>\<open>Two groups of programs.\<close> The repository accompanies a set of notes with code of two kinds, both under
  \<^verbatim>\<open>src/codes\<close>.

  \<^item> \<^verbatim>\<open>pseudo_cond_var\<close> is a condition variable from the kernel up: \<^verbatim>\<open>kernel/k_futex.h\<close> (futex queues
    over the stand-ins of \<^verbatim>\<open>k_sched.h\<close>), \<^verbatim>\<open>kernel/syscall.h\<close> (the way into the kernel),
    \<^verbatim>\<open>nptl/atomic.h\<close>, \<^verbatim>\<open>three_states_lock_t.h\<close>, \<^verbatim>\<open>pthread_mutex.h\<close> and \<^verbatim>\<open>pthread_cond.h\<close> (locks and the
    condition variable with two groups of waiters, as in glibc), and the C++ classes \<^verbatim>\<open>std/mutex\<close> and
    \<^verbatim>\<open>std/condition_variable\<close> on top.
  \<^item> \<^verbatim>\<open>coroutine\<close> is four ways to resume an awaiting coroutine: nested resumes and the two builds of
    \<^verbatim>\<open>symmetric_resume.cpp\<close> with a flag (\<^verbatim>\<open>SYMMETRIC\<close>, and \<^verbatim>\<open>SYMMETRIC_EXTRA\<close> with a worker thread from
    \<^verbatim>\<open>worker.hpp\<close>), symmetric transfer in \<^verbatim>\<open>symmetric_trans.cpp\<close>, over the shared \<^verbatim>\<open>coro.hpp\<close> and
    \<^verbatim>\<open>log.hpp\<close>; and \<^verbatim>\<open>generator.cpp\<close>, a generator shared by two threads.

  \<^bold>\<open>How code becomes definitions.\<close> A structure is a record with its fields, a 32- or 64-bit word is a
  word of that width, program points are datatypes that carry the C locals still needed. Every
  concurrent component is one executable function from an action (the thread that moves, and what
  the code leaves open: a spurious failure of a weak exchange, the sleeper a wake-up picks) and a
  state to the next state, where \<open>None\<close> says that the thread cannot move. One action is one access to
  memory that other threads can see. \<open>Prelude\<close> defines executions of such functions and the locales
  that lift one-step facts to them: \<open>safe_system\<close> (an invariant holds in all reachable states),
  \<open>simulated_system\<close> (a simulation by an abstract relation), \<open>history_refinement\<close> (observed histories
  are those of a specification) and \<open>ending_system\<close> (progress and a bound
  that every step lowers give termination). Each component interprets the ones it satisfies.
\<close>

text \<open>
  \<^bold>\<open>The lock and the mutex.\<close> \<open>Atomics\<close> has the read-modify-write macros by the values they return and
  store. \<open>Tri_Lock\<close> runs \<^verbatim>\<open>three_states_lock\<close> and \<^verbatim>\<open>three_states_unlock\<close> for any number of threads; the
  futex is the list of sleepers. Shown: mutual exclusion and untouched upper bits of the word; that every
  history of returns from lock, unlocks and writes to the upper bits is one of an abstract lock, for which a
  lock returns only to one thread at a time; progress of a thread that runs alone; and an execution in which
  the lock ends free with a thread asleep on it (the slow path does not retry after a failed
  exchange that saw the lock held without waiters); without that fall-through every sleeper is
  announced. \<open>Pthread_Mutex\<close> adds \<^verbatim>\<open>pthread_mutex_init\<close> and \<^verbatim>\<open>pthread_mutex_trylock\<close> to the same system.

  \<^bold>\<open>The kernel.\<close> \<open>Kernel_Heap\<close> has the bucket queues with their links in memory: a link is the head
  of a bucket or the \<^verbatim>\<open>next\<close> field of a waiter's node. \<^verbatim>\<open>kernel_futex_wait\<close> and \<^verbatim>\<open>kernel_futex_wake\<close>
  are there in one piece; the walk over a queue has fuel, one more than the length of the queue,
  which \<open>kernel_futex_wake_correct\<close> shows to be enough. \<open>Kernel_Conc\<close> interleaves them, with the
  spinlock of the bucket as a word, and shows that queues stay well formed lists of the queued
  nodes, that the lock excludes, that a waker with the lock sees every sleeper, and that the check
  of the waiter count outside the lock can miss one. \<open>Kernel_Linear\<close> has the specification of the
  concurrent calls: each wait compares and queues in one step, each wake takes its threads off a
  list in one step, and the one exception is a wake that misses threads still arriving, that is,
  between their comparison and the moment they go to sleep, which is an event of the history. Every
  history of calls, results, stores and sleeps of fewer than \<open>2 ^ 32 - 1\<close> threads is one of this
  specification; a wait takes effect when it compares, a wake when it gets the lock of the bucket;
  and the fast path of a wake misses no sleeper. \<open>Kernel_Equiv\<close> shows that a thread alone in the
  kernel does step by step what the operations of \<open>Kernel_Heap\<close> do in one piece, and that of the
  sleepers exactly those leave their sleep that a wake has reached. \<open>K_Sched\<close> has what \<^verbatim>\<open>k_sched.h\<close>
  gives the kernel: its atomics, and the empty lock and condition variable of a task. \<open>Syscall\<close> is
  the dispatch of \<^verbatim>\<open>futex_syscall\<close> over any pair of handlers, used with the empty stubs of
  \<^verbatim>\<open>syscall.h\<close> and with the kernel model.

  \<^bold>\<open>Userspace on the kernel.\<close> \<open>Futex_Service\<close> states what userspace gets from the kernel as a locale
  (\<open>futex_service\<close>: sleepers of each word, the latest first, refused and accepted waits, wake-ups,
  the return of a woken thread) and interprets it on the buckets and nodes of \<open>Kernel_Heap\<close> behind
  \<^verbatim>\<open>futex_syscall\<close>, for any bound \<open>N < 2 ^ 31\<close> of the threads; the walk has \<open>N + 1\<close> rounds, and no
  chain is longer than \<open>N\<close>. \<open>Lock_Kernel\<close> runs the threads of \<open>Tri_Lock\<close>, \<open>Cond_Os\<close> and
  \<open>Cond_Kernel\<close> those of \<open>Cond_Conc\<close> with their words in the memory of userspace and each futex call
  executed by that kernel. Both refine the systems with abstract sleepers: a thread that has been
  woken but has not run since is past its wait there. A futex call is one step in all of these
  systems: what they show holds as long as the kernel executes one call at a time, which is what
  \<open>Kernel_Equiv\<close> relates to the steps of \<open>Kernel_Conc\<close>. Under this restriction what is shown of the
  abstract systems holds end to end, no waiter of a closed group is left asleep in the kernel, and
  every wake-up reaches the threads it is for. Calls that overlap are the matter of \<open>Kernel_Conc\<close>
  and \<open>Kernel_Linear\<close>: there a wake can miss a waiter that is just arriving, so a signaled waiter
  can stay asleep. \<open>Cond_Locks\<close> and \<open>Cond_Stack\<close> put everything together: the threads of \<open>Cond_Conc\<close>
  with \<^verbatim>\<open>_InnerLock\<close> and the mutex run as \<^verbatim>\<open>three_states_lock\<close> on \<^verbatim>\<open>g1_orig_size\<close> and on the word of
  the mutex, every futex call of all three in that kernel. A thread has a point in each lock
  (\<open>cl_inner\<close>, \<open>cl_mutex\<close>) besides its point in the operation. The whole stack refines \<open>Cond_Conc\<close>,
  the critical sections exclude each other, and the only threads that cannot move are those asleep
  in the kernel that nobody has woken.
\<close>

text \<open>
  \<^bold>\<open>The condition variable.\<close> \<open>Cond_Var\<close> has the structure of \<^verbatim>\<open>pthread_cond.h\<close> word by word and its
  operations run by one thread: \<^verbatim>\<open>quiesce_and_switch_g1\<close>, signal and broadcast on every branch, and
  a refinement of an abstract counter of unsignalled waiters (locale \<open>waiter_counter\<close>). \<open>Cond_Conc\<close>
  interleaves any number of threads that wait, signal, broadcast and destroy, one visible access per
  step; the inner lock and the mutex are abstract there, which \<open>Cond_Stack\<close> justifies. \<open>Cond_Inv\<close>
  proves the invariant, \<open>Cond_Props\<close> what follows: nobody sleeps in a group that is reopened, the
  reference counts are exact, destroy waits for all waiters, the critical sections exclude each
  other; and an execution that loses a signal, because a waiter gives back a signal it did not
  steal. The executions of \<open>cond_act\<close> have fewer than \<open>2 ^ 29\<close> waits, so that no field of the
  structure overflows into the next one; \<open>cond_code_act\<close> is the same without this bound, and an
  execution of it with fewer than \<open>2 ^ 29\<close> calls of wait is one of \<open>cond_act\<close> (\<open>code_run_bounded\<close>).
  \<open>Cond_Mutex\<close> adds who owns the mutex, and that no signal misses a waiter that has given the mutex
  up. \<open>Cond_Equiv\<close> shows that the steps of one thread without interference are the operations of
  \<open>Cond_Var\<close>.

  \<^bold>\<open>The C++ classes.\<close> \<open>Std_Wrappers\<close> has \<^verbatim>\<open>mutex\<close>, \<^verbatim>\<open>unique_lock\<close> and \<^verbatim>\<open>condition_variable\<close> over a store of
  mutexes by address. Shown: the constructor of \<^verbatim>\<open>unique_lock\<close> leaves the ownership flag down, so a
  scope does not unlock; the explicit operations and moves do what they should; and the predicate
  form of wait returns in the first state in which its predicate holds. In the plain wait, what
  happens while it waits is a parameter; \<open>Cond_Conc\<close> has it step by step.
\<close>

text \<open>
  \<^bold>\<open>The coroutine programs.\<close> \<open>Worker\<close> is the pool: its threads, its queue and \<^verbatim>\<open>start\<close>, \<^verbatim>\<open>submit\<close>,
  \<^verbatim>\<open>stop\<close>, \<^verbatim>\<open>join\<close> and \<^verbatim>\<open>run\<close>; tasks are run in the order of submission, none twice, and \<^verbatim>\<open>stop\<close>
  ends in a join; it does not empty the queue, although its comment says so. \<open>Generator\<close> is the
  whole program of \<^verbatim>\<open>generator.cpp\<close>. \<open>Coro_Promise\<close> has the four promise types by their members, and
  \<open>Coro_Frames\<close> the frames of \<^verbatim>\<open>coro.hpp\<close>, what may be done with a handle (a misuse sets the flag
  \<open>fr_ub\<close>) and the two bodies between their suspension points. \<open>Coro_Stack\<close> runs the three programs
  with one thread on an explicit stack of \<^verbatim>\<open>resume()\<close> calls: they end for every count, no handle is
  misused, nested resumes (and only they) destroy every single task inside its own \<^verbatim>\<open>resume()\<close>,
  which the comment in \<^verbatim>\<open>ReadyResumeAwaiter\<close> calls a use-after-free, the depth is the one
  \<^verbatim>\<open>TRACK_RESUME\<close> counts and has the bound each program is made for. \<open>Coro_Race\<close> is the build with
  the worker thread, \<open>Race_Inv\<close> its invariant, and \<open>Race_Props\<close> what follows: no frame is used out
  of turn whichever thread comes first, the program always ends with everything run and destroyed,
  and both orders happen. \<open>Log\<close> has the thread ids and the beginning of a log line, \<open>Log_Lines\<close> the
  lines of all macros and the trackers, from which thread and depth of nested resumes can be read
  back.

  \<^bold>\<open>Bounds.\<close> The loops that wait for a flag are steps that are possible once the flag is set; fairness
  is not assumed, and termination says that no execution is longer than a bound computed from the
  state (\<open>gen_left\<close>, \<open>race_left\<close>, \<open>stop_rank\<close>). The polling loop of the awaiter has its 50 rounds.
  The \<^verbatim>\<open>count\<close> of the coroutine programs is an unbounded integer; up to \<open>2 ^ 30\<close> the depth fits an
  \<^verbatim>\<open>int\<close>, and the loop variable does not pass \<^verbatim>\<open>count + 1\<close>.

  \<^bold>\<open>Not modelled.\<close> Memory orders (executions are sequentially consistent) and the fence; how
  \<^verbatim>\<open>std::format\<close> turns the arguments of a log message into text; exceptions, which none of the bodies
  throws (a promise answers one by ending the program); the destructor of the static pool after \<^verbatim>\<open>main\<close>. The
  standard library (threads, stop tokens, \<^verbatim>\<open>condition_variable_any\<close>) is modelled by what the code relies
  on. The pages, notes, Makefile and the script of the repository hold no code of these programs.
\<close>

end
